(* ===== verification/Machines.thy ===== *)
theory Machines
  imports Main
begin

text \<open>
  Components with state, driven by a list of operations. An operation gives a reply and the next
  state; a run collects the replies. What every operation keeps, every run keeps.
\<close>

fun run_ops :: "('o \<Rightarrow> 's \<Rightarrow> 'r \<times> 's) \<Rightarrow> 'o list \<Rightarrow> 's \<Rightarrow> 'r list \<times> 's" where
  "run_ops step [] s = ([], s)"
| "run_ops step (x # xs) s =
     (case step x s of (r, s1) \<Rightarrow> case run_ops step xs s1 of (rs, s2) \<Rightarrow> (r # rs, s2))"

abbreviation final_state :: "('o \<Rightarrow> 's \<Rightarrow> 'r \<times> 's) \<Rightarrow> 'o list \<Rightarrow> 's \<Rightarrow> 's" where
  "final_state step xs s \<equiv> snd (run_ops step xs s)"

lemma final_state_Cons [simp]:
  "final_state step (x # xs) s = final_state step xs (snd (step x s))"
  by (simp add: case_prod_unfold)

lemma final_state_append:
  "final_state step (xs @ ys) s = final_state step ys (final_state step xs s)"
  by (induction xs arbitrary: s) (simp_all add: case_prod_unfold)

lemma replies_Cons [simp]:
  "fst (run_ops step (x # xs) s) = fst (step x s) # fst (run_ops step xs (snd (step x s)))"
  by (simp add: case_prod_unfold)

declare run_ops.simps(2) [simp del]

locale machine =
  fixes step :: "'o \<Rightarrow> 's \<Rightarrow> 'r \<times> 's" and inv :: "'s \<Rightarrow> bool"
  assumes step_inv: "inv s \<Longrightarrow> inv (snd (step x s))"
begin

lemma run_inv: "inv s \<Longrightarrow> inv (final_state step xs s)"
  by (induction xs arbitrary: s) (simp_all add: step_inv)

text \<open>A relation between states that every step has is one that every run has.\<close>

lemma run_monotone:
  assumes "inv s" and "\<And>s. R s s" and "\<And>s t u. R s t \<Longrightarrow> R t u \<Longrightarrow> R s u"
    and "\<And>x s. inv s \<Longrightarrow> R s (snd (step x s))"
  shows "R s (final_state step xs s)"
  using assms(1)
proof (induction xs arbitrary: s)
  case (Cons x xs)
  have "R s (snd (step x s))" by (rule assms(4)) (rule Cons.prems)
  moreover have "R (snd (step x s)) (final_state step xs (snd (step x s)))"
    by (rule Cons.IH) (rule step_inv [OF Cons.prems])
  ultimately show ?case by (simp add: assms(3))
qed (simp add: assms(2))

end

end
