(* ===== verification/Prelude.thy ===== *)
theory Prelude
  imports Main "HOL-Library.Word" "HOL-Library.Sublist" "HOL-Library.Multiset"
    "HOL-Library.Code_Target_Numeral" "HOL-Library.Char_ord"
begin

text \<open>
  Vocabulary shared by every component of the ChimeraDB model.

  A C++ function that can throw is a HOL function into \<open>failure + 'a\<close>. A thrown
  \<open>TranslatorError\<close> (src/chimera/translator/include/chimera/error.h) is
  \<open>Inl (Raise e)\<close>; \<open>Inl Std_exception\<close> is an exception of the standard library (such as
  \<open>std::out_of_range\<close>) that the code lets escape; \<open>Inl Undefined\<close> marks the inputs on which the C++ standard puts no
  requirement on the program (an out-of-range float-to-integer cast, a read of an inactive
  union member, a comparator that is no strict weak order), so that such inputs are visible
  in every statement about the code instead of being given an invented result.

  A \<open>std::string\<close> is a \<open>char list\<close>: both are sequences of bytes.
\<close>

section \<open>Fact collections\<close>

named_theorems outcome_simps \<open>rewriting of computations that may fail\<close>
named_theorems error_simps \<open>the error constructors, unfolded\<close>
named_theorems path_simps \<open>reading and writing documents by path\<close>

section \<open>Errors\<close>

record translator_error =
  te_code :: int
  te_code_name :: string
  te_what :: string

datatype failure = Raise translator_error | Std_exception | Undefined

type_synonym 'a outcome = "failure + 'a"

definition mk_error :: "int \<Rightarrow> string \<Rightarrow> string \<Rightarrow> failure" where
  "mk_error c n m = Raise \<lparr>te_code = c, te_code_name = n, te_what = m\<rparr>"

definition bad_value :: "string \<Rightarrow> failure" where
  "bad_value m = mk_error 2 ''BadValue'' m"

definition failed_to_parse :: "string \<Rightarrow> failure" where
  "failed_to_parse m = mk_error 9 ''FailedToParse'' m"

definition missing_command_field :: "string \<Rightarrow> failure" where
  "missing_command_field m = mk_error 40414 ''IDLFailedToParse'' m"

definition type_mismatch :: "string \<Rightarrow> failure" where
  "type_mismatch m = mk_error 14 ''TypeMismatch'' m"

definition not_implemented :: "string \<Rightarrow> failure" where
  "not_implemented m = mk_error 238 ''NotImplemented'' m"

definition unauthorized :: "string \<Rightarrow> failure" where
  "unauthorized m = mk_error 13 ''Unauthorized'' m"

definition namespace_not_found :: "string \<Rightarrow> failure" where
  "namespace_not_found m = mk_error 26 ''NamespaceNotFound'' m"

definition namespace_exists :: "string \<Rightarrow> failure" where
  "namespace_exists m = mk_error 48 ''NamespaceExists'' m"

definition index_not_found :: "string \<Rightarrow> failure" where
  "index_not_found m = mk_error 27 ''IndexNotFound'' m"

definition duplicate_key :: "string \<Rightarrow> failure" where
  "duplicate_key m = mk_error 11000 ''DuplicateKey'' m"

definition cursor_not_found :: "string \<Rightarrow> failure" where
  "cursor_not_found m = mk_error 43 ''CursorNotFound'' m"

definition change_stream_options_conflict :: "string \<Rightarrow> failure" where
  "change_stream_options_conflict m = mk_error 40674 ''Location40674'' m"

definition change_stream_history_lost :: "string \<Rightarrow> failure" where
  "change_stream_history_lost m = mk_error 286 ''ChangeStreamHistoryLost'' m"

definition internal_error :: "string \<Rightarrow> failure" where
  "internal_error m = mk_error 1 ''InternalError'' m"

lemmas error_defs [error_simps] =
  mk_error_def bad_value_def failed_to_parse_def missing_command_field_def type_mismatch_def
  not_implemented_def unauthorized_def namespace_not_found_def namespace_exists_def
  index_not_found_def duplicate_key_def cursor_not_found_def
  change_stream_options_conflict_def change_stream_history_lost_def internal_error_def

definition is_raise :: "int \<Rightarrow> 'a outcome \<Rightarrow> bool" where
  "is_raise c r \<longleftrightarrow> (case r of Inl (Raise e) \<Rightarrow> te_code e = c | _ \<Rightarrow> False)"

lemma is_raise_simps [simp, outcome_simps]:
  "is_raise c (Inr x) = False"
  "is_raise c (Inl Undefined) = False"
  "is_raise c (Inl Std_exception) = False"
  "is_raise c (Inl (Raise e)) = (te_code e = c)"
  by (simp_all add: is_raise_def)

section \<open>Sequencing\<close>

definition and_then :: "('e + 'a) \<Rightarrow> ('a \<Rightarrow> 'e + 'b) \<Rightarrow> 'e + 'b" where
  "and_then m f = (case m of Inl e \<Rightarrow> Inl e | Inr x \<Rightarrow> f x)"

lemma and_then_simps [simp, outcome_simps]:
  "and_then (Inl e) f = Inl e"
  "and_then (Inr x) f = f x"
  by (simp_all add: and_then_def)

lemma and_then_cong [fundef_cong]:
  "m = m' \<Longrightarrow> (\<And>x. m' = Inr x \<Longrightarrow> f x = g x) \<Longrightarrow> and_then m f = and_then m' g"
  by (cases m') (simp_all add: and_then_def)

lemma and_then_Inr_iff [outcome_simps]:
  "and_then m f = Inr y \<longleftrightarrow> (\<exists>x. m = Inr x \<and> f x = Inr y)"
  by (cases m) simp_all

lemma and_then_Inl_iff:
  "and_then m f = Inl e \<longleftrightarrow> m = Inl e \<or> (\<exists>x. m = Inr x \<and> f x = Inl e)"
  by (cases m) simp_all

lemma and_then_InrE:
  assumes "and_then m f = Inr y"
  obtains x where "m = Inr x" and "f x = Inr y"
  using assms by (auto simp: and_then_Inr_iff)

text \<open>A guard that throws: \<open>if (bad) throw e;\<close>\<close>

definition throw_if :: "bool \<Rightarrow> failure \<Rightarrow> unit outcome" where
  "throw_if b e = (if b then Inl e else Inr ())"

lemma throw_if_simps [simp, outcome_simps]:
  "throw_if True e = Inl e"
  "throw_if False e = Inr ()"
  by (simp_all add: throw_if_def)

lemma throw_if_Inr_iff [simp, outcome_simps]: "throw_if b e = Inr u \<longleftrightarrow> \<not> b"
  by (simp add: throw_if_def)

text \<open>The range-for loops of the code: with a state, and collecting results.\<close>

fun fold_res :: "('a \<Rightarrow> 's \<Rightarrow> 'e + 's) \<Rightarrow> 'a list \<Rightarrow> 's \<Rightarrow> 'e + 's" where
  "fold_res f [] s = Inr s"
| "fold_res f (x # xs) s = and_then (f x s) (fold_res f xs)"

fun map_res :: "('a \<Rightarrow> 'e + 'b) \<Rightarrow> 'a list \<Rightarrow> 'e + 'b list" where
  "map_res f [] = Inr []"
| "map_res f (x # xs) = and_then (f x) (\<lambda>y. and_then (map_res f xs) (\<lambda>ys. Inr (y # ys)))"

lemma fold_res_cong [fundef_cong]:
  "xs = ys \<Longrightarrow> s = t \<Longrightarrow> (\<And>x u. x \<in> set ys \<Longrightarrow> f x u = g x u) \<Longrightarrow>
    fold_res f xs s = fold_res g ys t"
proof (induction xs arbitrary: ys s t)
  case Nil
  then show ?case by simp
next
  case (Cons x xs)
  then obtain zs where ys: "ys = x # zs" and zs: "xs = zs" by auto
  have "fold_res f xs u = fold_res g zs u" for u
    using Cons.IH [OF zs refl, of u] Cons.prems(3) ys by simp
  with Cons.prems ys show ?case by (auto simp: and_then_def split: sum.split)
qed

lemma map_res_cong [fundef_cong]:
  "xs = ys \<Longrightarrow> (\<And>x. x \<in> set ys \<Longrightarrow> f x = g x) \<Longrightarrow> map_res f xs = map_res g ys"
proof (induction xs arbitrary: ys)
  case Nil
  then show ?case by simp
next
  case (Cons x xs)
  then obtain zs where ys: "ys = x # zs" and zs: "xs = zs" by auto
  have "map_res f xs = map_res g zs"
    using Cons.IH [OF zs] Cons.prems(2) ys by simp
  with Cons.prems ys show ?case by (auto simp: and_then_def split: sum.split)
qed

lemma fold_res_append [outcome_simps]:
  "fold_res f (xs @ ys) s = and_then (fold_res f xs s) (fold_res f ys)"
  by (induction xs arbitrary: s) (auto simp: and_then_def split: sum.split)

lemma map_res_Inr_length: "map_res f xs = Inr ys \<Longrightarrow> length ys = length xs"
  by (induction xs arbitrary: ys) (auto simp: and_then_Inr_iff)

lemma map_res_Inr_iff: "map_res f xs = Inr ys \<longleftrightarrow> list_all2 (\<lambda>x y. f x = Inr y) xs ys"
  by (induction xs arbitrary: ys) (auto simp: and_then_Inr_iff list_all2_Cons1)

lemma map_res_total: "(\<And>x. x \<in> set xs \<Longrightarrow> f x = Inr (g x)) \<Longrightarrow> map_res f xs = Inr (map g xs)"
  by (induction xs) auto

text \<open>An invariant of a loop with a state.\<close>

lemma fold_res_invariant:
  assumes "fold_res f xs s = Inr t" and "I s"
    and "\<And>x u v. x \<in> set xs \<Longrightarrow> I u \<Longrightarrow> f x u = Inr v \<Longrightarrow> I v"
  shows "I t"
  using assms
proof (induction xs arbitrary: s)
  case Nil
  then show ?case by simp
next
  case (Cons x xs)
  from Cons.prems(1) obtain u where u: "f x s = Inr u" and rest: "fold_res f xs u = Inr t"
    by (auto simp: and_then_Inr_iff)
  have "I u" by (rule Cons.prems(3) [OF _ Cons.prems(2) u]) simp
  then show ?case by (rule Cons.IH [OF rest]) (use Cons.prems(3) in auto)
qed

section \<open>Text\<close>

definition nul :: char where
  "nul = CHR 0x00"

text \<open>\<open>s.c_str()\<close> handed to a function that stops at the terminating NUL.\<close>

definition c_str :: "string \<Rightarrow> string" where
  "c_str s = takeWhile (\<lambda>c. c \<noteq> nul) s"

lemma c_str_id [simp]: "nul \<notin> set s \<Longrightarrow> c_str s = s"
  by (auto simp: c_str_def takeWhile_eq_all_conv)

text \<open>Does the string start with this character (\<open>!s.empty() && s[0] == c\<close>)?\<close>

definition starts_char :: "char \<Rightarrow> string \<Rightarrow> bool" where
  "starts_char c s \<longleftrightarrow> (case s of [] \<Rightarrow> False | x # _ \<Rightarrow> x = c)"

lemma starts_char_simps [simp]:
  "starts_char c [] = False"
  "starts_char c (x # xs) = (x = c)"
  by (simp_all add: starts_char_def)

text \<open>\<open>std::to_string\<close> of an integer.\<close>

definition digit_char :: "nat \<Rightarrow> char" where
  "digit_char d = char_of (48 + d)"

fun nat_text :: "nat \<Rightarrow> string" where
  "nat_text n = (if n < 10 then [digit_char n] else nat_text (n div 10) @ [digit_char (n mod 10)])"

declare nat_text.simps [simp del]

definition int_text :: "int \<Rightarrow> string" where
  "int_text i = (if i < 0 then ''-'' @ nat_text (nat (- i)) else nat_text (nat i))"

text \<open>Reading a decimal numeral back; used to show that the spelling is unambiguous.\<close>

definition digit_value :: "char \<Rightarrow> nat" where
  "digit_value c = of_char c - 48"

definition decimal_value :: "string \<Rightarrow> nat" where
  "decimal_value s = foldl (\<lambda>n c. 10 * n + digit_value c) 0 s"

lemma digit_value_digit_char [simp]: "d < 10 \<Longrightarrow> digit_value (digit_char d) = d"
  by (simp add: digit_value_def digit_char_def)

lemma decimal_value_snoc [simp]:
  "decimal_value (s @ [c]) = 10 * decimal_value s + digit_value c"
  by (simp add: decimal_value_def)

lemma decimal_value_nat_text [simp]: "decimal_value (nat_text n) = n"
proof (induction n rule: nat_text.induct)
  case (1 n)
  show ?case
  proof (cases "n < 10")
    case True
    then show ?thesis by (simp add: nat_text.simps [of n] decimal_value_def)
  next
    case False
    with 1 show ?thesis by (simp add: nat_text.simps [of n])
  qed
qed

lemma nat_text_inject [simp]: "nat_text m = nat_text n \<longleftrightarrow> m = n"
  by (metis decimal_value_nat_text)

section \<open>Words\<close>

lemma unat_drop_bit: "unat (drop_bit k w) = unat w div 2 ^ k" for w :: "'a::len word"
proof -
  have "take_bit LENGTH('a) (unat w) = unat w"
    using unsigned_less [of w] by (simp add: take_bit_nat_eq_self)
  then show ?thesis by (simp only: unsigned_drop_bit_eq) (simp only: drop_bit_eq_div)
qed

lemma div_eq_iff_range: "0 < m \<Longrightarrow> n div m = q \<longleftrightarrow> m * q \<le> n \<and> n < m * Suc q" for m n q :: nat
  by (metis div_nat_eqI dividend_less_times_div mult.commute mult_Suc_right nat_arith.rule0 add.commute times_div_less_eq_dividend)

lemma unat_64: "unat w < 2 ^ 64" for w :: "64 word"
  using unsigned_less [of w] by simp

lemma half_shift: "(x + h) mod (2 * h) - h = (if h \<le> x then x - 2 * h else x)"
  if "0 \<le> x" "x < 2 * h" for x h :: int
proof (cases "h \<le> x")
  case True
  have "(x + h) mod (2 * h) = (x - h + 2 * h) mod (2 * h)" by (simp add: algebra_simps)
  also have "\<dots> = x - h" using that True by (simp only: mod_add_self2) (simp add: mod_pos_pos_trivial)
  finally show ?thesis using True by simp
qed (use that in \<open>simp add: mod_pos_pos_trivial\<close>)

lemma sint_unat: "sint w = (if 2 ^ 63 \<le> unat w then int (unat w) - 2 ^ 64 else int (unat w))"
  for w :: "64 word"
proof -
  have "sint w = (int (unat w) + 2 ^ 63) mod 2 ^ 64 - 2 ^ 63"
    by (simp add: sint_uint signed_take_bit_eq_take_bit_shift take_bit_eq_mod del: uint_nat)
  also have "\<dots> = (if 2 ^ 63 \<le> unat w then int (unat w) - 2 ^ 64 else int (unat w))"
  proof -
    have two: "(2 * 2 ^ 63 :: int) = 2 ^ 64" by simp
    have le: "2 ^ 63 \<le> int (unat w) \<longleftrightarrow> 2 ^ 63 \<le> unat w"
      by (metis of_nat_le_iff of_nat_numeral of_nat_power)
    have "int (unat w) < 2 ^ 64"
      using unat_64 [of w] by (metis of_nat_less_iff of_nat_numeral of_nat_power)
    then have "(int (unat w) + 2 ^ 63) mod (2 * 2 ^ 63) - 2 ^ 63
        = (if 2 ^ 63 \<le> int (unat w) then int (unat w) - 2 * 2 ^ 63 else int (unat w))"
      by (intro half_shift) (simp_all only: two of_nat_0_le_iff)
    then show ?thesis by (simp only: le two)
  qed
  finally show ?thesis .
qed

lemma sint_small: "unat w < 2 ^ 63 \<Longrightarrow> sint w = int (unat w)" for w :: "64 word"
  by (simp only: sint_unat not_le [symmetric] if_False)

section \<open>Codecs\<close>

text \<open>
  Several components turn a value into bytes or text and back (ids, resume tokens, wire
  integers). They share one contract: decoding an encoding gives the value back.
\<close>

locale codec =
  fixes enc :: "'a \<Rightarrow> 'b" and dec :: "'b \<Rightarrow> 'a option" and dom_ok :: "'a \<Rightarrow> bool"
  assumes dec_enc: "dom_ok x \<Longrightarrow> dec (enc x) = Some x"
begin

lemma enc_inject: "dom_ok x \<Longrightarrow> dom_ok y \<Longrightarrow> enc x = enc y \<longleftrightarrow> x = y"
  by (metis dec_enc option.inject)

lemma enc_inj_on: "inj_on enc {x. dom_ok x}"
  by (rule inj_onI) (simp add: enc_inject)

end

text \<open>
  A canonical codec accepts nothing but its own encodings, so text and value correspond
  one to one.
\<close>

locale canonical_codec = codec +
  assumes enc_dec: "dec t = Some x \<Longrightarrow> dom_ok x \<and> enc x = t"
begin

lemma dec_Some_iff: "dec t = Some x \<longleftrightarrow> dom_ok x \<and> t = enc x"
  using dec_enc enc_dec by metis

lemma dec_inject: "dec s = Some x \<Longrightarrow> dec t = Some x \<Longrightarrow> s = t"
  by (metis enc_dec)

end

end
