(* ===== verification/Oplog.thy ===== *)
theory Oplog
  imports Machines Prelude
begin

text \<open>
  The oplog (src/chimera/plugin/chimera_mongo/oplog.cc): the tables behind it, the procedure that
  appends to it, and the pruner with its durable history. A table is a list of rows in commit
  order; an SQL statement is a function on the tables. BIGINT and INT columns are naturals.

  Writers append under the clock row's lock, so an append is one step. The pruner reads several
  snapshots before it takes the lock, so each of its statements is a step of its own and appends
  may come in between.
\<close>

section \<open>Operation times\<close>

text \<open>\<open>(ts_t, ts_i)\<close>, compared by seconds and then by increment.\<close>

datatype optime = Optime (seconds: nat) (increment: nat)

instantiation optime :: linorder
begin

definition less_optime :: "optime \<Rightarrow> optime \<Rightarrow> bool" where
  "less_optime a b \<longleftrightarrow> seconds a < seconds b \<or> seconds a = seconds b \<and> increment a < increment b"

definition less_eq_optime :: "optime \<Rightarrow> optime \<Rightarrow> bool" where
  "less_eq_optime a b \<longleftrightarrow> seconds a < seconds b \<or> seconds a = seconds b \<and> increment a \<le> increment b"

instance
proof
  fix a b c :: optime
  show "a < b \<longleftrightarrow> a \<le> b \<and> \<not> b \<le> a" by (auto simp: less_optime_def less_eq_optime_def)
  show "a \<le> a" by (simp add: less_eq_optime_def)
  show "a \<le> b \<Longrightarrow> b \<le> c \<Longrightarrow> a \<le> c" by (auto simp: less_eq_optime_def)
  show "a \<le> b \<Longrightarrow> b \<le> a \<Longrightarrow> a = b" by (auto simp: less_eq_optime_def optime.expand)
  show "a \<le> b \<or> b \<le> a" by (auto simp: less_eq_optime_def)
qed

end

lemma optime_less [simp]: "Optime t i < Optime u j \<longleftrightarrow> t < u \<or> t = u \<and> i < j"
  by (simp add: less_optime_def)

lemma optime_le [simp]: "Optime t i \<le> Optime u j \<longleftrightarrow> t < u \<or> t = u \<and> i \<le> j"
  by (simp add: less_eq_optime_def)

section \<open>The tables\<close>

datatype oplog_kind = Op_insert | Op_update | Op_delete

record oplog_row =
  seq :: nat
  ts :: optime
  op_kind :: oplog_kind
  row_ns :: string
  o_json :: string
  o2_json :: "string option"

record oplog_history =
  pruned_seq :: nat
  pruned_t :: nat
  pruned_i :: nat
  legacy_baseline :: bool
  baseline_seq :: nat
  baseline_t :: nat
  baseline_i :: nat

record oplog_store =
  rows :: "oplog_row list"
  next_seq :: nat
  clock :: "optime option"
  history :: "oplog_history option"

section \<open>Appending\<close>

text \<open>
  \<open>chimera_meta.oplog_append\<close>: the clock row is stamped and the row inserted from it. Without
  a clock row the update changes nothing and the select inserts nothing.
\<close>

definition tick :: "nat \<Rightarrow> optime \<Rightarrow> optime" where
  "tick now c = Optime now (if seconds c = now then increment c + 1 else 1)"

definition oplog_append ::
  "nat \<Rightarrow> oplog_kind \<Rightarrow> string \<Rightarrow> string \<Rightarrow> string option \<Rightarrow> oplog_store \<Rightarrow> oplog_store" where
  "oplog_append now k ns o_doc o2_doc db = (case clock db of
       None \<Rightarrow> db
     | Some c \<Rightarrow>
         let c' = tick now c in
         db\<lparr>clock := Some c',
            rows := rows db @ [\<lparr>seq = next_seq db, ts = c', op_kind = k, row_ns = ns,
                                o_json = o_doc, o2_json = o2_doc\<rparr>],
            next_seq := next_seq db + 1\<rparr>)"

text \<open>
  The triggers that \<open>chimera_adopt_table\<close> leaves on a collection table; \<open>id_object\<close> is
  MariaDB's \<open>JSON_OBJECT('_id', JSON_EXTRACT(doc, '$._id'))\<close>.
\<close>

datatype change = Inserted string | Updated string | Deleted string

fun trigger :: "(string \<Rightarrow> string) \<Rightarrow> nat \<Rightarrow> string \<Rightarrow> change \<Rightarrow> oplog_store \<Rightarrow> oplog_store" where
  "trigger id_object now ns (Inserted new_doc) = oplog_append now Op_insert ns new_doc None"
| "trigger id_object now ns (Updated new_doc) =
     oplog_append now Op_update ns new_doc (Some (id_object new_doc))"
| "trigger id_object now ns (Deleted old_doc) =
     oplog_append now Op_delete ns (id_object old_doc) None"

definition oplog_head :: "oplog_store \<Rightarrow> nat" where
  "oplog_head db = fold max (map seq (rows db)) 0"

section \<open>Seeding the history\<close>

definition oldest_row :: "oplog_store \<Rightarrow> oplog_row option" where
  "oldest_row db = (case sort_key seq (rows db) of [] \<Rightarrow> None | r # _ \<Rightarrow> Some r)"

text \<open>The transaction at the end of \<open>install_oplog_schema\<close>.\<close>

definition seed_history :: "bool \<Rightarrow> oplog_store \<Rightarrow> oplog_store outcome" where
  "seed_history legacy db = (case clock db of
       None \<Rightarrow> Inl (internal_error ''oplog clock metadata is missing'')
     | Some c \<Rightarrow>
         if legacy \<and> (seconds c \<noteq> 0 \<or> increment c \<noteq> 0) \<and> rows db = []
         then Inl (internal_error
           ''cannot establish history for an empty legacy oplog with a nonzero clock'')
         else if history db \<noteq> None then Inr db
         else
           let (b, s, t, i) = (if legacy then
                 (case oldest_row db of
                    None \<Rightarrow> (False, 0, 0, 0)
                  | Some r \<Rightarrow> (1 < seq r, seq r - 1, seconds (ts r), increment (ts r)))
               else (False, 0, 0, 0))
           in Inr (db\<lparr>history := Some \<lparr>pruned_seq = 0, pruned_t = 0, pruned_i = 0,
                legacy_baseline = b, baseline_seq = s, baseline_t = t, baseline_i = i\<rparr>\<rparr>))"

text \<open>
  \<open>install_oplog_schema\<close>: what exists before (the tables, if any), and whether the caller holds a
  transaction. The clock row is \<open>INSERT IGNORE\<close>d.
\<close>

definition empty_store :: oplog_store where
  "empty_store = \<lparr>rows = [], next_seq = 1, clock = None, history = None\<rparr>"

definition install_oplog_schema :: "bool \<Rightarrow> oplog_store option \<Rightarrow> oplog_store outcome" where
  "install_oplog_schema in_transaction existing =
     (if (case existing of Some db \<Rightarrow> history db \<noteq> None | None \<Rightarrow> False) then Inr (the existing)
      else if in_transaction
      then Inl (bad_value (''oplog history initialization is required; commit or roll back ''
                  @ ''the current SQL transaction, then retry''))
      else
        let legacy = (existing \<noteq> None);
            db = (case existing of Some db \<Rightarrow> db | None \<Rightarrow> empty_store);
            db = (if clock db = None then db\<lparr>clock := Some (Optime 0 0)\<rparr> else db)
        in seed_history legacy db)"

section \<open>Pruning\<close>

record prune_plan =
  plan_head :: nat
  age_cut :: "nat option"
  seq_cut :: "nat option"

text \<open>The WHERE clause: \<open>seq < head AND (ts_t < .. OR seq < ..)\<close>.\<close>

definition selected :: "prune_plan \<Rightarrow> oplog_row \<Rightarrow> bool" where
  "selected plan r \<longleftrightarrow> seq r < plan_head plan \<and>
     ((case age_cut plan of Some c \<Rightarrow> seconds (ts r) < c | None \<Rightarrow> False) \<or>
      (case seq_cut plan of Some c \<Rightarrow> seq r < c | None \<Rightarrow> False))"

definition newest_first :: "oplog_row list \<Rightarrow> oplog_row list" where
  "newest_first rs = rev (sort_key seq rs)"

definition age_condition :: "nat \<Rightarrow> nat \<Rightarrow> nat option" where
  "age_condition max_age_seconds now =
     (if 0 < max_age_seconds \<and> max_age_seconds < now then Some (now - max_age_seconds) else None)"

definition row_condition :: "nat \<Rightarrow> oplog_store \<Rightarrow> nat option" where
  "row_condition max_rows db =
     (if 0 < max_rows \<and> max_rows - 1 < length (rows db)
      then Some (seq (newest_first (rows db) ! (max_rows - 1))) else None)"

definition newest_selected :: "prune_plan \<Rightarrow> oplog_store \<Rightarrow> nat option" where
  "newest_selected plan db = (case newest_first (filter (selected plan) (rows db)) of
       [] \<Rightarrow> None | r # _ \<Rightarrow> Some (seq r))"

definition latest_selected :: "prune_plan \<Rightarrow> oplog_store \<Rightarrow> optime option" where
  "latest_selected plan db = (case rev (sort_key ts (filter (selected plan) (rows db))) of
       [] \<Rightarrow> None | r # _ \<Rightarrow> Some (ts r))"

text \<open>The three assignments of the UPDATE, from left to right.\<close>

definition advance_history :: "nat \<Rightarrow> optime \<Rightarrow> oplog_history \<Rightarrow> oplog_history" where
  "advance_history newest stamp h =
     (let t = seconds stamp; i = increment stamp;
          h1 = h\<lparr>pruned_seq := max (pruned_seq h) newest\<rparr>;
          h2 = h1\<lparr>pruned_i := (if pruned_t h1 < t then i
                               else if pruned_t h1 = t then max (pruned_i h1) i
                               else pruned_i h1)\<rparr>
      in h2\<lparr>pruned_t := max (pruned_t h2) t\<rparr>)"

text \<open>The transaction under the clock lock: the number of rows removed, and the tables.\<close>

definition execute_prune ::
  "prune_plan \<Rightarrow> nat \<Rightarrow> optime \<Rightarrow> oplog_store \<Rightarrow> (nat \<times> oplog_store) outcome" where
  "execute_prune plan newest stamp db =
     (if clock db = None then Inl (internal_error ''oplog clock metadata is missing'')
      else case history db of
        None \<Rightarrow> Inl (internal_error ''oplog history metadata is missing'')
      | Some h \<Rightarrow>
          if \<not> list_ex (\<lambda>r. seq r = newest \<and> selected plan r) (rows db) then Inr (0, db)
          else
            let kept = filter (\<lambda>r. \<not> (seq r \<le> newest \<and> selected plan r)) (rows db);
                removed = length (rows db) - length kept
            in Inr (removed, db\<lparr>rows := kept,
                 history := Some (if 0 < removed then advance_history newest stamp h else h)\<rparr>))"

text \<open>
  \<open>prune_oplog\<close> on the snapshots its statements see: the head, the row count cut, the last
  selected event, its latest time, and the transaction.
\<close>

definition prune_oplog ::
  "nat \<Rightarrow> nat \<Rightarrow> nat \<Rightarrow> (nat \<Rightarrow> oplog_store) \<Rightarrow> (nat \<times> oplog_store) outcome" where
  "prune_oplog max_rows max_age_seconds now view =
     (if max_rows = 0 \<and> max_age_seconds = 0 then Inr (0, view 4)
      else let head = oplog_head (view 0) in
      if head = 0 then Inr (0, view 4)
      else
        let plan = \<lparr>plan_head = head, age_cut = age_condition max_age_seconds now,
                    seq_cut = row_condition max_rows (view 1)\<rparr> in
        if age_cut plan = None \<and> seq_cut plan = None then Inr (0, view 4)
        else case newest_selected plan (view 2) of
          None \<Rightarrow> Inr (0, view 4)
        | Some newest \<Rightarrow> (case latest_selected plan (view 3) of
            None \<Rightarrow> Inl (internal_error ''could not determine the timestamp of pruned history'')
          | Some stamp \<Rightarrow> execute_prune plan newest stamp (view 4)))"

section \<open>The world\<close>

text \<open>
  The tables, every event ever committed (which no code keeps: the yardstick), and what the
  pruner has read so far.
\<close>

datatype stage =
    Idle
  | Have_head nat nat nat
  | Have_plan prune_plan
  | Have_newest prune_plan nat
  | Have_stamp prune_plan nat optime

record world =
  store :: oplog_store
  committed :: "oplog_row list"
  stage :: stage

text \<open>
  One step of a writer or of the pruner. In a \<open>steady\<close> world \<open>UNIX_TIMESTAMP()\<close> never goes
  back. A gap is a rolled-back writer: it consumes sequence numbers.
\<close>

inductive oplog_step :: "bool \<Rightarrow> (string \<Rightarrow> string) \<Rightarrow> world \<Rightarrow> world \<Rightarrow> bool"
  for steady :: bool and id_object :: "string \<Rightarrow> string" where
  step_write: "clock (store w) = Some c \<Longrightarrow> (steady \<Longrightarrow> seconds c \<le> now) \<Longrightarrow>
     db = trigger id_object now ns ch (store w) \<Longrightarrow>
     oplog_step steady id_object w (w\<lparr>store := db, committed := committed w @ [last (rows db)]\<rparr>)"
| step_gap: "oplog_step steady id_object w (w\<lparr>store := (store w)\<lparr>next_seq := next_seq (store w) + k\<rparr>\<rparr>)"
| step_head: "stage w = Idle \<Longrightarrow> max_rows \<noteq> 0 \<or> max_age \<noteq> 0 \<Longrightarrow> oplog_head (store w) \<noteq> 0 \<Longrightarrow>
     oplog_step steady id_object w (w\<lparr>stage := Have_head max_rows max_age (oplog_head (store w))\<rparr>)"
| step_plan: "stage w = Have_head max_rows max_age head \<Longrightarrow>
     plan = \<lparr>plan_head = head, age_cut = age_condition max_age now,
             seq_cut = row_condition max_rows (store w)\<rparr> \<Longrightarrow>
     oplog_step steady id_object w
       (w\<lparr>stage := if age_cut plan = None \<and> seq_cut plan = None then Idle else Have_plan plan\<rparr>)"
| step_newest: "stage w = Have_plan plan \<Longrightarrow> newest_selected plan (store w) = Some n \<Longrightarrow>
     oplog_step steady id_object w (w\<lparr>stage := Have_newest plan n\<rparr>)"
| step_stamp: "stage w = Have_newest plan n \<Longrightarrow> latest_selected plan (store w) = Some t \<Longrightarrow>
     oplog_step steady id_object w (w\<lparr>stage := Have_stamp plan n t\<rparr>)"
| step_execute: "stage w = Have_stamp plan n t \<Longrightarrow> execute_prune plan n t (store w) = Inr (k, db) \<Longrightarrow>
     oplog_step steady id_object w (w\<lparr>store := db, stage := Idle\<rparr>)"
| step_abort: "oplog_step steady id_object w (w\<lparr>stage := Idle\<rparr>)"

text \<open>
  Where a world begins: a fresh installation, or one over the tables of an oplog that kept no
  history, whose pruner had removed a prefix of the events and never the newest.
\<close>

definition ordered :: "bool \<Rightarrow> oplog_row list \<Rightarrow> oplog_store \<Rightarrow> bool" where
  "ordered steady evs db \<longleftrightarrow>
     sorted_wrt (\<lambda>a b. seq a < seq b \<and> (steady \<longrightarrow> ts a < ts b)) evs
     \<and> 1 \<le> next_seq db \<and> (\<forall>r \<in> set evs. 1 \<le> seq r \<and> seq r < next_seq db)
     \<and> (case clock db of None \<Rightarrow> evs = [] | Some c \<Rightarrow> steady \<longrightarrow> (\<forall>r \<in> set evs. ts r \<le> c))"

definition legacy_tables :: "bool \<Rightarrow> oplog_row list \<Rightarrow> oplog_store \<Rightarrow> bool" where
  "legacy_tables steady evs db \<longleftrightarrow> ordered steady evs db \<and> history db = None
     \<and> (\<exists>k. rows db = drop k evs) \<and> (evs \<noteq> [] \<longrightarrow> rows db \<noteq> [])"

inductive oplog_reachable :: "bool \<Rightarrow> (string \<Rightarrow> string) \<Rightarrow> world \<Rightarrow> bool"
  for steady :: bool and id_object :: "string \<Rightarrow> string" where
  start_fresh: "install_oplog_schema in_transaction None = Inr db \<Longrightarrow>
     oplog_reachable steady id_object \<lparr>store = db, committed = [], stage = Idle\<rparr>"
| start_legacy: "legacy_tables steady evs db0 \<Longrightarrow> install_oplog_schema in_transaction (Some db0) = Inr db \<Longrightarrow>
     oplog_reachable steady id_object \<lparr>store = db, committed = evs, stage = Idle\<rparr>"
| next_step: "oplog_reachable steady id_object w \<Longrightarrow> oplog_step steady id_object w w' \<Longrightarrow>
     oplog_reachable steady id_object w'"

section \<open>The invariant\<close>

definition pruned_ts :: "oplog_history \<Rightarrow> optime" where
  "pruned_ts h = Optime (pruned_t h) (pruned_i h)"

definition baseline_ts :: "oplog_history \<Rightarrow> optime" where
  "baseline_ts h = Optime (baseline_t h) (baseline_i h)"

text \<open>Every event that is gone is covered by the history.\<close>

definition covered :: "bool \<Rightarrow> oplog_history \<Rightarrow> oplog_row \<Rightarrow> bool" where
  "covered steady h r \<longleftrightarrow>
     pruned_seq h \<noteq> 0 \<and> seq r \<le> pruned_seq h \<and> ts r \<le> pruned_ts h
     \<or> legacy_baseline h \<and> seq r \<le> baseline_seq h \<and> (steady \<longrightarrow> ts r < baseline_ts h)"

text \<open>The history never claims more than what is gone: it is anchored at committed events.\<close>

definition anchored :: "bool \<Rightarrow> oplog_row list \<Rightarrow> oplog_history \<Rightarrow> bool" where
  "anchored steady evs h \<longleftrightarrow>
     (if pruned_seq h = 0 then pruned_t h = 0 \<and> pruned_i h = 0
      else \<exists>p \<in> set evs. seq p = pruned_seq h \<and> (steady \<longrightarrow> ts p = pruned_ts h)) \<and>
     (if legacy_baseline h
      then \<exists>b \<in> set evs. seq b = baseline_seq h + 1 \<and> ts b = baseline_ts h
      else baseline_seq h = 0)"

fun stage_ok :: "bool \<Rightarrow> oplog_row list \<Rightarrow> stage \<Rightarrow> bool" where
  "stage_ok steady rs Idle = True"
| "stage_ok steady rs (Have_head m a h) = (h \<in> seq ` set rs)"
| "stage_ok steady rs (Have_plan p) = (plan_head p \<in> seq ` set rs)"
| "stage_ok steady rs (Have_newest p n) =
     (plan_head p \<in> seq ` set rs \<and> (\<forall>r \<in> set rs. selected p r \<longrightarrow> seq r \<le> n)
      \<and> (\<exists>r \<in> set rs. selected p r \<and> seq r = n))"
| "stage_ok steady rs (Have_stamp p n t) =
     (plan_head p \<in> seq ` set rs \<and> (\<forall>r \<in> set rs. selected p r \<longrightarrow> seq r \<le> n \<and> ts r \<le> t)
      \<and> (\<exists>r \<in> set rs. selected p r \<and> seq r = n \<and> (steady \<longrightarrow> ts r = t)))"

definition world_ok :: "bool \<Rightarrow> world \<Rightarrow> bool" where
  "world_ok steady w \<longleftrightarrow> (\<exists>h c.
     history (store w) = Some h \<and> clock (store w) = Some c
     \<and> ordered steady (committed w) (store w)
     \<and> rows (store w) = filter (\<lambda>r. r \<in> set (rows (store w))) (committed w)
     \<and> (committed w \<noteq> [] \<longrightarrow> last (committed w) \<in> set (rows (store w)))
     \<and> (\<forall>r \<in> set (committed w). r \<notin> set (rows (store w)) \<longrightarrow> covered steady h r)
     \<and> anchored steady (committed w) h
     \<and> stage_ok steady (rows (store w)) (stage w))"

section \<open>The invariant holds\<close>

lemma sorted_key_id:
  fixes f :: "'a \<Rightarrow> 'b :: linorder"
  assumes "sorted_wrt (\<lambda>a b. f a < f b) xs"
  shows "sort_key f xs = xs"
proof -
  have "sorted (map f xs)"
    using assms by (induction xs) (auto intro: order.strict_implies_order)
  then show ?thesis by (rule sort_key_id_if_sorted)
qed


lemma fold_max_ge: "a \<le> fold max xs a \<and> (\<forall>x \<in> set xs. x \<le> fold max xs a)" for a :: nat
proof (induction xs arbitrary: a)
  case (Cons x xs)
  from Cons [of "max x a"] show ?case by simp
qed simp

lemma fold_max_in: "fold max xs a = a \<or> fold max xs a \<in> set xs" for a :: nat
proof (induction xs arbitrary: a)
  case (Cons x xs)
  from Cons [of "max x a"] show ?case by (auto simp: max_def split: if_splits)
qed simp

lemmas fold_max_le = fold_max_ge [THEN conjunct2, THEN bspec]

lemma head_le: "r \<in> set (rows db) \<Longrightarrow> seq r \<le> oplog_head db"
  unfolding oplog_head_def by (rule fold_max_le) simp

lemma head_in: "oplog_head db \<noteq> 0 \<Longrightarrow> oplog_head db \<in> seq ` set (rows db)"
  unfolding oplog_head_def using fold_max_in [of "map seq (rows db)" 0] by auto

lemma newest_first_Cons:
  assumes "newest_first rs = x # xs"
  shows "x \<in> set rs \<and> (\<forall>r \<in> set rs. seq r \<le> seq x)"
proof -
  have s: "sort_key seq rs = rev xs @ [x]" using assms by (simp add: newest_first_def rev_swap)
  have "sorted (map seq (sort_key seq rs))" by simp
  then have "\<forall>r \<in> set (rev xs @ [x]). seq r \<le> seq x" unfolding s by (auto simp: sorted_append)
  moreover have "set rs = set (rev xs @ [x])" using s by (metis set_sort)
  ultimately show ?thesis by auto
qed

lemma newest_selected_Some:
  "newest_selected plan db = Some n \<Longrightarrow>
    (\<exists>r \<in> set (rows db). selected plan r \<and> seq r = n)
    \<and> (\<forall>r \<in> set (rows db). selected plan r \<longrightarrow> seq r \<le> n)"
  by (auto simp: newest_selected_def split: list.splits dest!: newest_first_Cons)

lemma latest_selected_Some:
  assumes "latest_selected plan db = Some t"
  shows "(\<exists>r \<in> set (rows db). selected plan r \<and> ts r = t)
    \<and> (\<forall>r \<in> set (rows db). selected plan r \<longrightarrow> ts r \<le> t)"
proof -
  let ?s = "filter (selected plan) (rows db)"
  from assms obtain x xs where s: "sort_key ts ?s = rev xs @ [x]" and t: "t = ts x"
    by (auto simp: latest_selected_def rev_swap split: list.splits)
  have "sorted (map ts (sort_key ts ?s))" by simp
  then have "\<forall>r \<in> set (rev xs @ [x]). ts r \<le> ts x" unfolding s by (auto simp: sorted_append)
  moreover have "set ?s = set (rev xs @ [x])" using s by (metis set_sort)
  ultimately show ?thesis unfolding t by auto
qed

lemma ordered_seq:
  assumes "ordered steady evs db" and "a \<in> set evs" and "b \<in> set evs"
  shows "seq a = seq b \<longleftrightarrow> a = b" and "steady \<Longrightarrow> ts a < ts b \<longleftrightarrow> seq a < seq b"
proof -
  have s: "sorted_wrt (\<lambda>a b. seq a < seq b \<and> (steady \<longrightarrow> ts a < ts b)) evs"
    using assms(1) by (simp add: ordered_def)
  have "a = b \<or> (seq a < seq b \<and> (steady \<longrightarrow> ts a < ts b)) \<or> (seq b < seq a \<and> (steady \<longrightarrow> ts b < ts a))"
    using s assms(2,3) by (induction evs) auto
  then show "seq a = seq b \<longleftrightarrow> a = b" and "steady \<Longrightarrow> ts a < ts b \<longleftrightarrow> seq a < seq b" by auto
qed

lemma ordered_last:
  "ordered steady evs db \<Longrightarrow> r \<in> set evs \<Longrightarrow> seq r \<le> seq (last evs)"
proof -
  assume o: "ordered steady evs db" and r: "r \<in> set evs"
  then obtain xs x where evs: "evs = xs @ [x]" by (metis append_butlast_last_id empty_iff empty_set)
  with o r show ?thesis by (auto simp: ordered_def sorted_wrt_append)
qed

lemma tick_later: "seconds c \<le> now \<Longrightarrow> c < tick now c"
  by (cases c) (auto simp: tick_def)

lemma trigger_append:
  assumes "clock db = Some c"
  shows "\<exists>r. trigger id_object now ns ch db =
      db\<lparr>clock := Some (tick now c), rows := rows db @ [r], next_seq := next_seq db + 1\<rparr>
    \<and> seq r = next_seq db \<and> ts r = tick now c"
  using assms by (cases ch) (auto simp: oplog_append_def Let_def)

lemma selected_fresh: "plan_head p \<in> seq ` set rs \<Longrightarrow> (\<And>x. x \<in> set rs \<Longrightarrow> seq x < seq r) \<Longrightarrow> \<not> selected p r"
  by (fastforce simp: selected_def)

lemma stage_ok_snoc:
  assumes "stage_ok steady rs st" and "\<And>x. x \<in> set rs \<Longrightarrow> seq x < seq r"
  shows "stage_ok steady (rs @ [r]) st"
proof (cases st)
  case (Have_newest p n)
  with assms selected_fresh [of p rs r] show ?thesis by auto
next
  case (Have_stamp p n t)
  with assms selected_fresh [of p rs r] show ?thesis by auto
qed (use assms in auto)

lemma world_okE:
  assumes "world_ok steady w"
  obtains h c where "history (store w) = Some h" and "clock (store w) = Some c"
    and "ordered steady (committed w) (store w)"
    and "rows (store w) = filter (\<lambda>r. r \<in> set (rows (store w))) (committed w)"
    and "committed w \<noteq> [] \<Longrightarrow> last (committed w) \<in> set (rows (store w))"
    and "\<And>r. r \<in> set (committed w) \<Longrightarrow> r \<notin> set (rows (store w)) \<Longrightarrow> covered steady h r"
    and "anchored steady (committed w) h"
    and "stage_ok steady (rows (store w)) (stage w)"
  using assms unfolding world_ok_def by blast

lemma world_okI:
  assumes "history (store w) = Some h" and "clock (store w) = Some c"
    and "ordered steady (committed w) (store w)"
    and "rows (store w) = filter (\<lambda>r. r \<in> set (rows (store w))) (committed w)"
    and "committed w \<noteq> [] \<Longrightarrow> last (committed w) \<in> set (rows (store w))"
    and "\<And>r. r \<in> set (committed w) \<Longrightarrow> r \<notin> set (rows (store w)) \<Longrightarrow> covered steady h r"
    and "anchored steady (committed w) h"
    and "stage_ok steady (rows (store w)) (stage w)"
  shows "world_ok steady w"
  using assms unfolding world_ok_def by blast

lemma world_ok_start:
  assumes "history db = Some \<lparr>pruned_seq = 0, pruned_t = 0, pruned_i = 0, legacy_baseline = False,
      baseline_seq = 0, baseline_t = bt, baseline_i = bi\<rparr>"
    and "clock db = Some c" and "rows db = []" and "1 \<le> next_seq db"
  shows "world_ok steady \<lparr>store = db, committed = [], stage = Idle\<rparr>"
  by (rule world_okI) (use assms in \<open>auto simp: ordered_def anchored_def\<close>)

lemma rows_committed: "world_ok steady w \<Longrightarrow> r \<in> set (rows (store w)) \<Longrightarrow> r \<in> set (committed w)"
  by (erule world_okE) (metis filter_is_subset subsetD)

lemma anchored_mono: "anchored steady evs h \<Longrightarrow> set evs \<subseteq> set evs' \<Longrightarrow> anchored steady evs' h"
  by (auto simp: anchored_def split: if_splits)

lemma write_ok:
  assumes ok: "world_ok steady w" and c: "clock (store w) = Some c"
    and now: "steady \<Longrightarrow> seconds c \<le> now"
    and db: "db = trigger id_object now ns ch (store w)"
  shows "world_ok steady (w\<lparr>store := db, committed := committed w @ [last (rows db)]\<rparr>)"
proof -
  from ok obtain h c' where h: "history (store w) = Some h" and c': "clock (store w) = Some c'"
    and ord: "ordered steady (committed w) (store w)"
    and sub: "rows (store w) = filter (\<lambda>r. r \<in> set (rows (store w))) (committed w)"
    and gone: "\<And>r. r \<in> set (committed w) \<Longrightarrow> r \<notin> set (rows (store w)) \<Longrightarrow> covered steady h r"
    and anch: "anchored steady (committed w) h"
    and st: "stage_ok steady (rows (store w)) (stage w)"
    by (rule world_okE) blast
  from trigger_append [OF c] obtain r where
    r: "db = (store w)\<lparr>clock := Some (tick now c), rows := rows (store w) @ [r],
          next_seq := next_seq (store w) + 1\<rparr>" "seq r = next_seq (store w)" "ts r = tick now c"
    unfolding db by blast
  have fresh: "seq x < seq r" if "x \<in> set (committed w)" for x
    using ord that r(2) by (auto simp: ordered_def)
  then have new: "r \<notin> set (committed w)" by blast
  have later: "ts x < ts r" if "x \<in> set (committed w)" steady for x
    using ord that c tick_later [OF now [OF that(2)]] r(3) by (auto simp: ordered_def intro: le_less_trans)
  have ord': "ordered steady (committed w @ [r]) db"
    using ord fresh later r c by (auto simp: ordered_def sorted_wrt_append less_Suc_eq
        intro: order.strict_implies_order dest: later)
  have rows': "rows db = filter (\<lambda>x. x \<in> set (rows db)) (committed w @ [r])"
  proof -
    have "filter (\<lambda>x. x \<in> set (rows (store w) @ [r])) (committed w) =
        filter (\<lambda>x. x \<in> set (rows (store w))) (committed w)"
      by (rule filter_cong) (use new in auto)
    then show ?thesis using r(1) sub by simp
  qed
  have st': "stage_ok steady (rows db) (stage w)"
    using stage_ok_snoc [OF st, of r] fresh rows_committed [OF ok] r(1) by simp
  have "last (rows db) = r" using r(1) by simp
  then show ?thesis
    using h ord' rows' gone anchored_mono [OF anch, of "committed w @ [r]"] st' r(1)
    unfolding world_ok_def by auto
qed


lemma gap_ok:
  "world_ok steady w \<Longrightarrow> world_ok steady (w\<lparr>store := (store w)\<lparr>next_seq := next_seq (store w) + k\<rparr>\<rparr>)"
  by (auto simp: world_ok_def ordered_def trans_less_add1)

lemma stage_change_ok:
  "world_ok steady w \<Longrightarrow> stage_ok steady (rows (store w)) st \<Longrightarrow> world_ok steady (w\<lparr>stage := st\<rparr>)"
  by (auto simp: world_ok_def)

lemma stamp_ok:
  assumes ok: "world_ok steady w" and st: "stage w = Have_newest p n"
    and t: "latest_selected p (store w) = Some t"
  shows "stage_ok steady (rows (store w)) (Have_stamp p n t)"
proof -
  from ok obtain h c where ord: "ordered steady (committed w) (store w)"
    and so: "stage_ok steady (rows (store w)) (stage w)" by (rule world_okE) blast
  from so st obtain r where r: "r \<in> set (rows (store w))" "selected p r" "seq r = n"
    and le: "\<forall>r \<in> set (rows (store w)). selected p r \<longrightarrow> seq r \<le> n"
    and hd: "plan_head p \<in> seq ` set (rows (store w))" by auto
  from latest_selected_Some [OF t] obtain x where x: "x \<in> set (rows (store w))" "selected p x" "ts x = t"
    and latest: "\<forall>r \<in> set (rows (store w)). selected p r \<longrightarrow> ts r \<le> t" by blast
  have "ts r = t" if steady
  proof (rule ccontr)
    assume "ts r \<noteq> t"
    with latest r have "ts r < ts x" unfolding x(3) by (simp add: order.strict_iff_order)
    then have "seq r < seq x"
      using ordered_seq(2) [OF ord _ _ that] rows_committed [OF ok] r(1) x(1) by blast
    with le x r(3) show False by auto
  qed
  with r le hd latest show ?thesis by auto
qed

lemma advance_history_seq: "pruned_seq (advance_history n t h) = max (pruned_seq h) n"
  by (simp add: advance_history_def Let_def)

lemma advance_history_ts: "pruned_ts (advance_history n t h) = max (pruned_ts h) t"
  by (cases t) (auto simp: advance_history_def pruned_ts_def Let_def max_def)

lemma advance_history_baseline:
  "legacy_baseline (advance_history n t h) = legacy_baseline h"
  "baseline_seq (advance_history n t h) = baseline_seq h"
  "baseline_ts (advance_history n t h) = baseline_ts h"
  by (simp_all add: advance_history_def baseline_ts_def Let_def)

lemmas advance_history_facts = advance_history_seq advance_history_ts advance_history_baseline

lemma advance_covers: "covered steady h r \<Longrightarrow> covered steady (advance_history n t h) r"
  by (auto simp: covered_def advance_history_facts le_max_iff_disj)

lemma pruned_ts_zero: "pruned_t h = 0 \<Longrightarrow> pruned_i h = 0 \<Longrightarrow> max (pruned_ts h) t = t"
  by (cases t) (auto simp: pruned_ts_def max_def)

lemma advance_anchored:
  assumes ord: "ordered steady evs db" and a: "anchored steady evs h"
    and r: "r \<in> set evs" "seq r = n" "n \<noteq> 0" "steady \<Longrightarrow> ts r = t"
  shows "anchored steady evs (advance_history n t h)"
proof -
  have "\<exists>p \<in> set evs. seq p = max (pruned_seq h) n \<and> (steady \<longrightarrow> ts p = max (pruned_ts h) t)"
  proof (cases "pruned_seq h = 0")
    case True
    with a have "max (pruned_ts h) t = t" by (intro pruned_ts_zero) (simp_all add: anchored_def)
    with True r show ?thesis by auto
  next
    case False
    with a obtain p where p: "p \<in> set evs" "seq p = pruned_seq h" "steady \<longrightarrow> ts p = pruned_ts h"
      by (auto simp: anchored_def)
    show ?thesis
    proof (cases "seq p < seq r")
      case True
      then have "steady \<Longrightarrow> ts p < ts r" using ordered_seq(2) [OF ord p(1) r(1)] by simp
      with True r p show ?thesis by (intro bexI [of _ r]) (auto simp: max_def)
    next
      case False
      then have "steady \<Longrightarrow> \<not> ts p < ts r" using ordered_seq(2) [OF ord p(1) r(1)] by simp
      with False r p show ?thesis by (intro bexI [of _ p]) (auto simp: max_def)
    qed
  qed
  moreover have "max (pruned_seq h) n \<noteq> 0" using r(3) by simp
  ultimately show ?thesis
    using a unfolding anchored_def advance_history_facts by (simp split: if_splits)
qed

lemma execute_ok:
  assumes ok: "world_ok steady w" and st: "stage w = Have_stamp p n t"
    and ex: "execute_prune p n t (store w) = Inr (k, db)"
  shows "world_ok steady (w\<lparr>store := db, stage := Idle\<rparr>)"
proof -
  from ok obtain h c where h: "history (store w) = Some h" and c: "clock (store w) = Some c"
    and ord: "ordered steady (committed w) (store w)"
    and sub: "rows (store w) = filter (\<lambda>r. r \<in> set (rows (store w))) (committed w)"
    and lst: "committed w \<noteq> [] \<Longrightarrow> last (committed w) \<in> set (rows (store w))"
    and gone: "\<And>r. r \<in> set (committed w) \<Longrightarrow> r \<notin> set (rows (store w)) \<Longrightarrow> covered steady h r"
    and anch: "anchored steady (committed w) h"
    and so: "stage_ok steady (rows (store w)) (stage w)"
    by (rule world_okE) blast
  from so st obtain r where r: "r \<in> set (rows (store w))" "selected p r" "seq r = n"
      "steady \<longrightarrow> ts r = t"
    and le: "\<forall>r \<in> set (rows (store w)). selected p r \<longrightarrow> seq r \<le> n \<and> ts r \<le> t"
    and hd: "plan_head p \<in> seq ` set (rows (store w))" by auto
  let ?kept = "filter (\<lambda>r. \<not> (seq r \<le> n \<and> selected p r)) (rows (store w))"
  have "length ?kept < length (rows (store w))"
    by (rule length_filter_less [of r]) (use r in auto)
  then have db: "db = (store w)\<lparr>rows := ?kept, history := Some (advance_history n t h)\<rparr>"
    using ex h c r(1-3) by (auto simp: execute_prune_def Let_def list_ex_iff split: if_splits)
  have rc: "r \<in> set (committed w)" using rows_committed [OF ok r(1)] .
  then have n: "n \<noteq> 0" using ord r(3) by (auto simp: ordered_def)
  have rows': "?kept = filter (\<lambda>r. r \<in> set ?kept) (committed w)"
  proof -
    have "?kept = filter (\<lambda>r. \<not> (seq r \<le> n \<and> selected p r))
        (filter (\<lambda>r. r \<in> set (rows (store w))) (committed w))" using sub by simp
    also have "\<dots> = filter (\<lambda>r. r \<in> set ?kept) (committed w)"
      by (simp only: filter_filter) (rule filter_cong [OF refl], auto)
    finally show ?thesis .
  qed
  have last': "last (committed w) \<in> set ?kept" if ne: "committed w \<noteq> []"
  proof -
    obtain x where x: "x \<in> set (rows (store w))" "seq x = plan_head p" using hd by auto
    then have "plan_head p \<le> seq (last (committed w))"
      using ordered_last [OF ord rows_committed [OF ok x(1)]] by simp
    then have "\<not> selected p (last (committed w))" by (simp add: selected_def)
    with lst [OF ne] show ?thesis by simp
  qed
  have gone': "covered steady (advance_history n t h) x"
    if x: "x \<in> set (committed w)" "x \<notin> set ?kept" for x
  proof (cases "x \<in> set (rows (store w))")
    case True
    with x have "seq x \<le> n" "ts x \<le> t" using le by auto
    with n show ?thesis by (auto simp: covered_def advance_history_facts le_max_iff_disj)
  next
    case False
    with gone x show ?thesis by (intro advance_covers) simp
  qed
  have "anchored steady (committed w) (advance_history n t h)"
    by (rule advance_anchored [OF ord anch rc r(3) n]) (use r(4) in simp)
  moreover have "ordered steady (committed w) db" using ord c by (simp add: db ordered_def)
  ultimately show ?thesis
    using c rows' last' gone' by (intro world_okI [of _ "advance_history n t h" c]) (simp_all add: db del: set_filter)
qed

lemma step_ok: "oplog_step steady id_object w w' \<Longrightarrow> world_ok steady w \<Longrightarrow> world_ok steady w'"
proof (induction rule: oplog_step.induct)
  case (step_write w c now db ns ch)
  then show ?case by (intro write_ok) auto
next
  case (step_gap w k)
  then show ?case by (rule gap_ok)
next
  case (step_head w max_rows max_age)
  then show ?case using head_in [of "store w"] by (intro stage_change_ok) auto
next
  case (step_plan w max_rows max_age head plan now)
  then have "stage_ok steady (rows (store w)) (stage w)" by (blast elim: world_okE)
  with step_plan show ?case by (intro stage_change_ok) auto
next
  case (step_newest w plan n)
  then have "stage_ok steady (rows (store w)) (stage w)" by (blast elim: world_okE)
  with step_newest newest_selected_Some [of plan "store w" n] show ?case
    by (intro stage_change_ok) auto
next
  case (step_stamp w plan n t)
  then show ?case by (intro stage_change_ok stamp_ok)
next
  case (step_execute w plan n t k db)
  then show ?case by (intro execute_ok)
next
  case (step_abort w)
  then show ?case by (intro stage_change_ok) auto
qed


lemma fresh_ok:
  "install_oplog_schema in_transaction None = Inr db \<Longrightarrow>
    world_ok steady \<lparr>store = db, committed = [], stage = Idle\<rparr>"
  by (auto simp: install_oplog_schema_def seed_history_def empty_store_def Let_def split: if_splits
      intro!: world_ok_start)

lemma seed_legacy:
  assumes leg: "legacy_tables steady evs db0" and c: "clock db0 = Some c" and ne: "evs \<noteq> []"
    and seed: "seed_history True db0 = Inr db"
  shows "world_ok steady \<lparr>store = db, committed = evs, stage = Idle\<rparr>"
proof -
  from leg obtain k where ord: "ordered steady evs db0" and k: "rows db0 = drop k evs"
    and r: "rows db0 \<noteq> []" and none: "history db0 = None"
    using ne by (auto simp: legacy_tables_def)
  from r obtain b rs where b: "rows db0 = b # rs" by (cases "rows db0") auto
  have split: "evs = take k evs @ b # rs" using k b by (metis append_take_drop_id)
  have so: "sorted_wrt (\<lambda>a b. seq a < seq b \<and> (steady \<longrightarrow> ts a < ts b)) evs"
    using ord by (simp add: ordered_def)
  then have so2: "sorted_wrt (\<lambda>a b. seq a < seq b \<and> (steady \<longrightarrow> ts a < ts b)) (take k evs @ b # rs)"
    using split by simp
  have "sorted_wrt (\<lambda>a b. seq a < seq b) (b # rs)"
    by (rule sorted_wrt_mono_rel [of _ "\<lambda>a b. seq a < seq b \<and> (steady \<longrightarrow> ts a < ts b)"])
      (use so2 in \<open>auto simp: sorted_wrt_append\<close>)
  then have "sort_key seq (rows db0) = b # rs" unfolding b by (rule sorted_key_id)
  then have old: "oldest_row db0 = Some b" by (simp add: oldest_row_def)
  let ?h = "\<lparr>pruned_seq = 0, pruned_t = 0, pruned_i = 0, legacy_baseline = 1 < seq b,
    baseline_seq = seq b - 1, baseline_t = seconds (ts b), baseline_i = increment (ts b)\<rparr>"
  have db: "db = db0\<lparr>history := Some ?h\<rparr>"
    using seed c r none old by (auto simp: seed_history_def Let_def split: if_splits)
  have bin: "b \<in> set evs" using split by (metis in_set_conv_decomp)
  then have b1: "1 \<le> seq b" using ord by (auto simp: ordered_def)
  have before: "seq x < seq b \<and> (steady \<longrightarrow> ts x < ts b)" if "x \<in> set (take k evs)" for x
    using so2 that by (auto simp: sorted_wrt_append)
  have gone: "covered steady ?h x" if x: "x \<in> set evs" "x \<notin> set (rows db0)" for x
  proof -
    have "x \<in> set (take k evs)" using x split b by (metis Un_iff set_append)
    from before [OF this] x(1) ord show ?thesis
      by (auto simp: covered_def baseline_ts_def ordered_def optime.expand)
  qed
  have dist: "x \<notin> set (b # rs)" if "x \<in> set (take k evs)" for x
    using so2 that by (auto simp: sorted_wrt_append)
  have rows: "rows db0 = filter (\<lambda>r. r \<in> set (rows db0)) evs"
  proof -
    have "filter (\<lambda>r. r \<in> set (b # rs)) (take k evs @ b # rs) = b # rs"
      using dist by (simp add: filter_empty_conv)
    then show ?thesis unfolding b using split by simp
  qed
  have "last evs \<in> set (rows db0)" using split b by (metis last_appendR last_in_set list.distinct(1))
  moreover have "anchored steady evs ?h"
    using bin b1 by (auto simp: anchored_def baseline_ts_def)
  moreover have "ordered steady evs db" using ord by (simp add: db ordered_def)
  ultimately show ?thesis
    using rows gone c by (intro world_okI [of _ ?h c]) (auto simp: db)
qed

lemma legacy_ok:
  assumes leg: "legacy_tables steady evs db0"
    and inst: "install_oplog_schema in_transaction (Some db0) = Inr db"
  shows "world_ok steady \<lparr>store = db, committed = evs, stage = Idle\<rparr>"
proof (cases "clock db0")
  case None
  with leg have e: "evs = []" "rows db0 = []" by (auto simp: legacy_tables_def ordered_def)
  with leg inst None show ?thesis
    by (auto simp: install_oplog_schema_def seed_history_def legacy_tables_def ordered_def
        oldest_row_def Let_def split: if_splits intro!: world_ok_start)
next
  case (Some c)
  with leg inst have seed: "seed_history True db0 = Inr db"
    by (auto simp: install_oplog_schema_def legacy_tables_def split: if_splits)
  show ?thesis
  proof (cases "evs = []")
    case True
    with leg have "rows db0 = []" by (auto simp: legacy_tables_def)
    with True leg seed Some show ?thesis
      by (auto simp: seed_history_def legacy_tables_def ordered_def oldest_row_def Let_def
          split: if_splits intro!: world_ok_start)
  next
    case False
    then show ?thesis by (rule seed_legacy [OF leg Some _ seed])
  qed
qed

lemma reachable_ok: "oplog_reachable steady id_object w \<Longrightarrow> world_ok steady w"
proof (induction rule: oplog_reachable.induct)
  case (start_fresh in_transaction db)
  then show ?case by (rule fresh_ok)
next
  case (start_legacy evs db0 in_transaction db)
  then show ?case by (rule legacy_ok)
next
  case (next_step w w')
  then show ?case by (blast intro: step_ok)
qed

section \<open>The history only grows\<close>

definition history_grows :: "world \<Rightarrow> world \<Rightarrow> bool" where
  "history_grows w w' \<longleftrightarrow> (\<forall>h. history (store w) = Some h \<longrightarrow>
     (\<exists>h'. history (store w') = Some h' \<and> pruned_seq h \<le> pruned_seq h' \<and> baseline_seq h' = baseline_seq h))"

lemma step_history_grows: "oplog_step steady id_object w w' \<Longrightarrow> history_grows w w'"
proof (induction rule: oplog_step.induct)
  case (step_write w c now db ns ch)
  with trigger_append [of "store w" c id_object now ns ch] show ?case
    by (auto simp: history_grows_def)
next
  case (step_execute w plan n t k db)
  then show ?case
    by (auto simp: history_grows_def execute_prune_def Let_def advance_history_facts
        split: if_splits option.splits)
qed (auto simp: history_grows_def)

lemma run_history_grows: "(oplog_step steady id_object)\<^sup>*\<^sup>* w w' \<Longrightarrow> history_grows w w'"
proof (induction rule: rtranclp_induct)
  case base
  show ?case by (simp add: history_grows_def)
next
  case (step w' w'')
  from step_history_grows [OF step(2)] step(3) show ?case
    by (fastforce simp: history_grows_def)
qed


section \<open>What a prune keeps\<close>

text \<open>The policy: the newest event, and what neither limit excludes.\<close>

definition retained :: "nat \<Rightarrow> nat \<Rightarrow> nat \<Rightarrow> oplog_row list \<Rightarrow> oplog_row \<Rightarrow> bool" where
  "retained max_rows max_age_seconds now rs r \<longleftrightarrow> r = last rs \<or>
     (max_age_seconds = 0 \<or> now \<le> seconds (ts r) + max_age_seconds)
     \<and> (max_rows = 0 \<or> r \<in> set (drop (length rs - max_rows) rs))"

abbreviation by_seq :: "oplog_row list \<Rightarrow> bool" where
  "by_seq \<equiv> sorted_wrt (\<lambda>a b. seq a < seq b)"

lemma sorted_wrt_filter_rel: "sorted_wrt P xs \<Longrightarrow> sorted_wrt P (filter Q xs)"
  by (induction xs) auto

lemma ordered_by_seq: "ordered steady evs db \<Longrightarrow> by_seq evs"
  unfolding ordered_def by (auto elim: sorted_wrt_mono_rel [rotated])

lemma rows_by_seq: "world_ok steady w \<Longrightarrow> by_seq (rows (store w))"
  by (erule world_okE) (metis ordered_by_seq sorted_wrt_filter_rel)

lemma by_seq_last: "by_seq rs \<Longrightarrow> r \<in> set rs \<Longrightarrow> seq r < seq (last rs) \<longleftrightarrow> r \<noteq> last rs"
  by (induction rs) auto

lemma by_seq_drop:
  assumes "by_seq rs" and "k < length rs" and "r \<in> set rs"
  shows "r \<in> set (drop k rs) \<longleftrightarrow> \<not> seq r < seq (rs ! k)"
  using assms
proof (induction rs arbitrary: k)
  case (Cons x rs)
  then show ?case
  proof (cases k)
    case 0
    with Cons.prems show ?thesis by auto
  next
    case (Suc j)
    with Cons.prems have "seq x < seq (rs ! j)" "x \<notin> set (drop j rs)" by (auto dest: in_set_dropD)
    with Cons Suc show ?thesis by auto
  qed
qed simp

lemma by_seq_head: "by_seq rs \<Longrightarrow> rs \<noteq> [] \<Longrightarrow> rows db = rs \<Longrightarrow> oplog_head db = seq (last rs)"
proof -
  assume rs: "by_seq rs" "rs \<noteq> []" "rows db = rs"
  have le: "seq (last rs) \<le> oplog_head db" using rs by (intro head_le) simp
  show "oplog_head db = seq (last rs)"
  proof (cases "oplog_head db = 0")
    case False
    then obtain r where r: "r \<in> set rs" "oplog_head db = seq r" using head_in [of db] rs(3) by auto
    with by_seq_last [OF rs(1) r(1)] le show ?thesis by (cases "r = last rs") auto
  qed (use le in simp)
qed

lemma row_condition_nth:
  "by_seq (rows db) \<Longrightarrow> row_condition n db =
    (if 0 < n \<and> n \<le> length (rows db) then Some (seq (rows db ! (length (rows db) - n))) else None)"
  by (auto simp: row_condition_def newest_first_def sorted_key_id rev_nth Suc_diff_le
      intro!: arg_cong [where f = seq] arg_cong [where f = "(!) (rows db)"])

lemma selected_iff:
  assumes s: "by_seq (rows db)" and r: "r \<in> set (rows db)"
    and plan: "plan = \<lparr>plan_head = oplog_head db, age_cut = age_condition max_age now,
      seq_cut = row_condition max_rows db\<rparr>"
  shows "selected plan r \<longleftrightarrow> \<not> retained max_rows max_age now (rows db) r"
proof -
  have hd: "seq r < oplog_head db \<longleftrightarrow> r \<noteq> last (rows db)"
    using by_seq_head [OF s _ refl] by_seq_last [OF s r] r by (cases "rows db = []") auto
  have age: "(case age_cut plan of Some c \<Rightarrow> seconds (ts r) < c | None \<Rightarrow> False) \<longleftrightarrow>
      \<not> (max_age = 0 \<or> now \<le> seconds (ts r) + max_age)"
    unfolding plan by (auto simp: age_condition_def)
  have rows: "(case seq_cut plan of Some c \<Rightarrow> seq r < c | None \<Rightarrow> False) \<longleftrightarrow>
      \<not> (max_rows = 0 \<or> r \<in> set (drop (length (rows db) - max_rows) (rows db)))"
    using by_seq_drop [OF s _ r, of "length (rows db) - max_rows"] length_pos_if_in_set [OF r] r
    unfolding plan by (cases "max_rows \<le> length (rows db)") (auto simp: row_condition_nth [OF s])
  show ?thesis using hd unfolding selected_def age rows by (auto simp: retained_def plan)
qed

lemma prune_result:
  assumes ok: "world_ok steady w" and n: "newest_selected plan (store w) = Some n"
    and t: "latest_selected plan (store w) = Some t"
  shows "\<exists>removed db. execute_prune plan n t (store w) = Inr (removed, db)
    \<and> rows db = filter (\<lambda>r. \<not> selected plan r) (rows (store w))
    \<and> removed + length (rows db) = length (rows (store w))"
proof -
  from ok obtain h c where h: "history (store w) = Some h" and c: "clock (store w) = Some c"
    by (rule world_okE) blast
  note top = newest_selected_Some [OF n]
  then have cand: "list_ex (\<lambda>r. seq r = n \<and> selected plan r) (rows (store w))"
    by (auto simp: list_ex_iff)
  have "filter (\<lambda>r. \<not> (seq r \<le> n \<and> selected plan r)) (rows (store w)) =
      filter (\<lambda>r. \<not> selected plan r) (rows (store w))"
    using top by (intro filter_cong) auto
  with cand h c show ?thesis by (simp add: execute_prune_def Let_def)
qed

text \<open>
  C34. A prune that no writer interrupts never fails and applies the policy exactly: what is left is
  the newest event and every event that neither the row limit nor the age limit excludes (gaps in
  the sequence are not counted as rows), in the order they had; the number returned is the number
  of rows removed.
\<close>

theorem prune_applies_policy:
  assumes "oplog_reachable steady id_object w"
  shows "\<exists>removed db. prune_oplog max_rows max_age now (\<lambda>_. store w) = Inr (removed, db)
    \<and> rows db = filter (retained max_rows max_age now (rows (store w))) (rows (store w))
    \<and> removed + length (rows db) = length (rows (store w))"
proof -
  have ok: "world_ok steady w" using assms by (rule reachable_ok)
  have s: "by_seq (rows (store w))" using ok by (rule rows_by_seq)
  define plan where "plan = \<lparr>plan_head = oplog_head (store w), age_cut = age_condition max_age now,
      seq_cut = row_condition max_rows (store w)\<rparr>"
  have sel: "selected plan r \<longleftrightarrow> \<not> retained max_rows max_age now (rows (store w)) r"
    if "r \<in> set (rows (store w))" for r
    using selected_iff [OF s that plan_def] .
  then have kept: "filter (\<lambda>r. \<not> selected plan r) (rows (store w)) =
      filter (retained max_rows max_age now (rows (store w))) (rows (store w))"
    by (intro filter_cong) auto
  show ?thesis
  proof (cases "newest_selected plan (store w)")
    case None
    then have "filter (selected plan) (rows (store w)) = []"
      by (auto simp: newest_selected_def newest_first_def split: list.splits)
        (metis length_0_conv length_sort)
    then have "filter (\<lambda>r. \<not> selected plan r) (rows (store w)) = rows (store w)"
      by (auto simp: filter_empty_conv)
    with None kept show ?thesis by (auto simp: prune_oplog_def plan_def [symmetric] Let_def)
  next
    case (Some n)
    then have some: "\<exists>r \<in> set (rows (store w)). selected plan r" by (auto dest: newest_selected_Some)
    then have hd: "oplog_head (store w) \<noteq> 0" by (auto simp: selected_def plan_def)
    have cut: "age_cut plan \<noteq> None \<or> seq_cut plan \<noteq> None" using some by (auto simp: selected_def)
    then have on: "max_rows \<noteq> 0 \<or> max_age \<noteq> 0"
      by (auto simp: plan_def age_condition_def row_condition_def split: if_splits)
    have "sort_key ts (filter (selected plan) (rows (store w))) \<noteq> []"
      using some by (metis filter_empty_conv length_0_conv length_sort)
    then obtain t where t: "latest_selected plan (store w) = Some t"
      by (cases "rev (sort_key ts (filter (selected plan) (rows (store w))))")
        (auto simp: latest_selected_def)
    from prune_result [OF ok Some t] Some t hd cut on kept show ?thesis
      by (auto simp: prune_oplog_def plan_def [symmetric] Let_def)
  qed
qed

section \<open>Small worlds\<close>

definition fresh_world :: world where
  "fresh_world = \<lparr>store = \<lparr>rows = [], next_seq = 1, clock = Some (Optime 0 0),
      history = Some \<lparr>pruned_seq = 0, pruned_t = 0, pruned_i = 0, legacy_baseline = False,
        baseline_seq = 0, baseline_t = 0, baseline_i = 0\<rparr>\<rparr>,
     committed = [], stage = Idle\<rparr>"

definition written :: "nat \<Rightarrow> string \<Rightarrow> change \<Rightarrow> world \<Rightarrow> world" where
  "written now ns ch w = (let db = trigger (\<lambda>s. s) now ns ch (store w)
     in w\<lparr>store := db, committed := committed w @ [last (rows db)]\<rparr>)"

lemma fresh_reachable: "oplog_reachable steady idf fresh_world"
  using start_fresh [of False "store fresh_world"]
  by (simp add: fresh_world_def install_oplog_schema_def seed_history_def empty_store_def Let_def)

lemma written_step:
  "clock (store w) = Some c \<Longrightarrow> (steady \<Longrightarrow> seconds c \<le> now) \<Longrightarrow>
    oplog_step steady (\<lambda>s. s) w (written now ns ch w)"
  unfolding written_def Let_def by (rule step_write) auto

text \<open>The whole of \<open>prune_oplog\<close>, when no writer comes in between, is a run of its statements.\<close>

lemma prune_run:
  assumes idle: "stage w = Idle"
    and prune: "prune_oplog max_rows max_age now (\<lambda>_. store w) = Inr (k, db)"
  shows "(oplog_step steady idf)\<^sup>*\<^sup>* w (w\<lparr>store := db\<rparr>)"
proof (cases "db = store w")
  case True
  then show ?thesis by simp
next
  case False
  define plan where "plan = \<lparr>plan_head = oplog_head (store w), age_cut = age_condition max_age now,
      seq_cut = row_condition max_rows (store w)\<rparr>"
  from prune False obtain n t where on: "max_rows \<noteq> 0 \<or> max_age \<noteq> 0"
    and head: "oplog_head (store w) \<noteq> 0" and cut: "\<not> (age_cut plan = None \<and> seq_cut plan = None)"
    and n: "newest_selected plan (store w) = Some n" and t: "latest_selected plan (store w) = Some t"
    and ex: "execute_prune plan n t (store w) = Inr (k, db)"
    by (auto simp: prune_oplog_def Let_def plan_def split: if_splits option.splits)
  let ?step = "oplog_step steady idf" and ?at = "\<lambda>s. w\<lparr>stage := s\<rparr>"
  let ?hd = "Have_head max_rows max_age (oplog_head (store w))"
  have "?step w (?at ?hd)" by (rule step_head [OF idle on head])
  moreover have "?step (?at ?hd) (?at (Have_plan plan))"
  proof -
    have "?step (?at ?hd) (?at ?hd\<lparr>stage :=
        if age_cut plan = None \<and> seq_cut plan = None then Idle else Have_plan plan\<rparr>)"
      by (rule step_plan [where now = now and max_rows = max_rows and max_age = max_age
          and head = "oplog_head (store w)"]) (simp_all add: plan_def)
    then show ?thesis using cut by auto
  qed
  moreover have "?step (?at (Have_plan plan)) (?at (Have_newest plan n))"
    using step_newest [of "?at (Have_plan plan)" plan n] n by simp
  moreover have "?step (?at (Have_newest plan n)) (?at (Have_stamp plan n t))"
    using step_stamp [of "?at (Have_newest plan n)" plan n t] t by simp
  moreover have "?step (?at (Have_stamp plan n t)) (w\<lparr>store := db\<rparr>)"
  proof -
    have "w\<lparr>store := db, stage := Idle\<rparr> = w\<lparr>store := db\<rparr>" using idle by (cases w) simp
    then show ?thesis using step_execute [of "?at (Have_stamp plan n t)" plan n t k db] ex by simp
  qed
  ultimately show ?thesis by (meson converse_rtranclp_into_rtranclp rtranclp.rtrancl_refl)
qed

text \<open>Three events, a second apart.\<close>

definition three_events :: world where
  "three_events = written 102 ''app.b'' (Deleted ''3'') (written 101 ''app.a'' (Updated ''2'')
     (written 100 ''app.a'' (Inserted ''1'') fresh_world))"

lemma three_events_store:
  "store three_events = \<lparr>rows = committed three_events, next_seq = 4, clock = Some (Optime 102 1),
     history = Some \<lparr>pruned_seq = 0, pruned_t = 0, pruned_i = 0, legacy_baseline = False,
        baseline_seq = 0, baseline_t = 0, baseline_i = 0\<rparr>\<rparr>"
  and three_events_committed: "committed three_events =
    [\<lparr>seq = 1, ts = Optime 100 1, op_kind = Op_insert, row_ns = ''app.a'', o_json = ''1'', o2_json = None\<rparr>,
     \<lparr>seq = 2, ts = Optime 101 1, op_kind = Op_update, row_ns = ''app.a'', o_json = ''2'', o2_json = Some ''2''\<rparr>,
     \<lparr>seq = 3, ts = Optime 102 1, op_kind = Op_delete, row_ns = ''app.b'', o_json = ''3'', o2_json = None\<rparr>]"
  and three_events_stage: "stage three_events = Idle"
  by (simp_all add: three_events_def written_def fresh_world_def oplog_append_def tick_def Let_def)

lemma three_events_reachable: "oplog_reachable steady (\<lambda>s. s) three_events"
  unfolding three_events_def
  by (intro next_step [OF _ written_step] fresh_reachable)
    (auto simp: written_def fresh_world_def oplog_append_def tick_def Let_def)

lemma three_events_retained:
  "filter (retained 2 0 0 (rows (store three_events))) (rows (store three_events)) =
    drop 1 (rows (store three_events))"
  by (simp add: three_events_store three_events_committed retained_def)

theorem prune_applies_policy_witness:
  "\<exists>removed db. prune_oplog 2 0 0 (\<lambda>_. store three_events) = Inr (removed, db)
    \<and> rows db = drop 1 (rows (store three_events))
    \<and> removed + length (rows db) = length (rows (store three_events))"
  using prune_applies_policy [OF three_events_reachable, of 2 0 0] unfolding three_events_retained .

end
