(* ===== verification/Double.thy ===== *)
theory Double
  imports Prelude
begin

text \<open>
  IEEE-754 binary64, the \<open>double\<close> of the code, as its 64 bits. The C++ sources copy the bits
  out with \<open>memcpy\<close> (src/chimera/translator/src/id.cpp), compare, add, truncate and convert
  from integers; each of these is defined here on the bits and related to the exact value.

  Every finite binary64 is an integer multiple of 2^-1074, so its value is kept as that
  integer (\<open>d_val\<close>); comparisons and integrality tests are then integer comparisons. Rounding
  is to nearest, ties to even, the default mode.
\<close>

unbundle bit_operations_syntax

section \<open>Bits\<close>

type_synonym double = "64 word"

definition d_neg :: "double \<Rightarrow> bool" where
  "d_neg d \<longleftrightarrow> 2 ^ 63 \<le> unat d"

text \<open>Exponent and fraction fields together: the low 63 bits as a number.\<close>

definition d_low :: "double \<Rightarrow> nat" where
  "d_low d = unat d mod 2 ^ 63"

definition mk_double :: "bool \<Rightarrow> nat \<Rightarrow> double" where
  "mk_double s m = word_of_nat (if s then 2 ^ 63 + m else m)"

abbreviation inf_low :: nat where
  "inf_low \<equiv> 2047 * 2 ^ 52"

definition d_nan :: "double \<Rightarrow> bool" where
  "d_nan d \<longleftrightarrow> inf_low < d_low d"

definition d_inf :: "double \<Rightarrow> bool" where
  "d_inf d \<longleftrightarrow> d_low d = inf_low"

definition d_finite :: "double \<Rightarrow> bool" where
  "d_finite d \<longleftrightarrow> d_low d < inf_low"

section \<open>Exact values\<close>

text \<open>
  The magnitude as a multiple of 2^-1074. On the two infinities this is 2^2098, above
  every finite magnitude, so that comparisons need no separate case for them.
\<close>

definition mag_of :: "nat \<Rightarrow> nat" where
  "mag_of m = (let e = m div 2 ^ 52; f = m mod 2 ^ 52
               in if e = 0 then f else (2 ^ 52 + f) * 2 ^ (e - 1))"

definition d_val :: "double \<Rightarrow> int" where
  "d_val d = (if d_neg d then - int (mag_of (d_low d)) else int (mag_of (d_low d)))"

definition d_eq :: "double \<Rightarrow> double \<Rightarrow> bool" where
  "d_eq a b \<longleftrightarrow> \<not> d_nan a \<and> \<not> d_nan b \<and> d_val a = d_val b"

definition d_less :: "double \<Rightarrow> double \<Rightarrow> bool" where
  "d_less a b \<longleftrightarrow> \<not> d_nan a \<and> \<not> d_nan b \<and> d_val a < d_val b"

text \<open>\<open>d == std::trunc(d)\<close> for a finite \<open>d\<close>.\<close>

definition d_integral :: "double \<Rightarrow> bool" where
  "d_integral d \<longleftrightarrow> 2 ^ 1074 dvd d_val d"

text \<open>\<open>std::trunc\<close>, as the integer it denotes: division of the magnitude.\<close>

definition d_trunc :: "double \<Rightarrow> int" where
  "d_trunc d = (let q = int (mag_of (d_low d) div 2 ^ 1074) in if d_neg d then - q else q)"

text \<open>
  \<open>static_cast<int64_t>(d)\<close>: truncation; the cast of a NaN, an infinity or a value whose
  truncation does not fit is undefined (None).
\<close>

definition d_to_int64 :: "double \<Rightarrow> 64 word option" where
  "d_to_int64 d =
     (if d_finite d \<and> - (2 ^ 63) \<le> d_trunc d \<and> d_trunc d < 2 ^ 63
      then Some (word_of_int (d_trunc d)) else None)"

section \<open>Rounding\<close>

fun bitlen :: "nat \<Rightarrow> nat" where
  "bitlen n = (if n = 0 then 0 else Suc (bitlen (n div 2)))"

declare bitlen.simps [simp del]

definition round_half_even :: "nat \<Rightarrow> nat \<Rightarrow> nat" where
  "round_half_even n s =
     (let q = n div 2 ^ s; r = n mod 2 ^ s
      in if 2 ^ s < 2 * r \<or> (2 ^ s = 2 * r \<and> odd q) then q + 1 else q)"

text \<open>The exponent and fraction fields of the double nearest to \<open>n * 2 ^ k\<close> units of 2^-1074.\<close>

definition round_low :: "nat \<Rightarrow> nat \<Rightarrow> nat" where
  "round_low n k =
     (let l = bitlen n;
          m = (if n = 0 then 0
               else if l + k \<le> 53 then n * 2 ^ k
               else if l \<le> 53 then (l + k - 53) * 2 ^ 52 + n * 2 ^ (53 - l)
               else (l + k - 53) * 2 ^ 52 + round_half_even n (l - 53))
      in min m inf_low)"

text \<open>\<open>static_cast<double>\<close> of a 32- or 64-bit signed integer.\<close>

definition d_of_int :: "int \<Rightarrow> double" where
  "d_of_int i = mk_double (i < 0) (round_low (nat \<bar>i\<bar>) 1074)"

text \<open>Significand and shift: the magnitude is \<open>d_sig d * 2 ^ d_shift d\<close>.\<close>

definition d_sig :: "double \<Rightarrow> int" where
  "d_sig d = (let e = d_low d div 2 ^ 52; f = d_low d mod 2 ^ 52; s = (if e = 0 then f else 2 ^ 52 + f)
              in if d_neg d then - int s else int s)"

definition d_shift :: "double \<Rightarrow> nat" where
  "d_shift d = d_low d div 2 ^ 52 - 1"

definition quiet_nan :: double where
  "quiet_nan = 0x7FF8000000000000"

text \<open>
  Addition. The sum of two zeros of the same sign keeps it, any other exact zero is +0;
  which NaN comes back is left open by IEEE-754, and the default one is taken.
\<close>

definition d_add :: "double \<Rightarrow> double \<Rightarrow> double" where
  "d_add a b =
     (if d_nan a \<or> d_nan b then quiet_nan
      else if d_inf a \<and> d_inf b then (if d_neg a = d_neg b then a else quiet_nan)
      else if d_inf a then a
      else if d_inf b then b
      else (let k = min (d_shift a) (d_shift b);
                s = d_sig a * 2 ^ (d_shift a - k) + d_sig b * 2 ^ (d_shift b - k)
            in if s = 0 then mk_double (d_neg a \<and> d_neg b) 0
               else mk_double (s < 0) (round_low (nat \<bar>s\<bar>) k)))"

section \<open>Fields and values\<close>

lemma unat_split: "unat d = (if d_neg d then 2 ^ 63 else 0) + d_low d" for d :: double
proof -
  have "unat d < 2 ^ 64" using unsigned_less [of d] by simp
  then show ?thesis by (auto simp: d_neg_def d_low_def mod_if le_mod_geq)
qed

lemma d_low_bound: "d_low d < 2 ^ 63"
  by (simp add: d_low_def)

lemmas d_low_bound' [simp] = d_low_bound [simplified]

lemma unat_mk_double: "m < 2 ^ 63 \<Longrightarrow> unat (mk_double s m) = (if s then 2 ^ 63 + m else m)"
  by (simp add: mk_double_def unat_of_nat)

lemma d_neg_mk [simp]: "m < 2 ^ 63 \<Longrightarrow> d_neg (mk_double s m) = s"
  by (simp add: d_neg_def unat_mk_double)

lemma d_low_mk [simp]: "m < 2 ^ 63 \<Longrightarrow> d_low (mk_double s m) = m"
  by (simp add: d_low_def unat_mk_double)

lemma mk_double_fields: "mk_double (d_neg d) (d_low d) = d"
proof -
  have "unat (mk_double (d_neg d) (d_low d)) = unat d"
    by (subst unat_mk_double) (simp_all add: unat_split [of d])
  then show ?thesis by (simp add: word_unat_eq_iff)
qed

lemma double_eqI: "d_neg a = d_neg b \<Longrightarrow> d_low a = d_low b \<Longrightarrow> a = b"
proof -
  assume "d_neg a = d_neg b" "d_low a = d_low b"
  then have "mk_double (d_neg a) (d_low a) = mk_double (d_neg b) (d_low b)" by simp
  then show "a = b" by (simp only: mk_double_fields)
qed

lemma mag_step:
  fixes P m :: nat
  defines "e \<equiv> m div P" and "f \<equiv> m mod P"
  assumes P: "0 < P"
  shows "(if e = 0 then f else (P + f) * 2 ^ (e - 1))
       < (if Suc m div P = 0 then Suc m mod P else (P + Suc m mod P) * 2 ^ (Suc m div P - 1))"
proof (cases "Suc f = P")
  case False
  then have "Suc m mod P = Suc f" "Suc m div P = e"
    by (auto simp: e_def f_def mod_Suc div_Suc)
  then show ?thesis by simp
next
  case True
  then have s: "Suc m mod P = 0" "Suc m div P = Suc e"
    by (auto simp: e_def f_def mod_Suc div_Suc)
  have "(P + f) * 2 ^ (e - 1) < P * 2 ^ e" if "e \<noteq> 0"
  proof -
    have "(P + f) * 2 ^ (e - 1) < (2 * P) * 2 ^ (e - 1)"
      using True by (intro mult_strict_right_mono) auto
    also have "\<dots> = P * 2 ^ e" using that by (cases e) auto
    finally show ?thesis .
  qed
  with s True show ?thesis by simp
qed

lemma mag_of_Suc: "mag_of m < mag_of (Suc m)"
  using mag_step [of "2 ^ 52" m] by (simp only: mag_of_def Let_def) simp

lemma mag_of_strict_mono: "strict_mono mag_of"
  by (simp add: strict_mono_Suc_iff mag_of_Suc)

lemma mag_of_less_iff [simp]: "mag_of m < mag_of n \<longleftrightarrow> m < n"
  by (rule strict_mono_less [OF mag_of_strict_mono])

lemma mag_of_eq_iff [simp]: "mag_of m = mag_of n \<longleftrightarrow> m = n"
  by (rule strict_mono_eq [OF mag_of_strict_mono])

lemma mag_of_0 [simp]: "mag_of 0 = 0"
  by (simp add: mag_of_def)

lemma mag_of_pos_iff [simp]: "0 < mag_of m \<longleftrightarrow> 0 < m"
  using mag_of_less_iff [of 0 m] by simp

lemma mag_of_eq_0_iff [simp]: "mag_of m = 0 \<longleftrightarrow> m = 0"
  using mag_of_eq_iff [of m 0] by simp

text \<open>The key of a double: its fields, signed. Comparing keys is comparing values.\<close>

definition d_key :: "double \<Rightarrow> int" where
  "d_key d = (if d_neg d then - int (d_low d) else int (d_low d))"

lemma d_val_less_iff: "d_val a < d_val b \<longleftrightarrow> d_key a < d_key b"
proof -
  have "int (mag_of (d_low a)) < int (mag_of (d_low b)) \<longleftrightarrow> int (d_low a) < int (d_low b)"
    and "int (mag_of (d_low b)) < int (mag_of (d_low a)) \<longleftrightarrow> int (d_low b) < int (d_low a)"
    by simp_all
  moreover have "- int x < int y \<longleftrightarrow> 0 < x \<or> 0 < y" "int x < - int y \<longleftrightarrow> False" for x y
    by auto
  ultimately show ?thesis unfolding d_val_def d_key_def by simp
qed

lemma d_val_eq_iff: "d_val a = d_val b \<longleftrightarrow> d_key a = d_key b"
  unfolding linorder_not_less [symmetric] order.eq_iff [of "d_val a"] order.eq_iff [of "d_key a"]
  by (simp add: d_val_less_iff)

lemma d_eq_key [code]: "d_eq a b \<longleftrightarrow> \<not> d_nan a \<and> \<not> d_nan b \<and> d_key a = d_key b"
  by (simp add: d_eq_def d_val_eq_iff)

lemma d_less_key [code]: "d_less a b \<longleftrightarrow> \<not> d_nan a \<and> \<not> d_nan b \<and> d_key a < d_key b"
  by (simp add: d_less_def d_val_less_iff)

lemma d_less_irrefl [simp]: "\<not> d_less a a"
  by (simp add: d_less_def)

lemma d_less_trans: "d_less a b \<Longrightarrow> d_less b c \<Longrightarrow> d_less a c"
  by (auto simp: d_less_def)

lemma d_less_linear: "\<not> d_nan a \<Longrightarrow> \<not> d_nan b \<Longrightarrow> d_less a b \<or> d_eq a b \<or> d_less b a"
  by (auto simp: d_less_def d_eq_def)

text \<open>Equal values have equal bits, but for the two zeros.\<close>

lemma d_val_bits: "d_val a = d_val b \<Longrightarrow> d_val a \<noteq> 0 \<Longrightarrow> a = b"
proof -
  assume *: "d_val a = d_val b" "d_val a \<noteq> 0"
  then have "d_key a = d_key b" by (simp add: d_val_eq_iff)
  moreover have "d_low a \<noteq> 0" using *(2) by (auto simp: d_val_def split: if_splits)
  ultimately have "d_neg a = d_neg b" "d_low a = d_low b"
    by (auto simp: d_key_def split: if_splits)
  then show ?thesis by (rule double_eqI)
qed

lemma d_val_sig: "d_val d = d_sig d * 2 ^ d_shift d"
  by (simp add: d_val_def d_sig_def d_shift_def mag_of_def Let_def)

lemma dvd_shift:
  fixes a :: int
  shows "2 ^ n dvd a * 2 ^ s \<longleftrightarrow> (if n \<le> s then True else 2 ^ (n - s) dvd a)"
proof (cases "n \<le> s")
  case True
  then show ?thesis by (simp add: dvd_mult le_imp_power_dvd)
next
  case False
  then have "(2::int) ^ n = 2 ^ (n - s) * 2 ^ s" by (simp flip: power_add)
  with False show ?thesis by simp
qed

lemma div_shift:
  fixes a :: int
  shows "a * 2 ^ s div 2 ^ n = (if n \<le> s then a * 2 ^ (s - n) else a div 2 ^ (n - s))"
proof (cases "n \<le> s")
  case True
  then have "(2::int) ^ s = 2 ^ (s - n) * 2 ^ n" by (simp flip: power_add)
  with True show ?thesis by (simp flip: mult.assoc)
next
  case False
  then have "(2::int) ^ n = 2 ^ (n - s) * 2 ^ s" by (simp flip: power_add)
  with False show ?thesis by simp
qed

lemma d_integral_code [code]:
  "d_integral d \<longleftrightarrow> (if 1074 \<le> d_shift d then True else 2 ^ (1074 - d_shift d) dvd d_sig d)"
  unfolding d_integral_def d_val_sig by (rule dvd_shift)

lemma int_mag_low: "int (mag_of (d_low d)) = \<bar>d_val d\<bar>"
  by (simp add: d_val_def)

lemma d_trunc_code [code]:
  "d_trunc d = (let s = \<bar>d_sig d\<bar>;
                    q = (if 1074 \<le> d_shift d then s * 2 ^ (d_shift d - 1074)
                         else s div 2 ^ (1074 - d_shift d))
                in if d_neg d then - q else q)"
proof -
  have "int (mag_of (d_low d) div 2 ^ 1074) = \<bar>d_sig d\<bar> * 2 ^ d_shift d div 2 ^ 1074"
    unfolding zdiv_int int_mag_low d_val_sig abs_mult of_nat_power by (simp only: power_abs) simp
  then show ?thesis unfolding d_trunc_def Let_def div_shift by (simp only: )
qed

text \<open>An integral double in range casts to the integer it denotes.\<close>

lemma d_trunc_integral: "d_integral d \<Longrightarrow> d_trunc d * 2 ^ 1074 = d_val d"
proof -
  assume "d_integral d"
  then have "2 ^ 1074 dvd \<bar>d_val d\<bar>"
    unfolding d_integral_def by (simp only: dvd_abs_iff)
  then have "2 ^ 1074 dvd int (mag_of (d_low d))" by (simp only: int_mag_low)
  then have "int (mag_of (d_low d)) div 2 ^ 1074 * 2 ^ 1074 = int (mag_of (d_low d))"
    by (rule dvd_div_mult_self)
  then show ?thesis
    unfolding d_trunc_def d_val_def Let_def zdiv_int of_nat_power of_nat_numeral
    by (simp only: minus_mult_left [symmetric] split: if_splits) simp
qed

section \<open>Rounding is exact where it can be\<close>

lemma bitlen_0 [simp]: "bitlen 0 = 0"
  by (simp add: bitlen.simps)

lemma bitlen_eq_0_iff [simp]: "bitlen n = 0 \<longleftrightarrow> n = 0"
  by (subst bitlen.simps) simp

lemma bitlen_bounds: "0 < n \<Longrightarrow> 2 ^ (bitlen n - 1) \<le> n \<and> n < 2 ^ bitlen n"
proof (induction n rule: bitlen.induct)
  case (1 n)
  show ?case
  proof (cases "n div 2 = 0")
    case True
    with 1 have "n = 1" by simp
    then show ?thesis by (simp add: bitlen.simps)
  next
    case False
    with 1 have *: "2 ^ (bitlen (n div 2) - 1) \<le> n div 2 \<and> n div 2 < 2 ^ bitlen (n div 2)" by simp
    have "bitlen n = Suc (bitlen (n div 2))" using 1 by (simp add: bitlen.simps [of n])
    with * False show ?thesis
      by (cases "bitlen (n div 2)") (auto simp: div_greater_zero_iff)
  qed
qed

lemma bitlen_le: "n < 2 ^ k \<Longrightarrow> bitlen n \<le> k"
proof (rule ccontr)
  assume "n < 2 ^ k" and "\<not> bitlen n \<le> k"
  then have "0 < n" and le: "(2::nat) ^ k \<le> 2 ^ (bitlen n - 1)" by (auto intro: ccontr)
  from \<open>0 < n\<close> have "2 ^ (bitlen n - 1) \<le> n" using bitlen_bounds by blast
  with le \<open>n < 2 ^ k\<close> show False by linarith
qed

lemma bitlen_double: "0 < n \<Longrightarrow> bitlen (n * 2) = Suc (bitlen n)"
  by (subst bitlen.simps) simp

lemma bitlen_shift: "0 < n \<Longrightarrow> bitlen (n * 2 ^ t) = bitlen n + t"
proof (induction t)
  case 0
  then show ?case by simp
next
  case (Suc t)
  then have "bitlen ((n * 2 ^ t) * 2) = Suc (bitlen n + t)" by (subst bitlen_double) auto
  then show ?case by (simp add: algebra_simps)
qed

lemma round_half_even_dvd: "round_half_even (n * 2 ^ s) s = n"
  by (simp add: round_half_even_def Let_def)

lemma round_half_even_shift: "round_half_even (n * 2 ^ t) (s + t) = round_half_even n s"
proof -
  have "n * 2 ^ t div 2 ^ (s + t) = n div 2 ^ s" by (simp add: power_add)
  moreover have "n * 2 ^ t mod 2 ^ (s + t) = (n mod 2 ^ s) * 2 ^ t"
    by (simp add: power_add mult_mod_left)
  moreover have "2 ^ (s + t) < 2 * ((n mod 2 ^ s) * 2 ^ t) \<longleftrightarrow> 2 ^ s < 2 * (n mod 2 ^ s)"
    by (simp add: power_add flip: mult.assoc)
  moreover have "2 ^ (s + t) = 2 * ((n mod 2 ^ s) * 2 ^ t) \<longleftrightarrow> 2 ^ s = 2 * (n mod 2 ^ s)"
    by (simp add: power_add flip: mult.assoc)
  ultimately show ?thesis by (simp add: round_half_even_def Let_def)
qed

text \<open>Only the product \<open>n * 2 ^ k\<close> matters, not how it is split.\<close>

lemma round_low_shift: "round_low (n * 2 ^ t) k = round_low n (k + t)"
proof (cases "n = 0")
  case True
  then show ?thesis by (simp add: round_low_def)
next
  case False
  then have l: "bitlen (n * 2 ^ t) = bitlen n + t" by (simp add: bitlen_shift)
  have e: "bitlen n + t + k = bitlen n + (k + t)" by simp
  consider "bitlen n + (k + t) \<le> 53" | "\<not> bitlen n + (k + t) \<le> 53" "bitlen n + t \<le> 53"
    | "\<not> bitlen n + t \<le> 53" "bitlen n \<le> 53" | "\<not> bitlen n \<le> 53" by linarith
  then show ?thesis
  proof cases
    case 1
    have "n * 2 ^ t * 2 ^ k = n * 2 ^ (k + t)" by (simp add: power_add)
    with 1 False show ?thesis by (simp only: round_low_def l e Let_def if_True simp_thms) simp
  next
    case 2
    then have "n * 2 ^ t * 2 ^ (53 - (bitlen n + t)) = n * 2 ^ (53 - bitlen n)"
      by (simp add: mult.assoc flip: power_add)
    with 2 False show ?thesis by (simp only: round_low_def l e Let_def if_True if_False simp_thms) simp
  next
    case 3
    then have "n * 2 ^ t = (n * 2 ^ (53 - bitlen n)) * 2 ^ (bitlen n + t - 53)"
      by (simp add: mult.assoc flip: power_add)
    then have "round_half_even (n * 2 ^ t) (bitlen n + t - 53) = n * 2 ^ (53 - bitlen n)"
      by (simp only: round_half_even_dvd)
    with 3 False show ?thesis
      by (simp only: round_low_def l e Let_def if_True if_False simp_thms) simp
  next
    case 4
    then have "bitlen n + t - 53 = bitlen n - 53 + t" by simp
    then have "round_half_even (n * 2 ^ t) (bitlen n + t - 53) = round_half_even n (bitlen n - 53)"
      by (simp only: round_half_even_shift)
    with 4 False show ?thesis
      by (simp only: round_low_def l e Let_def if_True if_False simp_thms) simp
  qed
qed

lemma mag_of_fields:
  fixes f e :: nat
  assumes f: "f < 2 ^ 52"
  shows "mag_of (Suc e * 2 ^ 52 + f) = (2 ^ 52 + f) * 2 ^ e"
proof -
  have "(a * P + f) div P = a" "(a * P + f) mod P = f" if "f < P" for a P :: nat
    using that by auto
  from this [OF f] show ?thesis by (simp only: mag_of_def Let_def) simp
qed

text \<open>A magnitude of at most 53 significant bits, below the largest exponent, is kept exactly.\<close>

lemma mag_of_round_low:
  assumes n: "n < 2 ^ 53" and k: "bitlen n + k < 2099"
  shows "mag_of (round_low n k) = n * 2 ^ k" and "round_low n k < inf_low"
proof -
  have "mag_of (round_low n k) = n * 2 ^ k \<and> round_low n k < inf_low"
  proof (cases "n = 0 \<or> bitlen n + k \<le> 53")
    case True
    have small: "n * 2 ^ k < 2 ^ 53"
    proof (cases "n = 0")
      case False
      with True bitlen_bounds [of n] have "n * 2 ^ k < 2 ^ bitlen n * 2 ^ k" by simp
      also have "\<dots> = 2 ^ (bitlen n + k)" by (simp add: power_add)
      also have "\<dots> \<le> 2 ^ 53" using True False by (intro power_increasing) auto
      finally show ?thesis .
    qed simp
    then have "round_low n k = n * 2 ^ k" using True by (auto simp: round_low_def Let_def)
    moreover have "mag_of m = m" if "m < 2 ^ 53" for m
    proof (cases "m < 2 ^ 52")
      case True
      then show ?thesis by (simp add: mag_of_def Let_def)
    next
      case False
      with that show ?thesis using mag_of_fields [of "m - 2 ^ 52" 0] by simp
    qed
    ultimately show ?thesis using small by simp
  next
    case False
    define l where "l = bitlen n"
    define q where "q = n * 2 ^ (53 - l)"
    have l: "l \<le> 53" using bitlen_le [OF n] by (simp add: l_def)
    have l0: "0 < l" using False bitlen_eq_0_iff [of n] by (simp add: l_def del: bitlen_eq_0_iff)
    have b: "2 ^ (l - 1) \<le> n" "n < 2 ^ l" using bitlen_bounds [of n] False by (simp_all add: l_def)
    have "2 ^ (l - 1) * 2 ^ (53 - l) \<le> q" using b by (simp add: q_def)
    then have q1: "2 ^ 52 \<le> q" using l l0 by (simp flip: power_add)
    have "q < 2 ^ l * 2 ^ (53 - l)" using b by (simp add: q_def)
    then have q2: "q < 2 ^ 53" using l by (simp flip: power_add)
    define f where "f = q - 2 ^ 52"
    define e where "e = l + k - 53"
    have qf: "q = 2 ^ 52 + f" and f: "f < 2 ^ 52" using q1 q2 by (simp_all add: f_def)
    have low: "e * 2 ^ 52 + q = Suc e * 2 ^ 52 + f" using qf by simp
    have e: "e \<le> 2045" using k by (simp add: e_def l_def)
    have lt: "Suc e * 2 ^ 52 + f < inf_low"
    proof -
      have "Suc e * 2 ^ 52 + f < Suc (Suc e) * 2 ^ 52" using f by simp
      also have "\<dots> \<le> 2047 * 2 ^ 52" using e by (intro mult_right_mono) auto
      finally show ?thesis .
    qed
    have "round_low n k = min (e * 2 ^ 52 + q) inf_low"
      using False l by (simp add: round_low_def Let_def l_def e_def q_def)
    with low lt have r: "round_low n k = Suc e * 2 ^ 52 + f" by simp
    have "mag_of (round_low n k) = q * 2 ^ e" unfolding r qf by (rule mag_of_fields [OF f])
    also have "\<dots> = n * 2 ^ k"
      using l False by (simp add: q_def e_def l_def mult.assoc flip: power_add)
    finally show ?thesis using lt by (simp only: r simp_thms)
  qed
  then show "mag_of (round_low n k) = n * 2 ^ k" and "round_low n k < inf_low" by simp_all
qed

section \<open>Integers as doubles\<close>

lemma round_low_le: "round_low n k \<le> inf_low"
  by (simp add: round_low_def Let_def)

lemma round_low_bound [simp]: "round_low n k < 9223372036854775808"
  using round_low_le [of n k] by simp

lemma round_low_0 [simp]: "round_low 0 k = 0"
  by (simp add: round_low_def Let_def)

lemma d_of_int_0: "d_of_int 0 = mk_double False 0"
  by (simp add: d_of_int_def)

lemma d_neg_of_int [simp]: "d_neg (d_of_int i) \<longleftrightarrow> i < 0"
  by (simp add: d_of_int_def)

lemma d_low_of_int: "d_low (d_of_int i) = round_low (nat \<bar>i\<bar>) 1074"
  by (simp add: d_of_int_def)

lemma d_not_nan_of_int [simp]: "\<not> d_nan (d_of_int i)"
  using round_low_le [of "nat \<bar>i\<bar>" 1074] by (simp add: d_nan_def d_low_of_int)

text \<open>The integers a double holds exactly: those below 2^53 in magnitude.\<close>

definition safe_int :: "int \<Rightarrow> bool" where
  "safe_int i \<longleftrightarrow> \<bar>i\<bar> < 2 ^ 53"

lemma safe_int_low:
  assumes "safe_int i"
  shows "mag_of (round_low (nat \<bar>i\<bar>) 1074) = nat \<bar>i\<bar> * 2 ^ 1074"
    and "round_low (nat \<bar>i\<bar>) 1074 < inf_low"
proof -
  have n: "nat \<bar>i\<bar> < 2 ^ 53" using assms by (simp add: safe_int_def nat_less_iff)
  then have "bitlen (nat \<bar>i\<bar>) + 1074 < 2099" using bitlen_le [OF n] by simp
  from mag_of_round_low [OF n this] show
    "mag_of (round_low (nat \<bar>i\<bar>) 1074) = nat \<bar>i\<bar> * 2 ^ 1074" and
    "round_low (nat \<bar>i\<bar>) 1074 < inf_low" .
qed

lemma d_val_of_int: "safe_int i \<Longrightarrow> d_val (d_of_int i) = i * 2 ^ 1074"
  unfolding d_val_def d_low_of_int d_neg_of_int
  by (simp only: safe_int_low of_nat_mult of_nat_power of_nat_numeral int_nat_eq split: if_splits) simp

lemma d_finite_of_int: "safe_int i \<Longrightarrow> d_finite (d_of_int i)"
  unfolding d_finite_def d_low_of_int by (rule safe_int_low)

lemma d_eq_of_int [simp]:
  "safe_int i \<Longrightarrow> safe_int j \<Longrightarrow> d_eq (d_of_int i) (d_of_int j) \<longleftrightarrow> i = j"
  by (simp only: d_eq_def d_val_of_int d_not_nan_of_int) simp

lemma d_less_of_int [simp]:
  "safe_int i \<Longrightarrow> safe_int j \<Longrightarrow> d_less (d_of_int i) (d_of_int j) \<longleftrightarrow> i < j"
  by (simp only: d_less_def d_val_of_int d_not_nan_of_int) simp

lemma d_trunc_of_int: "safe_int i \<Longrightarrow> d_trunc (d_of_int i) = i"
proof -
  assume i: "safe_int i"
  then have "d_integral (d_of_int i)"
    by (simp only: d_integral_def d_val_of_int dvd_triv_right)
  from d_trunc_integral [OF this] have "d_trunc (d_of_int i) * 2 ^ 1074 = i * 2 ^ 1074"
    by (simp only: d_val_of_int [OF i])
  then show ?thesis by simp
qed

lemma d_to_int64_of_int: "safe_int i \<Longrightarrow> d_to_int64 (d_of_int i) = Some (word_of_int i)"
  by (simp add: d_to_int64_def d_finite_of_int d_trunc_of_int) (auto simp: safe_int_def)

text \<open>
  Adding two exactly held integers gives the double nearest to their sum: the sum itself
  while it is exactly held, the correctly rounded value beyond.
\<close>

lemma d_shift_of_int: "safe_int i \<Longrightarrow> d_shift (d_of_int i) \<le> 1074"
proof (rule ccontr)
  assume i: "safe_int i" and "\<not> d_shift (d_of_int i) \<le> 1074"
  then have "Suc 1075 * 2 ^ 52 \<le> round_low (nat \<bar>i\<bar>) 1074"
    by (simp add: d_shift_def d_low_of_int)
  then have "mag_of (Suc 1075 * 2 ^ 52 + 0) \<le> mag_of (round_low (nat \<bar>i\<bar>) 1074)"
    by (simp only: strict_mono_less_eq [OF mag_of_strict_mono])
  then have "2 ^ 52 * 2 ^ 1075 \<le> mag_of (round_low (nat \<bar>i\<bar>) 1074)"
    by (subst (asm) mag_of_fields) (simp_all only: add_0_right zero_less_power zero_less_numeral)
  also have "\<dots> = nat \<bar>i\<bar> * 2 ^ 1074" using i by (rule safe_int_low)
  also have "\<dots> < 2 ^ 53 * 2 ^ 1074"
    using i by (intro mult_strict_right_mono) (simp_all add: safe_int_def nat_less_iff)
  finally show False by (simp flip: power_add)
qed

lemma d_sig_of_int:
  assumes "safe_int i" and "k \<le> d_shift (d_of_int i)"
  shows "d_sig (d_of_int i) * 2 ^ (d_shift (d_of_int i) - k) = i * 2 ^ (1074 - k)"
proof -
  let ?s = "d_shift (d_of_int i)"
  have "k \<le> 1074" using assms d_shift_of_int [of i] by simp
  then have r: "(2::int) ^ 1074 = 2 ^ (1074 - k) * 2 ^ k" by (simp flip: power_add)
  have l: "(2::int) ^ ?s = 2 ^ (?s - k) * 2 ^ k" using assms(2) by (simp flip: power_add)
  have "d_sig (d_of_int i) * 2 ^ ?s = i * 2 ^ 1074"
    using d_val_of_int [OF assms(1)] by (simp only: d_val_sig)
  then have "(d_sig (d_of_int i) * 2 ^ (?s - k)) * 2 ^ k = (i * 2 ^ (1074 - k)) * 2 ^ k"
    by (simp only: l r mult.assoc)
  then show ?thesis by (simp only: mult_cancel_right) simp
qed

lemma d_not_inf_of_int: "safe_int i \<Longrightarrow> \<not> d_inf (d_of_int i)"
  using d_finite_of_int [of i] by (simp add: d_finite_def d_inf_def)

lemma d_add_of_int:
  assumes i: "safe_int i" and j: "safe_int j"
  shows "d_add (d_of_int i) (d_of_int j) = d_of_int (i + j)"
proof -
  define k where "k = min (d_shift (d_of_int i)) (d_shift (d_of_int j))"
  define s where "s = d_sig (d_of_int i) * 2 ^ (d_shift (d_of_int i) - k)
    + d_sig (d_of_int j) * 2 ^ (d_shift (d_of_int j) - k)"
  have k: "k \<le> 1074" using d_shift_of_int [OF i] by (simp add: k_def)
  have s: "s = (i + j) * 2 ^ (1074 - k)"
    unfolding s_def by (subst d_sig_of_int [OF i], simp add: k_def, subst d_sig_of_int [OF j],
      simp add: k_def) (simp only: distrib_right)
  have add: "d_add (d_of_int i) (d_of_int j)
      = (if s = 0 then mk_double (i < 0 \<and> j < 0) 0 else mk_double (s < 0) (round_low (nat \<bar>s\<bar>) k))"
    unfolding d_add_def Let_def k_def [symmetric] s_def [symmetric]
    by (simp add: d_not_inf_of_int i j)
  show ?thesis
  proof (cases "i + j = 0")
    case True
    then have "\<not> (i < 0 \<and> j < 0)" by linarith
    moreover have "s = 0" using s True by simp
    ultimately show ?thesis by (simp only: add True if_True d_of_int_0 simp_thms)
  next
    case False
    have pos: "(0::int) < 2 ^ (1074 - k)" by simp
    have "nat \<bar>s\<bar> = nat \<bar>i + j\<bar> * 2 ^ (1074 - k)"
      unfolding s by (simp only: abs_mult nat_mult_distrib abs_ge_zero power_abs abs_numeral
        nat_power_eq zero_le_numeral nat_numeral)
    then have "round_low (nat \<bar>s\<bar>) k = round_low (nat \<bar>i + j\<bar>) 1074"
      using k by (simp only: round_low_shift) simp
    moreover have "s < 0 \<longleftrightarrow> i + j < 0" unfolding s using pos by (simp only: mult_less_0_iff) auto
    moreover have "s \<noteq> 0" unfolding s using pos False by simp
    ultimately show ?thesis using add by (simp add: d_of_int_def)
  qed
qed

end
