(* ===== verification/Bson.thy ===== *)
theory Bson
  imports Double
begin

text \<open>
  BSON values and documents, and the path operations of
  src/chimera/translator/src/bson.cpp. A document is the ordered list of its fields, which
  is what iterating a \<open>bson_t\<close> yields; appending puts a field at the end. An array is a
  document keyed "0", "1", and so on, and the two differ only in the constructor.

  The raw buffer behind a document is libbson's, and enters as a parameter \<open>raw\<close>
  (\<open>bson_get_data\<close>) where the code compares buffers byte for byte.
\<close>

section \<open>Values\<close>

type_synonym int64 = "64 word"
type_synonym int32 = "32 word"
type_synonym uint32 = "32 word"

datatype bson =
    BDouble double
  | BUtf8 string
  | BDocument "(string \<times> bson) list"
  | BArray "(string \<times> bson) list"
  | BBinary nat string
  | BUndefined
  | BOid string
  | BBool bool
  | BDateTime int64
  | BNull
  | BRegex string string
  | BDbPointer string string
  | BCode string
  | BSymbol string
  | BCodeWScope string "(string \<times> bson) list"
  | BInt32 int32
  | BTimestamp uint32 uint32
  | BInt64 int64
  | BDecimal128 string
  | BMinKey
  | BMaxKey

type_synonym document = "(string \<times> bson) list"
type_synonym path = "string list"

text \<open>\<open>bson_type_t\<close>: the byte that precedes a value on the wire.\<close>

fun bson_type :: "bson \<Rightarrow> nat" where
  "bson_type (BDouble _) = 0x01"
| "bson_type (BUtf8 _) = 0x02"
| "bson_type (BDocument _) = 0x03"
| "bson_type (BArray _) = 0x04"
| "bson_type (BBinary _ _) = 0x05"
| "bson_type BUndefined = 0x06"
| "bson_type (BOid _) = 0x07"
| "bson_type (BBool _) = 0x08"
| "bson_type (BDateTime _) = 0x09"
| "bson_type BNull = 0x0A"
| "bson_type (BRegex _ _) = 0x0B"
| "bson_type (BDbPointer _ _) = 0x0C"
| "bson_type (BCode _) = 0x0D"
| "bson_type (BSymbol _) = 0x0E"
| "bson_type (BCodeWScope _ _) = 0x0F"
| "bson_type (BInt32 _) = 0x10"
| "bson_type (BTimestamp _ _) = 0x11"
| "bson_type (BInt64 _) = 0x12"
| "bson_type (BDecimal128 _) = 0x13"
| "bson_type BMinKey = 0xFF"
| "bson_type BMaxKey = 0x7F"

fun is_document :: "bson \<Rightarrow> bool" where
  "is_document (BDocument _) = True"
| "is_document _ = False"

fun is_array :: "bson \<Rightarrow> bool" where
  "is_array (BArray _) = True"
| "is_array _ = False"

fun is_utf8 :: "bson \<Rightarrow> bool" where
  "is_utf8 (BUtf8 _) = True"
| "is_utf8 _ = False"

text \<open>
  The buffer a \<open>bson_init_static\<close> over \<open>v.value.v_doc\<close> sees. Only for a document or an array
  is that the active member of the union; for any other type the read is undefined.
\<close>

fun v_doc :: "bson \<Rightarrow> document outcome" where
  "v_doc (BDocument d) = Inr d"
| "v_doc (BArray d) = Inr d"
| "v_doc _ = Inl Undefined"

section \<open>Numbers\<close>

fun value_is_numeric :: "bson \<Rightarrow> bool" where
  "value_is_numeric (BInt32 _) = True"
| "value_is_numeric (BInt64 _) = True"
| "value_is_numeric (BDouble _) = True"
| "value_is_numeric _ = False"

fun value_as_double :: "bson \<Rightarrow> double outcome" where
  "value_as_double (BInt32 n) = Inr (d_of_int (sint n))"
| "value_as_double (BInt64 n) = Inr (d_of_int (sint n))"
| "value_as_double (BDouble d) = Inr d"
| "value_as_double _ = Inl (type_mismatch ''expected a numeric value'')"

text \<open>\<open>value_as_double\<close> where it cannot throw.\<close>

fun as_double :: "bson \<Rightarrow> double" where
  "as_double (BInt32 n) = d_of_int (sint n)"
| "as_double (BInt64 n) = d_of_int (sint n)"
| "as_double (BDouble d) = d"
| "as_double _ = 0"

lemma value_as_double_numeric [simp]:
  "value_is_numeric v \<Longrightarrow> value_as_double v = Inr (as_double v)"
  by (cases v) auto

lemma value_as_double_Inr_iff [simp]:
  "value_as_double v = Inr d \<longleftrightarrow> value_is_numeric v \<and> as_double v = d"
  by (cases v) auto

section \<open>Equality\<close>

text \<open>
  \<open>value_equal\<close>: numbers compare as doubles; everything else must match in type and payload.
  Documents and arrays compare as buffers (\<open>memcmp\<close> over \<open>v_doc\<close>), given by \<open>raw\<close>.
\<close>

definition value_equal :: "(document \<Rightarrow> string) \<Rightarrow> bson \<Rightarrow> bson \<Rightarrow> bool" where
  "value_equal raw a b =
     (if value_is_numeric a \<and> value_is_numeric b then d_eq (as_double a) (as_double b)
      else case (a, b) of
        (BUtf8 s, BUtf8 t) \<Rightarrow> s = t
      | (BBool s, BBool t) \<Rightarrow> s = t
      | (BNull, BNull) \<Rightarrow> True
      | (BUndefined, BUndefined) \<Rightarrow> True
      | (BMinKey, BMinKey) \<Rightarrow> True
      | (BMaxKey, BMaxKey) \<Rightarrow> True
      | (BOid s, BOid t) \<Rightarrow> s = t
      | (BDateTime s, BDateTime t) \<Rightarrow> s = t
      | (BTimestamp s i, BTimestamp t j) \<Rightarrow> s = t \<and> i = j
      | (BBinary _ s, BBinary _ t) \<Rightarrow> s = t
      | (BDocument s, BDocument t) \<Rightarrow> raw s = raw t
      | (BArray s, BArray t) \<Rightarrow> raw s = raw t
      | _ \<Rightarrow> False)"

lemma value_equal_sym: "value_equal raw a b = value_equal raw b a"
  by (cases a; cases b) (auto simp: value_equal_def d_eq_def)

text \<open>Everything but a NaN and the types the code never calls equal is equal to itself.\<close>

fun self_equal :: "bson \<Rightarrow> bool" where
  "self_equal (BDouble d) = (\<not> d_nan d)"
| "self_equal (BRegex _ _) = False"
| "self_equal (BDbPointer _ _) = False"
| "self_equal (BCode _) = False"
| "self_equal (BSymbol _) = False"
| "self_equal (BCodeWScope _ _) = False"
| "self_equal (BDecimal128 _) = False"
| "self_equal _ = True"

lemma value_equal_refl: "value_equal raw a a = self_equal a"
  by (cases a) (auto simp: value_equal_def d_eq_def)

lemma value_equal_trans: "value_equal raw a b \<Longrightarrow> value_equal raw b c \<Longrightarrow> value_equal raw a c"
  by (cases a; cases b; simp add: value_equal_def; cases c; simp add: d_eq_def)

section \<open>Paths\<close>

text \<open>\<open>split_path\<close>: the members between dots; an empty member is refused.\<close>

fun split_dots :: "string \<Rightarrow> string \<Rightarrow> path" where
  "split_dots acc [] = [acc]"
| "split_dots acc (c # cs) =
     (if c = CHR ''.'' then acc # split_dots [] cs else split_dots (acc @ [c]) cs)"

definition split_path :: "string \<Rightarrow> path outcome" where
  "split_path dotted =
     (let parts = split_dots [] dotted
      in if [] \<in> set parts
         then Inl (failed_to_parse (''empty path member in '' @ [CHR 0x27] @ dotted @ [CHR 0x27]))
         else Inr parts)"

text \<open>\<open>to_json_path\<close>: every member quoted, with quotes and backslashes escaped.\<close>

definition quote_char :: char where "quote_char = CHR 0x22"

definition backslash :: char where "backslash = CHR 0x5C"

definition escape_char :: "char \<Rightarrow> string" where
  "escape_char c = (if c = quote_char \<or> c = backslash then [backslash, c] else [c])"

definition json_member :: "string \<Rightarrow> string" where
  "json_member m = ''.'' @ [quote_char] @ concat (map escape_char m) @ [quote_char]"

definition to_json_path :: "path \<Rightarrow> string" where
  "to_json_path p = ''$'' @ concat (map json_member p)"

section \<open>Reading and writing by path\<close>

text \<open>\<open>bson_iter_init_find\<close>: the first field with this key.\<close>

definition find_field :: "document \<Rightarrow> string \<Rightarrow> bson option" where
  "find_field d k = map_of d (c_str k)"

text \<open>\<open>iter_subdocument\<close>: the fields of a document or an array.\<close>

fun sub_fields :: "bson \<Rightarrow> document option" where
  "sub_fields (BDocument d) = Some d"
| "sub_fields (BArray d) = Some d"
| "sub_fields _ = None"

fun path_get :: "document \<Rightarrow> path \<Rightarrow> bson option" where
  "path_get d [] = None"
| "path_get d [k] = find_field d k"
| "path_get d (k # ks) =
     (case find_field d k of
        None \<Rightarrow> None
      | Some v \<Rightarrow> (case sub_fields v of None \<Rightarrow> None | Some c \<Rightarrow> path_get c ks))"

text \<open>
  \<open>set_in\<close>: every field whose key is the path's member is rewritten, and one is appended
  when there is none. A scalar on the way is replaced by a document (the recursion is called
  with a null source); an array stays an array.
\<close>

fun set_in :: "document \<Rightarrow> path \<Rightarrow> bson \<Rightarrow> document" where
  "set_in src [] v = src"
| "set_in src [k] v =
     (let out = map (\<lambda>(key, x). if key = k then (key, v) else (key, x)) src
      in if k \<in> fst ` set src then out else out @ [(k, v)])"
| "set_in src (k # ks) v =
     (let out = map (\<lambda>(key, x).
            if key = k
            then (key, case x of
                BDocument c \<Rightarrow> BDocument (set_in c ks v)
              | BArray c \<Rightarrow> BArray (set_in c ks v)
              | _ \<Rightarrow> BDocument (set_in [] ks v))
            else (key, x)) src
      in if k \<in> fst ` set src then out else out @ [(k, BDocument (set_in [] ks v))])"

definition path_set :: "document \<Rightarrow> path \<Rightarrow> bson \<Rightarrow> document outcome" where
  "path_set d p v = (if p = [] then Inl (failed_to_parse ''empty path'') else Inr (set_in d p v))"

fun unset_in :: "document \<Rightarrow> path \<Rightarrow> document" where
  "unset_in src [] = src"
| "unset_in src [k] = filter (\<lambda>(key, x). key \<noteq> k) src"
| "unset_in src (k # ks) =
     map (\<lambda>(key, x).
       if key = k
       then (key, case x of
           BDocument c \<Rightarrow> BDocument (unset_in c ks)
         | BArray c \<Rightarrow> BArray (unset_in c ks)
         | _ \<Rightarrow> x)
       else (key, x)) src"

definition path_unset :: "document \<Rightarrow> path \<Rightarrow> document outcome" where
  "path_unset d p = (if p = [] then Inl (failed_to_parse ''empty path'') else Inr (unset_in d p))"

section \<open>Arrays and fields\<close>

definition array_values :: "bson \<Rightarrow> bson list outcome" where
  "array_values v = (case v of
       BArray d \<Rightarrow> Inr (map snd d)
     | _ \<Rightarrow> Inl (type_mismatch ''expected an array''))"

definition make_array :: "bson list \<Rightarrow> document" where
  "make_array vs = map (\<lambda>i. (nat_text i, vs ! i)) [0..<length vs]"

definition document_fields :: "document \<Rightarrow> (string \<times> bson) list" where
  "document_fields d = d"

end
