(* ===== verification/ResumeTokens.thy ===== *)
theory ResumeTokens
  imports Bson
begin

text \<open>
  Resume tokens and the options of a \<open>$changeStream\<close> stage
  (src/chimera/translator/src/changestream.cpp). A null \<open>bson_t*\<close> is None; a document is
  well formed, so the checks that only a corrupt buffer can fail (\<open>bson_iter_init\<close>,
  \<open>bson_init_static\<close>) have no branch.
\<close>

section \<open>The code\<close>

definition kPlan :: string where
  "kPlan = '' (see changestream-plan.md)''"

definition is_lower_hex :: "string \<Rightarrow> bool" where
  "is_lower_hex s \<longleftrightarrow>
     list_all (\<lambda>c. let n = of_char c :: nat in 48 \<le> n \<and> n \<le> 57 \<or> 97 \<le> n \<and> n \<le> 102) s"

definition reject_token :: "string \<Rightarrow> failure" where
  "reject_token why = bad_value (''resume token is not valid: '' @ why @ kPlan)"

definition quoted :: "string \<Rightarrow> string" where
  "quoted s = [CHR 0x27] @ s @ [CHR 0x27]"

definition utf8_of :: "bson \<Rightarrow> string \<Rightarrow> string outcome" where
  "utf8_of v field = (case v of
       BUtf8 s \<Rightarrow> Inr s
     | _ \<Rightarrow> Inl (type_mismatch (''$changeStream option '' @ quoted field @ '' must be a string'')))"

definition reject_if_requested :: "bson \<Rightarrow> string \<Rightarrow> unit outcome" where
  "reject_if_requested v field = (case v of
       BBool b \<Rightarrow>
         throw_if b (not_implemented (''$changeStream option '' @ quoted field
           @ '' is not supported'' @ kPlan))
     | _ \<Rightarrow> Inl (type_mismatch (''$changeStream option '' @ quoted field @ '' must be a boolean'')))"

datatype change_stream_start = kHead | kToken | kOperationTime

record change_stream_options =
  start :: change_stream_start
  after_seq :: "64 word"
  ts_t :: uint32
  ts_i :: uint32

definition default_options :: change_stream_options where
  "default_options = \<lparr>start = kHead, after_seq = 0, ts_t = 0, ts_i = 0\<rparr>"

definition reject_second_origin :: "change_stream_start \<Rightarrow> string \<Rightarrow> unit outcome" where
  "reject_second_origin current field =
     throw_if (current \<noteq> kHead) (change_stream_options_conflict
       (''$changeStream options ''
        @ quoted ''resumeAfter'' @ '', '' @ quoted ''startAfter'' @ '' and ''
        @ quoted ''startAtOperationTime'' @ '' are mutually exclusive; ''
        @ quoted field @ '' was given as well''))"

text \<open>\<open>snprintf\<close> with \<open>%016llx\<close>: the digits of the number, padded to 16 with zeros.\<close>

definition hex_char :: "nat \<Rightarrow> char" where
  "hex_char d = char_of (if d < 10 then 48 + d else 87 + d)"

fun hex_text :: "nat \<Rightarrow> string" where
  "hex_text n = (if n < 16 then [hex_char n] else hex_text (n div 16) @ [hex_char (n mod 16)])"

declare hex_text.simps [simp del]

definition encode_resume_token :: "64 word \<Rightarrow> string" where
  "encode_resume_token seq =
     (let h = hex_text (unat seq) in take 16 (replicate (16 - length h) (CHR ''0'') @ h))"

text \<open>\<open>strtoull(_, nullptr, 16)\<close> on a string of lower-case hex digits.\<close>

definition hex_digit_value :: "char \<Rightarrow> nat" where
  "hex_digit_value c = (let n = of_char c in if n \<le> 57 then n - 48 else n - 87)"

definition hex_value :: "string \<Rightarrow> nat" where
  "hex_value s = foldl (\<lambda>n c. 16 * n + hex_digit_value c) 0 s"

definition strtoull_hex :: "string \<Rightarrow> 64 word" where
  "strtoull_hex s = word_of_nat (min (hex_value s) (2 ^ 64 - 1))"

definition decode_resume_token :: "document option \<Rightarrow> 64 word outcome" where
  "decode_resume_token token = (case token of
       None \<Rightarrow> Inl (reject_token ''no token given'')
     | Some d \<Rightarrow> (case find_field d ''_data'' of
         None \<Rightarrow> Inl (reject_token (''no '' @ quoted ''_data'' @ '' field''))
       | Some (BUtf8 hex) \<Rightarrow>
           if length hex \<noteq> 16
           then Inl (reject_token (quoted ''_data'' @ '' must be 16 hex digits''))
           else if \<not> is_lower_hex hex
           then Inl (reject_token (quoted ''_data'' @ '' must be lowercase hex''))
           else Inr (strtoull_hex hex)
       | Some _ \<Rightarrow> Inl (reject_token (quoted ''_data'' @ '' is not a string''))))"

text \<open>One turn of the loop of \<open>parse_change_stream\<close>.\<close>

definition parse_option ::
  "string \<times> bson \<Rightarrow> change_stream_options \<Rightarrow> change_stream_options outcome" where
  "parse_option field opts = (case field of (key, v) \<Rightarrow>
     if key = ''fullDocument'' then
       and_then (utf8_of v ''fullDocument'') (\<lambda>mode.
         if mode \<notin> {''default'', ''updateLookup'', ''whenAvailable'', ''required''}
         then Inl (bad_value (''unknown $changeStream fullDocument mode '' @ quoted mode))
         else Inr opts)
     else if key = ''fullDocumentBeforeChange'' then
       and_then (utf8_of v ''fullDocumentBeforeChange'') (\<lambda>mode.
         if mode = ''off'' \<or> mode = ''whenAvailable'' then Inr opts
         else if mode = ''required'' then
           Inl (not_implemented (''$changeStream fullDocumentBeforeChange '' @ quoted ''required''
             @ '': pre-images are not stored'' @ kPlan))
         else Inl (bad_value (''unknown $changeStream fullDocumentBeforeChange mode ''
             @ quoted mode)))
     else if key = ''resumeAfter'' \<or> key = ''startAfter'' then
       and_then (reject_second_origin (start opts) key) (\<lambda>_.
         case v of
           BDocument token \<Rightarrow>
             and_then (decode_resume_token (Some token)) (\<lambda>seq.
               Inr (opts\<lparr>after_seq := seq, start := kToken\<rparr>))
         | _ \<Rightarrow> Inl (reject_token (quoted key @ '' must be a document'')))
     else if key = ''startAtOperationTime'' then
       and_then (reject_second_origin (start opts) ''startAtOperationTime'') (\<lambda>_.
         case v of
           BTimestamp t i \<Rightarrow> Inr (opts\<lparr>ts_t := t, ts_i := i, start := kOperationTime\<rparr>)
         | _ \<Rightarrow> Inl (type_mismatch (''$changeStream option '' @ quoted ''startAtOperationTime''
             @ '' must be a Timestamp'')))
     else if key = ''allChangesForCluster'' then
       and_then (reject_if_requested v ''allChangesForCluster'') (\<lambda>_. Inr opts)
     else if key = ''showExpandedEvents'' then
       and_then (reject_if_requested v ''showExpandedEvents'') (\<lambda>_. Inr opts)
     else Inl (not_implemented (''unsupported $changeStream option '' @ quoted key @ kPlan)))"

definition parse_change_stream :: "document option \<Rightarrow> change_stream_options outcome" where
  "parse_change_stream stage = (case stage of
       None \<Rightarrow> Inr default_options
     | Some d \<Rightarrow> fold_res parse_option d default_options)"

section \<open>Hexadecimal\<close>

lemma hex_value_snoc [simp]: "hex_value (s @ [c]) = 16 * hex_value s + hex_digit_value c"
  by (simp add: hex_value_def)

lemma hex_value_Nil [simp]: "hex_value [] = 0"
  by (simp add: hex_value_def)

lemma hex_digit_value_char [simp]: "d < 16 \<Longrightarrow> hex_digit_value (hex_char d) = d"
  by (auto simp: hex_digit_value_def hex_char_def Let_def)

lemma hex_value_text [simp]: "hex_value (hex_text n) = n"
proof (induction n rule: hex_text.induct)
  case (1 n)
  then show ?case
    by (cases "n < 16") (simp_all add: hex_text.simps [of n] hex_value_def)
qed

lemma hex_value_zeros [simp]: "hex_value (replicate k (CHR ''0'') @ s) = hex_value s"
proof (induction s rule: rev_induct)
  case Nil
  show ?case by (induction k) (simp_all add: hex_value_def hex_digit_value_def)
next
  case (snoc c s)
  then show ?case by (simp flip: append_assoc)
qed

lemma hex_text_length: "n < 16 ^ k \<Longrightarrow> 0 < k \<Longrightarrow> length (hex_text n) \<le> k"
proof (induction n arbitrary: k rule: hex_text.induct)
  case (1 n)
  show ?case
  proof (cases "n < 16")
    case True
    with 1 show ?thesis by (simp add: hex_text.simps [of n])
  next
    case False
    then obtain j where k: "k = Suc j" "0 < j" using 1 by (cases k; cases "k - 1") auto
    then have "n div 16 < 16 ^ j" using 1 by (simp add: less_mult_imp_div_less mult.commute)
    with 1(1) [OF False this k(2)] False k show ?thesis by (simp add: hex_text.simps [of n])
  qed
qed

lemma lower_hex_char [simp]: "d < 16 \<Longrightarrow> is_lower_hex [hex_char d]"
  by (auto simp: is_lower_hex_def hex_char_def Let_def)

lemma is_lower_hex_append [simp]: "is_lower_hex (s @ t) \<longleftrightarrow> is_lower_hex s \<and> is_lower_hex t"
  by (auto simp: is_lower_hex_def)

lemma is_lower_hex_text [simp]: "is_lower_hex (hex_text n)"
proof (induction n rule: hex_text.induct)
  case (1 n)
  then show ?case by (cases "n < 16") (simp_all add: hex_text.simps [of n])
qed

lemma is_lower_hex_zeros [simp]: "is_lower_hex (replicate k (CHR ''0''))"
  by (simp add: is_lower_hex_def list_all_iff)

lemma token_text:
  "encode_resume_token seq =
     replicate (16 - length (hex_text (unat seq))) (CHR ''0'') @ hex_text (unat seq)"
  "length (encode_resume_token seq) = 16"
proof -
  have "unat seq < 16 ^ 16" using unsigned_less [of seq] by simp
  then have "length (hex_text (unat seq)) \<le> 16" by (rule hex_text_length) simp
  then show "encode_resume_token seq =
     replicate (16 - length (hex_text (unat seq))) (CHR ''0'') @ hex_text (unat seq)"
    and "length (encode_resume_token seq) = 16"
    by (simp_all add: encode_resume_token_def Let_def)
qed

lemma is_lower_hex_token: "is_lower_hex (encode_resume_token seq)"
  by (simp add: token_text(1))

lemma hex_value_token: "hex_value (encode_resume_token seq) = unat seq"
  by (simp add: token_text(1))

lemma hex_digit_bound: "is_lower_hex [c] \<Longrightarrow> hex_digit_value c < 16"
  by (auto simp: is_lower_hex_def hex_digit_value_def Let_def)

lemma hex_digit_inject:
  "is_lower_hex [c] \<Longrightarrow> is_lower_hex [d] \<Longrightarrow> hex_digit_value c = hex_digit_value d \<Longrightarrow> c = d"
proof -
  assume "is_lower_hex [c]" "is_lower_hex [d]" "hex_digit_value c = hex_digit_value d"
  moreover have "48 \<le> m \<and> m \<le> 57 \<or> 97 \<le> m \<and> m \<le> 102 \<Longrightarrow> 48 \<le> n \<and> n \<le> 57 \<or> 97 \<le> n \<and> n \<le> 102 \<Longrightarrow>
      (if m \<le> 57 then m - 48 else m - 87) = (if n \<le> 57 then n - 48 else n - 87) \<Longrightarrow> m = n"
    for m n :: nat
    by (auto split: if_splits)
  ultimately have "of_char c = (of_char d :: nat)"
    unfolding is_lower_hex_def hex_digit_value_def Let_def list.pred_inject by blast
  then show "c = d" by simp
qed

lemma hex_value_bound: "is_lower_hex s \<Longrightarrow> hex_value s < 16 ^ length s"
proof (induction s rule: rev_induct)
  case (snoc c s)
  then show ?case using hex_digit_bound [of c] by simp
qed simp

lemma hex_value_inject:
  "is_lower_hex s \<Longrightarrow> is_lower_hex t \<Longrightarrow> length s = length t \<Longrightarrow> hex_value s = hex_value t \<Longrightarrow> s = t"
proof (induction s arbitrary: t rule: rev_induct)
  case (snoc c s)
  then obtain u d where t: "t = u @ [d]" by (cases t rule: rev_cases) auto
  have e: "16 * hex_value s + hex_digit_value c = 16 * hex_value u + hex_digit_value d"
    using snoc.prems t by simp
  have b: "hex_digit_value c < 16" "hex_digit_value d < 16"
    using snoc.prems t hex_digit_bound by auto
  from e b have "hex_value s = hex_value u" "hex_digit_value c = hex_digit_value d"
    by presburger+
  moreover have "s = u" using snoc.prems t calculation(1) by (intro snoc.IH) auto
  ultimately show ?case using snoc.prems t hex_digit_inject [of c d] by auto
qed simp

text \<open>The part of decode_resume_token that reads the string.\<close>

definition read_token :: "string \<Rightarrow> 64 word option" where
  "read_token s = (if length s = 16 \<and> is_lower_hex s then Some (strtoull_hex s) else None)"

lemma strtoull_hex_unat: "length s = 16 \<Longrightarrow> is_lower_hex s \<Longrightarrow> unat (strtoull_hex s) = hex_value s"
proof -
  assume "length s = 16" "is_lower_hex s"
  then have b: "hex_value s < 2 ^ 64" using hex_value_bound [of s] by simp
  then have "min (hex_value s) (2 ^ 64 - 1) = hex_value s" by simp
  with b show ?thesis by (simp add: strtoull_hex_def unat_of_nat take_bit_nat_eq_self)
qed

interpretation token: canonical_codec encode_resume_token read_token "\<lambda>_. True"
proof
  fix seq :: "64 word"
  have "unat (strtoull_hex (encode_resume_token seq)) = unat seq"
    by (simp add: strtoull_hex_unat token_text(2) is_lower_hex_token hex_value_token)
  then show "read_token (encode_resume_token seq) = Some seq"
    by (simp add: read_token_def token_text(2) is_lower_hex_token word_unat_eq_iff)
next
  fix s seq
  assume "read_token s = Some seq"
  then have s: "length s = 16" "is_lower_hex s" and seq: "seq = strtoull_hex s"
    by (auto simp: read_token_def split: if_splits)
  have "encode_resume_token seq = s"
    using s by (intro hex_value_inject)
      (simp_all add: is_lower_hex_token token_text(2) hex_value_token seq strtoull_hex_unat)
  then show "True \<and> encode_resume_token seq = s" by simp
qed

lemma decode_resume_token_read:
  "decode_resume_token (Some d) = Inr seq \<longleftrightarrow>
     (\<exists>s. find_field d ''_data'' = Some (BUtf8 s) \<and> read_token s = Some seq)"
  by (auto simp: decode_resume_token_def read_token_def split: option.splits bson.splits if_splits)

section \<open>Options\<close>

definition origin_key :: "string \<Rightarrow> bool" where
  "origin_key k \<longleftrightarrow> k \<in> {''resumeAfter'', ''startAfter'', ''startAtOperationTime''}"

text \<open>
  What one field may ask for. A stage is accepted when each of its fields is honoured; a field
  that names where the stream begins is an origin.
\<close>

definition honoured :: "string \<times> bson \<Rightarrow> bool" where
  "honoured f = (case f of (k, v) \<Rightarrow>
     if k = ''fullDocument'' then
       v \<in> BUtf8 ` {''default'', ''updateLookup'', ''whenAvailable'', ''required''}
     else if k = ''fullDocumentBeforeChange'' then v \<in> BUtf8 ` {''off'', ''whenAvailable''}
     else if k = ''resumeAfter'' \<or> k = ''startAfter'' then
       (\<exists>d seq. v = BDocument d \<and> find_field d ''_data'' = Some (BUtf8 (encode_resume_token seq)))
     else if k = ''startAtOperationTime'' then (\<exists>t i. v = BTimestamp t i)
     else if k = ''allChangesForCluster'' \<or> k = ''showExpandedEvents'' then v = BBool False
     else False)"

definition origin_of :: "string \<times> bson \<Rightarrow> change_stream_options" where
  "origin_of f = (case snd f of
       BTimestamp t i \<Rightarrow> default_options\<lparr>start := kOperationTime, ts_t := t, ts_i := i\<rparr>
     | BDocument d \<Rightarrow>
         default_options\<lparr>start := kToken,
           after_seq := (case decode_resume_token (Some d) of Inr seq \<Rightarrow> seq | _ \<Rightarrow> 0)\<rparr>
     | _ \<Rightarrow> default_options)"

lemma parse_full_document:
  "parse_option (''fullDocument'', v) opts = Inr opts' \<longleftrightarrow> honoured (''fullDocument'', v) \<and> opts' = opts"
  by (cases v) (auto simp: parse_option_def honoured_def utf8_of_def)

lemma parse_before_change:
  "parse_option (''fullDocumentBeforeChange'', v) opts = Inr opts' \<longleftrightarrow>
     honoured (''fullDocumentBeforeChange'', v) \<and> opts' = opts"
  by (cases v) (auto simp: parse_option_def honoured_def utf8_of_def)

lemma parse_switch:
  "k = ''allChangesForCluster'' \<or> k = ''showExpandedEvents'' \<Longrightarrow>
   parse_option (k, v) opts = Inr opts' \<longleftrightarrow> honoured (k, v) \<and> opts' = opts"
  by (elim disjE; cases v) (auto simp: parse_option_def honoured_def reject_if_requested_def and_then_Inr_iff)

lemma parse_token_origin:
  assumes "k = ''resumeAfter'' \<or> k = ''startAfter''"
  shows "parse_option (k, v) opts = Inr opts' \<longleftrightarrow> start opts = kHead \<and> honoured (k, v) \<and>
     opts' = opts\<lparr>start := kToken, after_seq := after_seq (origin_of (k, v))\<rparr>"
proof (cases v)
  case (BDocument d)
  have h: "honoured (k, v) \<longleftrightarrow> (\<exists>seq. decode_resume_token (Some d) = Inr seq)"
    using assms by (auto simp: honoured_def BDocument decode_resume_token_read token.dec_Some_iff)
  have p: "parse_option (k, v) opts = and_then (reject_second_origin (start opts) k) (\<lambda>_.
      and_then (decode_resume_token (Some d)) (\<lambda>seq. Inr (opts\<lparr>after_seq := seq, start := kToken\<rparr>)))"
    using assms by (auto simp: parse_option_def BDocument)
  show ?thesis
    unfolding p h by (auto simp: BDocument reject_second_origin_def and_then_Inr_iff origin_of_def)
qed (use assms in \<open>auto simp: parse_option_def honoured_def and_then_Inr_iff\<close>)

lemma parse_time_origin:
  "parse_option (''startAtOperationTime'', v) opts = Inr opts' \<longleftrightarrow>
     start opts = kHead \<and> honoured (''startAtOperationTime'', v) \<and>
     opts' = opts\<lparr>start := kOperationTime, ts_t := ts_t (origin_of (''startAtOperationTime'', v)),
                 ts_i := ts_i (origin_of (''startAtOperationTime'', v))\<rparr>"
  by (cases v)
    (auto simp: parse_option_def honoured_def and_then_Inr_iff reject_second_origin_def
      origin_of_def default_options_def)

lemma parse_unknown:
  assumes "k \<notin> {''fullDocument'', ''fullDocumentBeforeChange'', ''resumeAfter'', ''startAfter'',
    ''startAtOperationTime'', ''allChangesForCluster'', ''showExpandedEvents''}"
  shows "is_raise 238 (parse_option (k, v) opts)" and "\<not> honoured (k, v)"
  using assms by (simp_all add: parse_option_def honoured_def error_simps)

lemma parse_option_other:
  assumes "\<not> origin_key (fst f)"
  shows "parse_option f opts = Inr opts' \<longleftrightarrow> honoured f \<and> opts' = opts"
proof (cases f)
  case (Pair k v)
  show ?thesis
  proof (cases "k \<in> {''fullDocument'', ''fullDocumentBeforeChange'', ''resumeAfter'', ''startAfter'',
    ''startAtOperationTime'', ''allChangesForCluster'', ''showExpandedEvents''}")
    case True
    with assms Pair have "k = ''fullDocument'' \<or> k = ''fullDocumentBeforeChange''
      \<or> (k = ''allChangesForCluster'' \<or> k = ''showExpandedEvents'')"
      unfolding origin_key_def by force
    then show ?thesis
      unfolding Pair using parse_full_document parse_before_change parse_switch by metis
  next
    case False
    from parse_unknown [OF this] show ?thesis unfolding Pair by (metis is_raise_simps(1))
  qed
qed

lemma parse_option_origin:
  assumes "origin_key (fst f)"
  shows "parse_option f default_options = Inr opts' \<longleftrightarrow> honoured f \<and> opts' = origin_of f"
    and "start opts \<noteq> kHead \<Longrightarrow> parse_option f opts \<noteq> Inr opts'"
proof -
  obtain k v where f: "f = (k, v)" by (cases f)
  consider "k = ''resumeAfter'' \<or> k = ''startAfter''" | "k = ''startAtOperationTime''"
    using assms f by (auto simp: origin_key_def)
  then have "(parse_option f default_options = Inr opts' \<longleftrightarrow> honoured f \<and> opts' = origin_of f)
    \<and> (start opts \<noteq> kHead \<longrightarrow> parse_option f opts \<noteq> Inr opts')"
  proof cases
    case 1
    have "default_options\<lparr>start := kToken, after_seq := after_seq (origin_of (k, v))\<rparr> = origin_of (k, v)"
      if "honoured (k, v)"
      using that 1 by (auto simp: honoured_def origin_of_def)
    then show ?thesis unfolding f parse_token_origin [OF 1] by (auto simp: default_options_def)
  next
    case 2
    have "default_options\<lparr>start := kOperationTime, ts_t := ts_t (origin_of (k, v)),
      ts_i := ts_i (origin_of (k, v))\<rparr> = origin_of (k, v)" if "honoured (k, v)"
      using that 2 by (auto simp: honoured_def origin_of_def)
    then show ?thesis unfolding f 2 parse_time_origin by (auto simp: default_options_def)
  qed
  then show "parse_option f default_options = Inr opts' \<longleftrightarrow> honoured f \<and> opts' = origin_of f"
    and "start opts \<noteq> kHead \<Longrightarrow> parse_option f opts \<noteq> Inr opts'"
    by blast+
qed

lemma origin_started: "origin_key (fst f) \<Longrightarrow> honoured f \<Longrightarrow> start (origin_of f) \<noteq> kHead"
  by (cases f) (auto simp: origin_key_def honoured_def origin_of_def)

lemma parse_after_origin:
  "start opts \<noteq> kHead \<Longrightarrow> fold_res parse_option d opts = Inr opts' \<longleftrightarrow>
    list_all honoured d \<and> filter (\<lambda>f. origin_key (fst f)) d = [] \<and> opts' = opts"
proof (induction d)
  case (Cons f d)
  then show ?case
    by (cases "origin_key (fst f)")
      (auto simp: and_then_Inr_iff parse_option_other parse_option_origin)
qed auto

section \<open>Properties\<close>

text \<open>
  C27. A token that a driver sends back is accepted exactly when its \<open>_data\<close> is the 16-digit
  text the server writes for some sequence number, and it then means that number: no other
  spelling (short, upper case, prefixed) is ever guessed at.
\<close>

theorem decode_resume_token_iff:
  "decode_resume_token (Some d) = Inr seq \<longleftrightarrow>
     find_field d ''_data'' = Some (BUtf8 (encode_resume_token seq))"
  by (auto simp: decode_resume_token_read token.dec_Some_iff)

text \<open>
  A \<open>$changeStream\<close> stage is accepted exactly when each of its fields asks for something
  the server does and at most one of them says where to begin; the result is then that origin,
  and the head of the stream when there is none. No option is silently ignored.
\<close>

theorem parse_change_stream_iff:
  "parse_change_stream (Some d) = Inr opts \<longleftrightarrow>
     list_all honoured d \<and>
     (case filter (\<lambda>f. origin_key (fst f)) d of
        [] \<Rightarrow> opts = default_options
      | [f] \<Rightarrow> opts = origin_of f
      | _ \<Rightarrow> False)"
proof -
  have "fold_res parse_option d default_options = Inr opts \<longleftrightarrow>
     list_all honoured d \<and>
     (case filter (\<lambda>f. origin_key (fst f)) d of
        [] \<Rightarrow> opts = default_options
      | [f] \<Rightarrow> opts = origin_of f
      | _ \<Rightarrow> False)"
  proof (induction d)
    case (Cons f d)
    show ?case
    proof (cases "origin_key (fst f)")
      case True
      then have "fold_res parse_option (f # d) default_options = Inr opts \<longleftrightarrow>
          honoured f \<and> fold_res parse_option d (origin_of f) = Inr opts"
        by (auto simp: and_then_Inr_iff parse_option_origin)
      with True show ?thesis
        by (auto simp: origin_started parse_after_origin split: list.splits)
    next
      case False
      with Cons show ?thesis by (auto simp: and_then_Inr_iff parse_option_other)
    qed
  qed auto
  then show ?thesis by (simp add: parse_change_stream_def)
qed

end
