(* ===== verification/Cursors.thy ===== *)
theory Cursors
  imports Machines Bson
begin

text \<open>
  The cursor registry (src/chimera/plugin/chimera_mongo/cursor.cc): what is left of a result, or
  the position of a tail of the oplog, waiting under an id for the next getMore. The operations
  run under one mutex, so they are steps of a machine; the clock is an argument.
\<close>

section \<open>The registry\<close>

record tail_state =
  tail_filter :: document
  after_seq :: "64 word"
  await_data :: bool
  is_change_stream :: bool

record cursor_entry =
  entry_ns :: string
  remaining :: "document list"
  offset :: nat
  last_used_seconds :: int
  tailing :: bool
  tail :: tail_state

record registry =
  cursors :: "int \<Rightarrow> cursor_entry option"
  next_id :: int

definition fresh_tail :: tail_state where
  "fresh_tail = \<lparr>tail_filter = [], after_seq = 0, await_data = False, is_change_stream = False\<rparr>"

definition fresh_registry :: registry where
  "fresh_registry = \<lparr>cursors = (\<lambda>_. None), next_id = 1\<rparr>"

definition kIdleTimeoutSeconds :: int where "kIdleTimeoutSeconds = 600"

definition expire_idle :: "int \<Rightarrow> registry \<Rightarrow> registry" where
  "expire_idle now r =
     (let cutoff = now - kIdleTimeoutSeconds in
      r\<lparr>cursors := (\<lambda>i. case cursors r i of
          Some e \<Rightarrow> if last_used_seconds e < cutoff then None else Some e
        | None \<Rightarrow> None)\<rparr>)"

text \<open>\<open>next_id_++\<close> on an int64: past the largest one the increment is undefined.\<close>

definition emplace :: "int \<Rightarrow> cursor_entry \<Rightarrow> registry \<Rightarrow> int outcome \<times> registry" where
  "emplace now e r =
     (let r1 = expire_idle now r; i = next_id r1
      in if i = 2 ^ 63 - 1 then (Inl Undefined, r1)
         else (Inr i, r1\<lparr>cursors := (cursors r1)(i := Some e), next_id := i + 1\<rparr>))"

definition open_cursor ::
  "int \<Rightarrow> string \<Rightarrow> document list \<Rightarrow> registry \<Rightarrow> int outcome \<times> registry" where
  "open_cursor now ns docs r =
     (if docs = [] then (Inr 0, r)
      else emplace now \<lparr>entry_ns = ns, remaining = docs, offset = 0, last_used_seconds = now,
                        tailing = False, tail = fresh_tail\<rparr> r)"

definition open_tail :: "int \<Rightarrow> string \<Rightarrow> tail_state \<Rightarrow> registry \<Rightarrow> int outcome \<times> registry" where
  "open_tail now ns state r =
     emplace now \<lparr>entry_ns = ns, remaining = [], offset = 0, last_used_seconds = now,
                  tailing = True, tail = state\<rparr> r"

definition clone :: "tail_state \<Rightarrow> tail_state" where
  "clone s = \<lparr>tail_filter = tail_filter s, after_seq = after_seq s, await_data = await_data s,
              is_change_stream = is_change_stream s\<rparr>"

definition tail_of :: "int \<Rightarrow> int \<Rightarrow> string \<Rightarrow> registry \<Rightarrow> tail_state option \<times> registry" where
  "tail_of now i ns r = (case cursors r i of
       None \<Rightarrow> (None, r)
     | Some e \<Rightarrow>
         if entry_ns e \<noteq> ns \<or> \<not> tailing e then (None, r)
         else (Some (clone (tail e)),
               r\<lparr>cursors := (cursors r)(i := Some (e\<lparr>last_used_seconds := now\<rparr>))\<rparr>))"

definition advance_tail :: "int \<Rightarrow> 64 word \<Rightarrow> registry \<Rightarrow> registry" where
  "advance_tail i seq r = (case cursors r i of
       None \<Rightarrow> r
     | Some e \<Rightarrow> r\<lparr>cursors := (cursors r)(i := Some (e\<lparr>tail := (tail e)\<lparr>after_seq := seq\<rparr>\<rparr>))\<rparr>)"

text \<open>The loop of \<open>next_batch\<close>: documents moved out while fewer than wanted are taken.\<close>

function take_batch :: "nat \<Rightarrow> document list \<Rightarrow> nat \<Rightarrow> document list \<Rightarrow> document list \<times> nat" where
  "take_batch wanted docs pos batch =
     (if length batch < wanted \<and> pos < length docs
      then take_batch wanted docs (pos + 1) (batch @ [docs ! pos])
      else (batch, pos))"
  by pat_completeness auto
termination
  by (relation "measure (\<lambda>(_, docs, pos, _). length docs - pos)") auto

declare take_batch.simps [simp del]

definition next_batch ::
  "int \<Rightarrow> int \<Rightarrow> string \<Rightarrow> int32 \<Rightarrow> registry \<Rightarrow> (document list \<times> bool) outcome \<times> registry" where
  "next_batch now i ns batch_size r = (case cursors r i of
       None \<Rightarrow> (Inl (cursor_not_found (''cursor id '' @ int_text i @ '' not found'')), r)
     | Some e \<Rightarrow>
         if entry_ns e \<noteq> ns
         then (Inl (cursor_not_found (''cursor id '' @ int_text i @ '' is not on '' @ ns)), r)
         else
           let wanted = (if 0 < sint batch_size then nat (sint batch_size) else length (remaining e));
               (batch, pos) = take_batch wanted (remaining e) (offset e) [];
               exhausted = (length (remaining e) \<le> pos)
           in (Inr (batch, exhausted),
               r\<lparr>cursors := (cursors r)(i :=
                   if exhausted then None
                   else Some (e\<lparr>last_used_seconds := now, offset := pos\<rparr>))\<rparr>))"

definition kill :: "int \<Rightarrow> registry \<Rightarrow> bool \<times> registry" where
  "kill i r = (cursors r i \<noteq> None, r\<lparr>cursors := (cursors r)(i := None)\<rparr>)"

definition kill_all :: "registry \<Rightarrow> registry" where
  "kill_all r = r\<lparr>cursors := (\<lambda>_. None)\<rparr>"

section \<open>The machine\<close>

datatype cursor_op =
    Open int string "document list"
  | Open_tail int string tail_state
  | Tail_state int int string
  | Advance_tail int "64 word"
  | Next_batch int int string int32
  | Kill int
  | Kill_all

datatype cursor_reply =
    Opened "int outcome"
  | Tailed "tail_state option"
  | Batch "(document list \<times> bool) outcome"
  | Killed bool
  | Done

fun cursor_step :: "cursor_op \<Rightarrow> registry \<Rightarrow> cursor_reply \<times> registry" where
  "cursor_step (Open now ns docs) r = map_prod Opened id (open_cursor now ns docs r)"
| "cursor_step (Open_tail now ns state) r = map_prod Opened id (open_tail now ns state r)"
| "cursor_step (Tail_state now i ns) r = map_prod Tailed id (tail_of now i ns r)"
| "cursor_step (Advance_tail i seq) r = (Done, advance_tail i seq r)"
| "cursor_step (Next_batch now i ns n) r = map_prod Batch id (next_batch now i ns n r)"
| "cursor_step (Kill i) r = map_prod Killed id (kill i r)"
| "cursor_step Kill_all r = (Done, kill_all r)"

section \<open>The invariant\<close>

text \<open>Ids are between 1 and \<open>next_id\<close>; a cursor that does not tail has something left.\<close>

definition entry_ok :: "cursor_entry \<Rightarrow> bool" where
  "entry_ok e \<longleftrightarrow> (if tailing e then remaining e = [] else offset e < length (remaining e))"

definition registry_ok :: "registry \<Rightarrow> bool" where
  "registry_ok r \<longleftrightarrow> 1 \<le> next_id r \<and> next_id r < 2 ^ 63 \<and>
     (\<forall>i e. cursors r i = Some e \<longrightarrow> 1 \<le> i \<and> i < next_id r \<and> entry_ok e)"

lemma take_batch_eq:
  "pos \<le> length docs \<Longrightarrow> length batch \<le> wanted \<Longrightarrow>
    take_batch wanted docs pos batch =
      (batch @ take (wanted - length batch) (drop pos docs),
       min (pos + (wanted - length batch)) (length docs))"
proof (induction wanted docs pos batch rule: take_batch.induct)
  case (1 wanted docs pos batch)
  show ?case
  proof (cases "length batch < wanted \<and> pos < length docs")
    case True
    then have k: "wanted - length batch = Suc (wanted - Suc (length batch))" by arith
    have d: "drop pos docs = docs ! pos # drop (Suc pos) docs"
      using True by (simp add: Cons_nth_drop_Suc)
    have "take_batch wanted docs pos batch = take_batch wanted docs (pos + 1) (batch @ [docs ! pos])"
      using True by (subst take_batch.simps) simp
    also have "\<dots> = ((batch @ [docs ! pos]) @ take (wanted - Suc (length batch)) (drop (Suc pos) docs),
        min (pos + 1 + (wanted - Suc (length batch))) (length docs))"
      using 1(1) [OF True] True by simp
    finally show ?thesis unfolding k d by simp
  next
    case False
    with 1(2,3) show ?thesis by (subst take_batch.simps) auto
  qed
qed

lemma entry_offset: "entry_ok e \<Longrightarrow> \<not> tailing e \<Longrightarrow> offset e \<le> length (remaining e)"
  by (simp add: entry_ok_def)

lemma registry_ok_entry:
  "registry_ok r \<Longrightarrow> cursors r i = Some e \<Longrightarrow> 1 \<le> i \<and> i < next_id r \<and> entry_ok e"
  by (simp add: registry_ok_def)

lemma expire_idle_Some:
  "cursors (expire_idle now r) i = Some e \<longleftrightarrow>
    cursors r i = Some e \<and> now - kIdleTimeoutSeconds \<le> last_used_seconds e"
  by (auto simp: expire_idle_def Let_def split: option.splits)

lemma expire_idle_None: "cursors r i = None \<Longrightarrow> cursors (expire_idle now r) i = None"
  by (simp add: expire_idle_def Let_def)

lemma expire_idle_next_id [simp]: "next_id (expire_idle now r) = next_id r"
  by (simp add: expire_idle_def Let_def)

lemma expire_idle_ok: "registry_ok r \<Longrightarrow> registry_ok (expire_idle now r)"
  by (auto simp: registry_ok_def expire_idle_Some)

lemma emplace_ok: "registry_ok r \<Longrightarrow> entry_ok e \<Longrightarrow> registry_ok (snd (emplace now e r))"
  using expire_idle_ok [of r now]
  by (fastforce simp: emplace_def Let_def registry_ok_def)

lemma next_batch_eq:
  assumes "registry_ok r" and "cursors r i = Some e" and "entry_ns e = ns"
  shows "next_batch now i ns n r =
    (let wanted = (if 0 < sint n then nat (sint n) else length (remaining e));
         left = drop (offset e) (remaining e)
     in (Inr (take wanted left, length left \<le> wanted),
         r\<lparr>cursors := (cursors r)(i := if length left \<le> wanted then None
             else Some (e\<lparr>last_used_seconds := now, offset := offset e + wanted\<rparr>))\<rparr>))"
proof -
  define wanted where "wanted = (if 0 < sint n then nat (sint n) else length (remaining e))"
  show ?thesis
  proof (cases "offset e \<le> length (remaining e)")
    case True
    have "take_batch wanted (remaining e) (offset e) [] =
        (take wanted (drop (offset e) (remaining e)), min (offset e + wanted) (length (remaining e)))"
      using take_batch_eq [of "offset e" "remaining e" "[]" wanted] True by simp
    moreover have "length (remaining e) \<le> min (offset e + wanted) (length (remaining e))
        \<longleftrightarrow> length (drop (offset e) (remaining e)) \<le> wanted"
      using True by auto
    moreover have "\<not> length (drop (offset e) (remaining e)) \<le> wanted \<Longrightarrow>
        min (offset e + wanted) (length (remaining e)) = offset e + wanted" by auto
    ultimately show ?thesis
      using assms(2,3) by (simp add: next_batch_def Let_def flip: wanted_def)
  next
    case False
    with registry_ok_entry [OF assms(1,2)] have t: "tailing e" "remaining e = []"
      by (auto simp: entry_ok_def split: if_splits)
    have "take_batch wanted [] (offset e) [] = ([], offset e)" by (subst take_batch.simps) simp
    then show ?thesis
      using assms(2,3) t by (simp add: next_batch_def Let_def flip: wanted_def)
  qed
qed

lemma next_batch_other: "cursors r i = None \<or> (\<exists>e. cursors r i = Some e \<and> entry_ns e \<noteq> ns) \<Longrightarrow>
    is_raise 43 (fst (next_batch now i ns n r)) \<and> snd (next_batch now i ns n r) = r"
  by (auto simp: next_batch_def error_simps)

lemma next_batch_ok: "registry_ok r \<Longrightarrow> registry_ok (snd (next_batch now i ns n r))"
proof (cases "\<exists>e. cursors r i = Some e \<and> entry_ns e = ns")
  case True
  then obtain e where e: "cursors r i = Some e" "entry_ns e = ns" by blast
  assume ok: "registry_ok r"
  show ?thesis
    unfolding next_batch_eq [OF ok e] Let_def
    using ok registry_ok_entry [OF ok e(1)] by (auto simp: registry_ok_def entry_ok_def)
next
  case False
  assume "registry_ok r"
  moreover from False have "cursors r i = None \<or> (\<exists>e. cursors r i = Some e \<and> entry_ns e \<noteq> ns)"
    by (cases "cursors r i") auto
  then have "snd (next_batch now i ns n r) = r" using next_batch_other by blast
  ultimately show ?thesis by simp
qed

lemma tail_of_ok: "registry_ok r \<Longrightarrow> registry_ok (snd (tail_of now i ns r))"
  by (auto simp: tail_of_def registry_ok_def entry_ok_def split: option.split)

lemma advance_tail_ok: "registry_ok r \<Longrightarrow> registry_ok (advance_tail i seq r)"
  by (auto simp: advance_tail_def registry_ok_def entry_ok_def split: option.split)

interpretation cursor_machine: machine cursor_step registry_ok
proof
  fix x r assume ok: "registry_ok r"
  then show "registry_ok (snd (cursor_step x r))"
  proof (cases x)
    case (Open now ns docs)
    with ok show ?thesis by (auto simp: open_cursor_def entry_ok_def intro: emplace_ok)
  next
    case (Open_tail now ns st)
    with ok show ?thesis by (auto simp: open_tail_def entry_ok_def intro: emplace_ok)
  next
    case (Kill i)
    with ok show ?thesis by (auto simp: kill_def registry_ok_def)
  next
    case Kill_all
    with ok show ?thesis by (auto simp: kill_all_def registry_ok_def)
  qed (simp_all add: next_batch_ok tail_of_ok advance_tail_ok)
qed

lemma fresh_registry_ok: "registry_ok fresh_registry"
  by (simp add: registry_ok_def fresh_registry_def)

section \<open>Ids are never reused\<close>

definition dead :: "int \<Rightarrow> registry \<Rightarrow> bool" where
  "dead i r \<longleftrightarrow> i < next_id r \<and> cursors r i = None"

lemma emplace_dead: "dead i r \<Longrightarrow> dead i (snd (emplace now e r))"
  by (auto simp: dead_def emplace_def Let_def expire_idle_None)

lemma step_dead: "dead i r \<Longrightarrow> dead i (snd (cursor_step x r))"
proof (cases x)
  case (Open now ns docs)
  then show "dead i r \<Longrightarrow> ?thesis" by (simp add: open_cursor_def emplace_dead)
next
  case (Open_tail now ns st)
  then show "dead i r \<Longrightarrow> ?thesis" by (simp add: open_tail_def emplace_dead)
qed (auto simp: dead_def tail_of_def advance_tail_def next_batch_def kill_def kill_all_def Let_def
    split: option.split prod.split)

lemma run_dead: "dead i r \<Longrightarrow> dead i (final_state cursor_step xs r)"
  by (induction xs arbitrary: r) (simp_all add: step_dead)

lemma emplace_next_id: "next_id r \<le> next_id (snd (emplace now e r))"
  by (simp add: emplace_def Let_def)

lemma step_next_id: "next_id r \<le> next_id (snd (cursor_step x r))"
  by (cases x) (auto simp: open_cursor_def open_tail_def emplace_next_id tail_of_def advance_tail_def
      next_batch_def kill_def kill_all_def Let_def split: option.split prod.split)

section \<open>Every document exactly once\<close>

text \<open>What one operation hands out of cursor \<open>i\<close>, and whether it says that was the last.\<close>

fun handed_out :: "int \<Rightarrow> cursor_op \<Rightarrow> cursor_reply \<Rightarrow> document list" where
  "handed_out i (Next_batch _ j _ _) (Batch (Inr (docs, _))) = (if j = i then docs else [])"
| "handed_out _ _ _ = []"

fun says_exhausted :: "int \<Rightarrow> cursor_op \<Rightarrow> cursor_reply \<Rightarrow> bool" where
  "says_exhausted i (Next_batch _ j _ _) (Batch (Inr (_, e))) = (j = i \<and> e)"
| "says_exhausted _ _ _ = False"

fun delivered :: "int \<Rightarrow> cursor_op list \<Rightarrow> registry \<Rightarrow> document list" where
  "delivered i [] r = []"
| "delivered i (x # xs) r =
     handed_out i x (fst (cursor_step x r)) @ delivered i xs (snd (cursor_step x r))"

fun exhausted_in :: "int \<Rightarrow> cursor_op list \<Rightarrow> registry \<Rightarrow> bool" where
  "exhausted_in i [] r = False"
| "exhausted_in i (x # xs) r =
     (says_exhausted i x (fst (cursor_step x r)) \<or> exhausted_in i xs (snd (cursor_step x r)))"

definition left_of :: "cursor_entry \<Rightarrow> document list" where
  "left_of e = drop (offset e) (remaining e)"

text \<open>One step on a cursor: it stays with what it did not hand out, or it goes away.\<close>

definition step_delivers :: "int \<Rightarrow> cursor_entry \<Rightarrow> cursor_op \<Rightarrow> registry \<Rightarrow> bool" where
  "step_delivers i e x r \<longleftrightarrow>
     (let out = handed_out i x (fst (cursor_step x r));
          last = says_exhausted i x (fst (cursor_step x r))
      in case cursors (snd (cursor_step x r)) i of
        Some e' \<Rightarrow> left_of e = out @ left_of e' \<and> \<not> last \<and> \<not> tailing e'
      | None \<Rightarrow> if last then out = left_of e else out = [])"

lemma emplace_keeps:
  assumes "registry_ok r" and "cursors r i = Some e" and "\<not> tailing e"
    and "cursors (snd (emplace now e1 r)) i = Some e'"
  shows "left_of e = left_of e' \<and> \<not> tailing e'"
  using registry_ok_entry [OF assms(1,2)] assms(2-4)
  by (auto simp: emplace_def Let_def expire_idle_Some split: if_splits)

lemma step_delivers:
  assumes "registry_ok r" and e: "cursors r i = Some e" and t: "\<not> tailing e"
  shows "step_delivers i e x r"
proof (cases x)
  case (Open now ns docs)
  then show ?thesis
    using assms(2,3) by (auto simp: step_delivers_def open_cursor_def Let_def split: option.splits
        dest: emplace_keeps [OF assms])
next
  case (Open_tail now ns st)
  then show ?thesis
    by (auto simp: step_delivers_def open_tail_def Let_def split: option.splits
        dest: emplace_keeps [OF assms])
next
  case (Next_batch now j ns n)
  show ?thesis
  proof (cases "j = i \<and> entry_ns e = ns")
    case True
    define wanted where "wanted = (if 0 < sint n then nat (sint n) else length (remaining e))"
    have step: "next_batch now i ns n r =
        (Inr (take wanted (left_of e), length (left_of e) \<le> wanted),
         r\<lparr>cursors := (cursors r)(i := if length (left_of e) \<le> wanted then None
             else Some (e\<lparr>last_used_seconds := now, offset := offset e + wanted\<rparr>))\<rparr>)"
      using next_batch_eq [OF assms(1) e, of ns now n] True
      by (simp only: left_of_def wanted_def Let_def)
    have "left_of (e\<lparr>last_used_seconds := now, offset := offset e + wanted\<rparr>) = drop wanted (left_of e)"
      by (simp add: left_of_def add.commute)
    then show ?thesis
      using True t by (simp add: Next_batch step_delivers_def step)
  next
    case False
    show ?thesis
    proof (cases "j = i")
      case True
      with False e have "cursors r i = None \<or> (\<exists>e. cursors r i = Some e \<and> entry_ns e \<noteq> ns)" by auto
      from next_batch_other [OF this, of now n] obtain er where
        "next_batch now i ns n r = (Inl er, r)"
        by (cases "next_batch now i ns n r"; cases "fst (next_batch now i ns n r)") auto
      then show ?thesis using e t True by (simp add: Next_batch step_delivers_def)
    next
      case False
      then have "cursors (snd (next_batch now j ns n r)) i = Some e"
        using e by (auto simp: next_batch_def Let_def split: option.split prod.split)
      moreover obtain o1 r1 where o1: "next_batch now j ns n r = (o1, r1)" by fastforce
      moreover have "handed_out i x (Batch o1) = [] \<and> \<not> says_exhausted i x (Batch o1)"
        using False by (cases o1) (auto simp: Next_batch)
      ultimately show ?thesis using t by (simp add: Next_batch step_delivers_def)
    qed
  qed
qed (use e t in \<open>auto simp: step_delivers_def tail_of_def advance_tail_def kill_def kill_all_def
      left_of_def split: option.split\<close>)

lemma dead_delivers:
  "dead i r \<Longrightarrow> delivered i xs r = [] \<and> \<not> exhausted_in i xs r"
proof (induction xs arbitrary: r)
  case (Cons x xs)
  have "handed_out i x (fst (cursor_step x r)) = [] \<and> \<not> says_exhausted i x (fst (cursor_step x r))"
  proof (cases x)
    case (Next_batch now j ns n)
    then show ?thesis
      using Cons.prems next_batch_other [of r i ns now n]
      by (cases "j = i"; cases "fst (next_batch now j ns n r)") (auto simp: dead_def)
  qed simp_all
  with Cons.IH [OF step_dead [OF Cons.prems]] show ?case by simp
qed simp

text \<open>C32. Every document exactly once, in order: whatever is done to the registry meanwhile (other
  cursors, other batch sizes, wrong namespaces, kills, idle expiry), what a cursor has handed out
  is a prefix of what it held; while it is open the rest is still there, and once a batch says
  that the cursor is exhausted everything has been handed out.\<close>

theorem cursor_delivers_exactly_once:
  assumes "registry_ok r" and "cursors r i = Some e" and "\<not> tailing e"
  shows "\<exists>rest. left_of e = delivered i xs r @ rest
    \<and> (exhausted_in i xs r \<longrightarrow> rest = [])
    \<and> (\<forall>e'. cursors (final_state cursor_step xs r) i = Some e' \<longrightarrow> rest = left_of e')"
  using assms
proof (induction xs arbitrary: r e)
  case (Cons x xs)
  let ?r = "snd (cursor_step x r)"
  note d = step_delivers [OF Cons.prems, of x]
  have ok: "registry_ok ?r" by (rule cursor_machine.step_inv [OF Cons.prems(1)])
  show ?case
  proof (cases "cursors ?r i")
    case None
    have "i < next_id ?r"
      using registry_ok_entry [OF Cons.prems(1,2)] step_next_id [of r x] by simp
    then have dead: "dead i ?r" using None by (simp add: dead_def)
    then have "cursors (final_state cursor_step xs ?r) i = None"
      using run_dead by (simp add: dead_def)
    moreover from d None have "if says_exhausted i x (fst (cursor_step x r))
        then handed_out i x (fst (cursor_step x r)) = left_of e
        else handed_out i x (fst (cursor_step x r)) = []"
      by (simp add: step_delivers_def Let_def)
    ultimately show ?thesis using dead_delivers [OF dead, of xs] by (auto split: if_splits)
  next
    case (Some e')
    with d have le: "left_of e = handed_out i x (fst (cursor_step x r)) @ left_of e'"
      and "\<not> says_exhausted i x (fst (cursor_step x r))" and t: "\<not> tailing e'"
      by (simp_all add: step_delivers_def Let_def)
    moreover from Cons.IH [OF ok Some t] obtain rest where
      "left_of e' = delivered i xs ?r @ rest" "exhausted_in i xs ?r \<longrightarrow> rest = []"
      "\<forall>e''. cursors (final_state cursor_step xs ?r) i = Some e'' \<longrightarrow> rest = left_of e''" by blast
    ultimately show ?thesis by (intro exI [of _ rest]) simp
  qed
qed simp

theorem cursor_delivers_exactly_once_witness:
  "\<exists>rest. [[(''n'', BNull)], [(''n'', BBool True)]] =
      delivered 1 [Next_batch 5 1 ''d.c'' 1, Kill 9, Next_batch 6 1 ''d.c'' 1]
        (snd (open_cursor 0 ''d.c'' [[(''n'', BNull)], [(''n'', BBool True)]] fresh_registry)) @ rest
    \<and> (exhausted_in 1 [Next_batch 5 1 ''d.c'' 1, Kill 9, Next_batch 6 1 ''d.c'' 1]
        (snd (open_cursor 0 ''d.c'' [[(''n'', BNull)], [(''n'', BBool True)]] fresh_registry))
          \<longrightarrow> rest = [])"
proof -
  let ?r = "snd (open_cursor 0 ''d.c'' [[(''n'', BNull)], [(''n'', BBool True)]] fresh_registry)"
  let ?e = "\<lparr>entry_ns = ''d.c'', remaining = [[(''n'', BNull)], [(''n'', BBool True)]], offset = 0,
    last_used_seconds = 0, tailing = False, tail = fresh_tail\<rparr>"
  have "registry_ok ?r"
    using cursor_machine.step_inv [OF fresh_registry_ok, of "Open 0 ''d.c'' [[(''n'', BNull)], [(''n'', BBool True)]]"]
    by simp
  moreover have "cursors ?r 1 = Some ?e"
    by (simp add: open_cursor_def emplace_def fresh_registry_def expire_idle_def)
  ultimately have "\<exists>rest. left_of ?e = delivered 1 [Next_batch 5 1 ''d.c'' 1, Kill 9, Next_batch 6 1 ''d.c'' 1] ?r @ rest
      \<and> (exhausted_in 1 [Next_batch 5 1 ''d.c'' 1, Kill 9, Next_batch 6 1 ''d.c'' 1] ?r \<longrightarrow> rest = [])"
    using cursor_delivers_exactly_once [of ?r 1 ?e] by fastforce
  then show ?thesis by (simp add: left_of_def)
qed

text \<open>An id is never used twice: once a cursor is exhausted, killed or expired, no later
  operation brings its id back, a getMore on it is CursorNotFound forever, and no cursor opened
  later is given that id, so a stale client can never read another client's documents.\<close>

theorem cursor_ids_never_reused:
  assumes "i < next_id r" and "cursors r i = None" and "1 \<le> i"
  shows "is_raise 43 (fst (next_batch now i ns n (final_state cursor_step xs r)))
    \<and> fst (open_cursor now ns docs (final_state cursor_step xs r)) \<noteq> Inr i"
proof -
  from assms(1,2) have "dead i (final_state cursor_step xs r)"
    by (intro run_dead) (simp add: dead_def)
  then show ?thesis
    using assms(3) next_batch_other [of "final_state cursor_step xs r" i ns now n]
    by (auto simp: dead_def open_cursor_def emplace_def Let_def)
qed

theorem cursor_ids_never_reused_witness:
  "is_raise 43 (fst (next_batch 7 1 ''d.c'' 0 (final_state cursor_step
      [Open 3 ''d.c'' [[]]] (snd (kill 1 (snd (open_cursor 0 ''d.c'' [[]] fresh_registry)))))))"
  using cursor_ids_never_reused [of 1 "snd (kill 1 (snd (open_cursor 0 ''d.c'' [[]] fresh_registry)))"
      7 "''d.c''" 0 "[Open 3 ''d.c'' [[]]]" "[]"]
  by (simp add: kill_def open_cursor_def emplace_def fresh_registry_def expire_idle_def)
end
