(* ===== verification/Paths.thy ===== *)
theory Paths
  imports Bson
begin

text \<open>
  What the path operations of bson.cpp promise: the laws of reading after writing
  (locale \<open>field_store\<close>, interpreted on \<open>path_get\<close>, \<open>set_in\<close> and \<open>unset_in\<close>), the exact inverse
  of \<open>split_path\<close>, and the unambiguity of \<open>to_json_path\<close>.
\<close>

section \<open>Paths and keys\<close>

text \<open>
  A path the code can follow: at least one member, and no NUL in a member. BSON field names
  are C strings, so every path that comes from a document satisfies the second part.
\<close>

definition valid_path :: "path \<Rightarrow> bool" where
  "valid_path p \<longleftrightarrow> p \<noteq> [] \<and> (\<forall>k \<in> set p. nul \<notin> set k)"

definition apart :: "path \<Rightarrow> path \<Rightarrow> bool" where
  "apart p q \<longleftrightarrow> \<not> prefix p q \<and> \<not> prefix q p"

lemma valid_path_simps [simp]:
  "\<not> valid_path []"
  "valid_path [k] \<longleftrightarrow> nul \<notin> set k"
  "valid_path (k # k' # ks) \<longleftrightarrow> nul \<notin> set k \<and> valid_path (k' # ks)"
  by (auto simp: valid_path_def)

lemma apart_sym: "apart p q = apart q p"
  by (auto simp: apart_def)

lemma apart_Cons [simp]: "apart (k # ks) (l # ls) \<longleftrightarrow> k \<noteq> l \<or> apart ks ls"
  by (auto simp: apart_def)

lemma not_apart_Nil [simp]: "\<not> apart [] p" "\<not> apart p []"
  by (auto simp: apart_def)

lemma find_field_valid [simp]: "nul \<notin> set k \<Longrightarrow> find_field d k = map_of d k"
  by (simp add: find_field_def)

section \<open>One level of a document\<close>

lemma map_of_rewrite:
  "map_of (map (\<lambda>(key, x). if key = k then (key, f x) else (key, x)) d) q
     = (if q = k then map_option f (map_of d k) else map_of d q)"
  by (induction d) auto

lemma map_of_rewrite_or_append:
  "map_of (let out = map (\<lambda>(key, x). if key = k then (key, f x) else (key, x)) d
           in if k \<in> fst ` set d then out else out @ [(k, y)]) q
     = (if q = k then Some (case map_of d k of None \<Rightarrow> y | Some x \<Rightarrow> f x) else map_of d q)"
proof (cases "k \<in> fst ` set d")
  case True
  then obtain x where "map_of d k = Some x" by (cases "map_of d k") (auto simp: map_of_eq_None_iff)
  with True show ?thesis by (simp add: Let_def map_of_rewrite)
next
  case False
  then have "map_of d k = None" by (simp add: map_of_eq_None_iff)
  with False show ?thesis by (auto simp: Let_def map_of_rewrite map_add_def split: option.split)
qed

lemma map_of_filter_neq:
  "map_of (filter (\<lambda>(key, x). key \<noteq> k) d) q = (if q = k then None else map_of d q)"
  by (induction d) auto

text \<open>What \<open>set_in\<close> puts in place of the field it descends into.\<close>

fun set_below :: "path \<Rightarrow> bson \<Rightarrow> bson option \<Rightarrow> bson" where
  "set_below ks v (Some (BDocument c)) = BDocument (set_in c ks v)"
| "set_below ks v (Some (BArray c)) = BArray (set_in c ks v)"
| "set_below ks v _ = BDocument (set_in [] ks v)"

fun unset_below :: "path \<Rightarrow> bson \<Rightarrow> bson" where
  "unset_below ks (BDocument c) = BDocument (unset_in c ks)"
| "unset_below ks (BArray c) = BArray (unset_in c ks)"
| "unset_below ks x = x"

lemma set_below_Some: "set_below ks v (Some x) = (case x of
      BDocument c \<Rightarrow> BDocument (set_in c ks v)
    | BArray c \<Rightarrow> BArray (set_in c ks v)
    | _ \<Rightarrow> BDocument (set_in [] ks v))"
  by (cases x) simp_all

lemma unset_below_case: "unset_below ks x = (case x of
      BDocument c \<Rightarrow> BDocument (unset_in c ks)
    | BArray c \<Rightarrow> BArray (unset_in c ks)
    | _ \<Rightarrow> x)"
  by (cases x) simp_all

lemma map_of_set_last [path_simps]:
  "map_of (set_in d [k] v) q = (if q = k then Some v else map_of d q)"
proof -
  have "map_of (set_in d [k] v) q
      = (if q = k then Some (case map_of d k of None \<Rightarrow> v | Some x \<Rightarrow> (\<lambda>_. v) x) else map_of d q)"
    unfolding set_in.simps by (rule map_of_rewrite_or_append)
  then show ?thesis by (simp split: option.split)
qed

lemma map_of_set_deep [path_simps]:
  "map_of (set_in d (k # k' # ks) v) q
     = (if q = k then Some (set_below (k' # ks) v (map_of d k)) else map_of d q)"
proof -
  have "map_of (set_in d (k # k' # ks) v) q
      = (if q = k then Some (case map_of d k of None \<Rightarrow> BDocument (set_in [] (k' # ks) v)
           | Some x \<Rightarrow> set_below (k' # ks) v (Some x)) else map_of d q)"
    unfolding set_in.simps(3) set_below_Some [symmetric] by (rule map_of_rewrite_or_append)
  then show ?thesis by (simp split: option.split)
qed

lemma map_of_unset_last [path_simps]:
  "map_of (unset_in d [k]) q = (if q = k then None else map_of d q)"
  by (simp add: map_of_filter_neq)

lemma map_of_unset_deep [path_simps]:
  "map_of (unset_in d (k # k' # ks)) q
     = (if q = k then map_option (unset_below (k' # ks)) (map_of d k) else map_of d q)"
  unfolding unset_in.simps(3) unset_below_case [symmetric] by (rule map_of_rewrite)

declare set_in.simps(2,3) [simp del] unset_in.simps(2,3) [simp del]

lemma sub_fields_set_below:
  "sub_fields (set_below ks v w) =
     Some (set_in (case w of None \<Rightarrow> [] | Some x \<Rightarrow> (case sub_fields x of None \<Rightarrow> [] | Some c \<Rightarrow> c)) ks v)"
  by (induction ks v w rule: set_below.induct) auto

lemma sub_fields_unset_below:
  "sub_fields (unset_below ks x) = map_option (\<lambda>c. unset_in c ks) (sub_fields x)"
  by (cases x) auto

section \<open>The laws\<close>

lemma path_get_Nil_doc: "valid_path p \<Longrightarrow> path_get [] p = None"
  by (induction p rule: induct_list012) auto

lemma path_get_deep:
  "path_get d (k # k' # ks) =
     (case find_field d k of
        None \<Rightarrow> None
      | Some v \<Rightarrow> (case sub_fields v of None \<Rightarrow> None | Some c \<Rightarrow> path_get c (k' # ks)))"
  by simp

declare path_get.simps(3) [simp del]

lemma path_get_set_in: "valid_path p \<Longrightarrow> path_get (set_in d p v) p = Some v"
proof (induction p arbitrary: d rule: induct_list012)
  case (3 k k' ks)
  then show ?case by (simp add: path_get_deep path_simps sub_fields_set_below)
qed (simp_all add: path_simps)

lemma path_get_set_in_apart:
  "valid_path p \<Longrightarrow> valid_path q \<Longrightarrow> apart p q \<Longrightarrow> path_get (set_in d p v) q = path_get d q"
proof (induction p arbitrary: d q rule: induct_list012)
  case (2 k)
  then obtain l ls where q: "q = l # ls" and "l \<noteq> k" by (cases q) auto
  with 2 show ?case by (cases ls) (auto simp: path_get_deep path_simps)
next
  case (3 k k' ks)
  then obtain l ls where q: "q = l # ls" by (cases q) auto
  show ?case
  proof (cases "l = k")
    case False
    with 3 q show ?thesis by (cases ls) (auto simp: path_get_deep path_simps)
  next
    case True
    with 3 q obtain l' ls' where ls: "ls = l' # ls'" by (cases ls) auto
    have IH: "path_get (set_in c (k' # ks) v) ls = path_get c ls" for c
      by (rule 3) (use 3 q ls True in auto)
    have "valid_path ls" using 3 q ls by simp
    with IH [of "[]"] have "path_get (set_in [] (k' # ks) v) ls = None"
      by (simp add: path_get_Nil_doc)
    with IH 3 q ls True show ?thesis
      by (auto simp: path_get_deep path_simps sub_fields_set_below split: option.splits)
  qed
qed auto

lemma path_get_unset_in: "valid_path p \<Longrightarrow> path_get (unset_in d p) p = None"
proof (induction p arbitrary: d rule: induct_list012)
  case (3 k k' ks)
  then show ?case by (auto simp: path_get_deep path_simps sub_fields_unset_below split: option.splits)
qed (simp_all add: path_simps)

lemma path_get_unset_in_apart:
  "valid_path p \<Longrightarrow> valid_path q \<Longrightarrow> apart p q \<Longrightarrow> path_get (unset_in d p) q = path_get d q"
proof (induction p arbitrary: d q rule: induct_list012)
  case (2 k)
  then obtain l ls where q: "q = l # ls" and "l \<noteq> k" by (cases q) auto
  with 2 show ?case by (cases ls) (auto simp: path_get_deep path_simps)
next
  case (3 k k' ks)
  then obtain l ls where q: "q = l # ls" by (cases q) auto
  show ?case
  proof (cases "l = k")
    case False
    with 3 q show ?thesis by (cases ls) (auto simp: path_get_deep path_simps)
  next
    case True
    with 3 q obtain l' ls' where ls: "ls = l' # ls'" by (cases ls) auto
    have IH: "path_get (unset_in c (k' # ks)) ls = path_get c ls" for c
      by (rule 3) (use 3 q ls True in auto)
    with 3 q ls True show ?thesis
      by (auto simp: path_get_deep path_simps sub_fields_unset_below split: option.splits)
  qed
qed auto

text \<open>Removing a field never creates one.\<close>

lemma path_get_unset_in_None:
  "valid_path p \<Longrightarrow> valid_path q \<Longrightarrow> path_get d q = None \<Longrightarrow> path_get (unset_in d p) q = None"
proof (induction p arbitrary: d q rule: induct_list012)
  case (2 k)
  then obtain l ls where q: "q = l # ls" by (cases q) auto
  with 2 show ?case by (cases ls) (auto simp: path_get_deep path_simps split: option.splits)
next
  case (3 k k' ks)
  then obtain l ls where q: "q = l # ls" by (cases q) auto
  show ?case
  proof (cases ls)
    case Nil
    with 3 q show ?thesis by (auto simp: path_simps)
  next
    case (Cons l' ls')
    have IH: "path_get c ls = None \<Longrightarrow> path_get (unset_in c (k' # ks)) ls = None" for c
      by (rule 3) (use 3 q Cons in auto)
    with 3 q Cons show ?thesis
      by (auto simp: path_get_deep path_simps sub_fields_unset_below split: option.splits if_splits)
  qed
qed auto

section \<open>The interface of a field store\<close>

text \<open>
  What the update, projection and sort code relies on when it calls \<open>path_get\<close>, \<open>path_set\<close>
  and \<open>path_unset\<close>: reading what was written, leaving the rest alone, and never creating a
  field by removing one. The loops of those components write or remove a list of paths; their
  lemmas are proved here once.
\<close>

locale field_store =
  fixes get :: "'d \<Rightarrow> 'p \<Rightarrow> 'v option" and put :: "'d \<Rightarrow> 'p \<Rightarrow> 'v \<Rightarrow> 'd"
    and del :: "'d \<Rightarrow> 'p \<Rightarrow> 'd" and ok :: "'p \<Rightarrow> bool" and sep :: "'p \<Rightarrow> 'p \<Rightarrow> bool"
  assumes get_put: "ok p \<Longrightarrow> get (put d p v) p = Some v"
    and get_put_sep: "ok p \<Longrightarrow> ok q \<Longrightarrow> sep p q \<Longrightarrow> get (put d p v) q = get d q"
    and get_del: "ok p \<Longrightarrow> get (del d p) p = None"
    and get_del_sep: "ok p \<Longrightarrow> ok q \<Longrightarrow> sep p q \<Longrightarrow> get (del d p) q = get d q"
    and get_del_None: "ok p \<Longrightarrow> ok q \<Longrightarrow> get d q = None \<Longrightarrow> get (del d p) q = None"
    and sep_sym: "sep p q = sep q p"
begin

lemma get_fold_put_sep:
  "ok q \<Longrightarrow> (\<And>p v. (p, v) \<in> set pvs \<Longrightarrow> ok p \<and> sep p q) \<Longrightarrow>
    get (foldl (\<lambda>d (p, v). put d p v) d pvs) q = get d q"
proof (induction pvs arbitrary: d)
  case (Cons a pvs)
  obtain p v where a: "a = (p, v)" by (cases a)
  have pq: "ok p" "sep p q" using Cons.prems(2) [of p v] a by auto
  have "get (foldl (\<lambda>d (p, v). put d p v) (put d p v) pvs) q = get (put d p v) q"
    by (rule Cons.IH) (use Cons.prems in auto)
  with pq Cons.prems(1) a show ?case by (simp add: get_put_sep)
qed simp

lemma get_fold_put:
  "(\<And>p v. (p, v) \<in> set pvs \<Longrightarrow> ok p) \<Longrightarrow> sorted_wrt (\<lambda>a b. sep (fst a) (fst b)) pvs \<Longrightarrow>
    (p, v) \<in> set pvs \<Longrightarrow> get (foldl (\<lambda>d (p, v). put d p v) d pvs) p = Some v"
proof (induction pvs arbitrary: d)
  case (Cons a pvs)
  obtain r w where a: "a = (r, w)" by (cases a)
  show ?case
  proof (cases "(p, v) = a")
    case True
    have "get (foldl (\<lambda>d (p, v). put d p v) (put d p v) pvs) p = get (put d p v) p"
    proof (rule get_fold_put_sep)
      show "ok p" by (rule Cons.prems(1) [of p v]) (simp add: True)
    next
      fix q u assume "(q, u) \<in> set pvs"
      then show "ok q \<and> sep q p"
        using Cons.prems(1) [of q u] Cons.prems(2) True sep_sym [of p q] by fastforce
    qed
    then show ?thesis using Cons.prems(1) [of p v] True by (auto simp: get_put)
  next
    case False
    with Cons a show ?thesis by auto
  qed
qed simp

lemma get_fold_del_sep:
  "ok q \<Longrightarrow> (\<And>p. p \<in> set ps \<Longrightarrow> ok p \<and> sep p q) \<Longrightarrow> get (foldl del d ps) q = get d q"
  by (induction ps arbitrary: d) (auto simp: get_del_sep)

lemma get_fold_del_None:
  "ok q \<Longrightarrow> (\<And>p. p \<in> set ps \<Longrightarrow> ok p) \<Longrightarrow> get d q = None \<Longrightarrow> get (foldl del d ps) q = None"
  by (induction ps arbitrary: d) (auto simp: get_del_None)

lemma get_fold_del:
  "(\<And>p. p \<in> set ps \<Longrightarrow> ok p) \<Longrightarrow> q \<in> set ps \<Longrightarrow> get (foldl del d ps) q = None"
  by (induction ps arbitrary: d) (auto simp: get_del get_fold_del_None)

end

interpretation doc_store: field_store path_get set_in unset_in valid_path apart
  by unfold_locales
    (auto simp: path_get_set_in path_get_set_in_apart path_get_unset_in path_get_unset_in_apart
      path_get_unset_in_None apart_sym)

section \<open>Splitting and joining\<close>

fun join_path :: "path \<Rightarrow> string" where
  "join_path [] = []"
| "join_path [m] = m"
| "join_path (m # ms) = m @ ''.'' @ join_path ms"

definition dotless :: "path \<Rightarrow> bool" where
  "dotless p \<longleftrightarrow> p \<noteq> [] \<and> (\<forall>m \<in> set p. m \<noteq> [] \<and> CHR ''.'' \<notin> set m)"

lemma split_dots_nonempty [simp]: "split_dots acc s \<noteq> []"
  by (induction acc s rule: split_dots.induct) auto

lemma join_split_dots: "join_path (split_dots acc s) = acc @ s"
proof (induction acc s rule: split_dots.induct)
  case (2 acc c cs)
  then show ?case by (cases "split_dots [] cs") auto
qed simp

lemma split_dots_dotless:
  "CHR ''.'' \<notin> set acc \<Longrightarrow> m \<in> set (split_dots acc s) \<Longrightarrow> CHR ''.'' \<notin> set m"
  by (induction acc s rule: split_dots.induct) (auto split: if_splits)

lemma split_dots_append:
  "CHR ''.'' \<notin> set m \<Longrightarrow> split_dots acc (m @ CHR ''.'' # s) = (acc @ m) # split_dots [] s"
  by (induction m arbitrary: acc) auto

lemma split_dots_last: "CHR ''.'' \<notin> set m \<Longrightarrow> split_dots acc m = [acc @ m]"
  by (induction m arbitrary: acc) auto

lemma split_dots_join: "dotless p \<Longrightarrow> split_dots [] (join_path p) = p"
  by (induction p rule: join_path.induct) (auto simp: dotless_def split_dots_last split_dots_append)

definition split_path_opt :: "string \<Rightarrow> path option" where
  "split_path_opt s = (case split_path s of Inl _ \<Rightarrow> None | Inr p \<Rightarrow> Some p)"

lemma split_path_Inr: "split_path s = Inr p \<Longrightarrow> dotless p \<and> join_path p = s"
  using split_dots_dotless [of "[]" _ s]
  by (auto simp: split_path_def Let_def dotless_def join_split_dots split: if_splits)

lemma split_path_join: "dotless p \<Longrightarrow> split_path (join_path p) = Inr p"
  by (simp add: split_path_def split_dots_join) (auto simp: dotless_def)

interpretation dotted: canonical_codec join_path split_path_opt dotless
  by unfold_locales
    (auto simp: split_path_opt_def split_path_join split: sum.splits dest: split_path_Inr)

lemma split_path_cases:
  "split_path s = Inr p \<longleftrightarrow> dotless p \<and> s = join_path p"
  using dotted.dec_Some_iff [of s p] by (simp add: split_path_opt_def split: sum.splits)

section \<open>JSON paths are unambiguous\<close>

text \<open>A reader of the quoted form: characters up to the closing quote, then the rest.\<close>

fun unquote :: "string \<Rightarrow> string \<times> string" where
  "unquote [] = ([], [])"
| "unquote (c # cs) =
     (if c = quote_char then ([], cs)
      else if c = backslash then
        (case cs of [] \<Rightarrow> ([], []) | d # ds \<Rightarrow> (case unquote ds of (m, r) \<Rightarrow> (d # m, r)))
      else (case unquote cs of (m, r) \<Rightarrow> (c # m, r)))"

lemma quote_not_backslash [simp]: "quote_char \<noteq> backslash" "backslash \<noteq> quote_char"
  by (simp_all add: quote_char_def backslash_def)

lemma unquote_escape: "unquote (concat (map escape_char m) @ quote_char # r) = (m, r)"
  by (induction m) (auto simp: escape_char_def)

lemma json_member_inject:
  assumes "json_member m @ r = json_member n @ t"
  shows "m = n \<and> r = t"
proof -
  have "concat (map escape_char m) @ quote_char # r = concat (map escape_char n) @ quote_char # t"
    using assms by (simp add: json_member_def)
  then show ?thesis by (metis unquote_escape prod.inject)
qed

lemma json_member_not_Nil: "json_member m \<noteq> []"
  by (simp add: json_member_def)

lemma json_members_inject:
  "concat (map json_member p) = concat (map json_member q) \<Longrightarrow> p = q"
proof (induction p arbitrary: q)
  case Nil
  then show ?case by (cases q) (auto simp: json_member_not_Nil)
next
  case (Cons m p)
  then obtain n r where q: "q = n # r" by (cases q) (auto simp: json_member_not_Nil)
  then have "json_member m @ concat (map json_member p) = json_member n @ concat (map json_member r)"
    using Cons.prems by simp
  then have "m = n" and "concat (map json_member p) = concat (map json_member r)"
    by (auto dest: json_member_inject)
  with Cons.IH q show ?case by simp
qed

section \<open>Arrays\<close>

lemma array_values_make_array: "array_values (BArray (make_array vs)) = Inr vs"
  by (simp add: array_values_def make_array_def comp_def map_nth)

lemma length_make_array [simp]: "length (make_array vs) = length vs"
  by (simp add: make_array_def)

section \<open>Properties\<close>

text \<open>
  Setting a field and reading it back gives the value set, whatever the document held
  on the way (scalars on the path are replaced by documents, arrays stay arrays, repeated
  keys are all rewritten), and every path that neither contains nor is contained in the one
  set reads as before.
\<close>

theorem path_set_then_get:
  assumes "valid_path p" and "path_set d p v = Inr d'"
  shows "path_get d' p = Some v \<and> (\<forall>q. valid_path q \<and> apart p q \<longrightarrow> path_get d' q = path_get d q)"
proof -
  have "d' = set_in d p v" using assms by (auto simp: path_set_def split: if_splits)
  with assms(1) show ?thesis by (simp add: doc_store.get_put doc_store.get_put_sep)
qed

theorem path_set_then_get_witness:
  "path_get [(''a'', BDocument [(''b'', BInt32 1), (''c'', BBool True)])] [''a'', ''b''] = Some (BInt32 1)"
proof -
  let ?d = "[(''a'', BDocument [(''b'', BInt32 1), (''c'', BBool True)])]"
  have "path_set [(''a'', BDocument [(''c'', BBool True)])] [''a'', ''b''] (BInt32 1) =
      Inr [(''a'', BDocument [(''c'', BBool True), (''b'', BInt32 1)])]"
    by (simp add: path_set_def set_in.simps)
  have "path_set ?d [''a'', ''b''] (BInt32 1) = Inr ?d" and "valid_path [''a'', ''b'']"
    by (simp_all add: path_set_def set_in.simps nul_def)
  from path_set_then_get [OF this(2) this(1)] show ?thesis by simp
qed

text \<open>
  Unsetting a field leaves nothing to read at its path, changes no path apart from it,
  and never makes a path readable that was not.
\<close>

theorem path_unset_then_get:
  assumes "valid_path p" and "path_unset d p = Inr d'"
  shows "path_get d' p = None
    \<and> (\<forall>q. valid_path q \<and> apart p q \<longrightarrow> path_get d' q = path_get d q)
    \<and> (\<forall>q. valid_path q \<and> path_get d q = None \<longrightarrow> path_get d' q = None)"
proof -
  have "d' = unset_in d p" using assms by (auto simp: path_unset_def split: if_splits)
  with assms(1) show ?thesis
    by (simp add: doc_store.get_del doc_store.get_del_sep doc_store.get_del_None)
qed

theorem path_unset_then_get_witness:
  "path_get [(''a'', BDocument [(''c'', BBool True)])] [''a'', ''b''] = None"
proof -
  have "path_unset [(''a'', BDocument [(''b'', BInt32 1), (''c'', BBool True)])] [''a'', ''b''] =
      Inr [(''a'', BDocument [(''c'', BBool True)])]" and "valid_path [''a'', ''b'']"
    by (simp_all add: path_unset_def unset_in.simps nul_def)
  from path_unset_then_get [OF this(2) this(1)] show ?thesis by simp
qed

text \<open>
  \<open>split_path\<close> and joining with dots are inverse: the split succeeds with \<open>p\<close> exactly when
  \<open>p\<close> is a non-empty list of non-empty members without dots whose joining is the input.
  Everything else, such as \<open>a..b\<close>, is refused.
\<close>

theorem split_path_join_path:
  "split_path s = Inr p \<longleftrightarrow> dotless p \<and> s = join_path p"
  by (rule split_path_cases)

text \<open>
  Two paths never share a JSON path text: the quoting of members (escaping quotes and
  backslashes) is unambiguous, so a field name cannot pretend to be a path.
\<close>

theorem to_json_path_unambiguous: "to_json_path p = to_json_path q \<longleftrightarrow> p = q"
  by (auto simp: to_json_path_def dest: json_members_inject)

end
