(* ===== verification/Filters.thy ===== *)
theory Filters
  imports Paths
begin

text \<open>
  The query compiler (src/chimera/translator/src/filter.cpp): a filter document becomes a SQL
  condition over the \<open>doc\<close> column with one \<open>?\<close> per value, and the list of the values.

  A compiled fragment is the text with the parameters its compilation pushed, in order; the
  code pushes them on one vector, in the same order. libbson's printers are parameters:
  canonical Extended JSON (None where the library returns null; \<open>to_extjson\<close> of codec.cpp turns
  that into BadValue) and the hexadecimal text of an ObjectId.
\<close>

unbundle bit_operations_syntax

section \<open>The code\<close>

record libbson =
  canonical_json :: "document \<Rightarrow> string option"
  oid_string :: "string \<Rightarrow> string"

datatype param = PNull | PBool bool | PInt int64 | PDouble double | PText string

type_synonym fragment = "string \<times> param list"

definition to_extjson :: "libbson \<Rightarrow> document \<Rightarrow> string outcome" where
  "to_extjson lib d = (case canonical_json lib d of
       None \<Rightarrow> Inl (bad_value ''document cannot be serialized as extended JSON'')
     | Some json \<Rightarrow> Inr json)"

fun join :: "string \<Rightarrow> string list \<Rightarrow> string" where
  "join joiner [] = []"
| "join joiner [p] = p"
| "join joiner (p # ps) = p @ joiner @ join joiner ps"

definition conjoin :: "string list \<Rightarrow> string \<Rightarrow> string" where
  "conjoin parts joiner = (if length parts = 1 then hd parts else ''('' @ join joiner parts @ '')'')"

definition conjoin_fragments :: "fragment list \<Rightarrow> string \<Rightarrow> fragment" where
  "conjoin_fragments parts joiner = (conjoin (map fst parts) joiner, concat (map snd parts))"

definition timestamp_ordinal :: "uint32 \<Rightarrow> uint32 \<Rightarrow> int64" where
  "timestamp_ordinal t i = push_bit 32 (ucast t) OR ucast i"

definition sq :: string where
  "sq = [CHR 0x27]"

definition quoted_member :: "string \<Rightarrow> string" where
  "quoted_member m = ''.'' @ [quote_char] @ m @ [quote_char]"

definition kWrappers :: "string list" where
  "kWrappers = ['''', quoted_member ''$numberInt'', quoted_member ''$numberLong'',
     quoted_member ''$numberDouble'', quoted_member ''$date'' @ quoted_member ''$numberLong'',
     quoted_member ''$oid'']"

definition scalar_expr :: "path \<Rightarrow> string \<Rightarrow> string" where
  "scalar_expr path doc_column =
     ''COALESCE('' @ join '',''
       (map (\<lambda>w. ''JSON_VALUE('' @ doc_column @ '','' @ sq @ to_json_path path @ w @ sq @ '')'') kWrappers)
     @ '')''"

definition extract_expr :: "string \<Rightarrow> path \<Rightarrow> string" where
  "extract_expr col path = ''JSON_EXTRACT('' @ col @ '','' @ sq @ to_json_path path @ sq @ '')''"

definition bind :: "libbson \<Rightarrow> bson \<Rightarrow> fragment outcome" where
  "bind lib v = (case v of
       BNull \<Rightarrow> Inr (''?'', [PNull])
     | BBool b \<Rightarrow> Inr (''?'', [PBool b])
     | BInt32 n \<Rightarrow> Inr (''?'', [PInt (scast n)])
     | BInt64 n \<Rightarrow> Inr (''?'', [PInt n])
     | BDouble d \<Rightarrow> Inr (''?'', [PDouble d])
     | BDateTime t \<Rightarrow> Inr (''?'', [PInt t])
     | BTimestamp t i \<Rightarrow> Inr (''?'', [PInt (timestamp_ordinal t i)])
     | BOid b \<Rightarrow> Inr (''?'', [PText (oid_string lib b)])
     | BUtf8 s \<Rightarrow> Inr (''?'', [PText s])
     | _ \<Rightarrow> Inl (not_implemented ''filter comparison against this BSON type is not supported''))"

definition bind_string :: "string \<Rightarrow> fragment" where
  "bind_string s = (''?'', [PText s])"

definition timestamp_part :: "string \<Rightarrow> path \<Rightarrow> string \<Rightarrow> string" where
  "timestamp_part col path name =
     ''CAST(JSON_VALUE('' @ col @ '','' @ sq @ to_json_path path @ quoted_member ''$timestamp''
     @ ''.'' @ name @ sq @ '') AS UNSIGNED)''"

definition comparable :: "string \<Rightarrow> path \<Rightarrow> bson \<Rightarrow> string" where
  "comparable col path against = (case against of
       BTimestamp _ _ \<Rightarrow>
         ''('' @ timestamp_part col path ''t'' @ '' * 4294967296 + '' @ timestamp_part col path ''i'' @ '')''
     | BDateTime _ \<Rightarrow> ''CAST('' @ scalar_expr path col @ '' AS DOUBLE)''
     | _ \<Rightarrow> if value_is_numeric against then ''CAST('' @ scalar_expr path col @ '' AS DOUBLE)''
           else scalar_expr path col)"

text \<open>\<open>find\<close>, \<open>rfind\<close>, \<open>find_first_not_of\<close> and \<open>find_last_not_of\<close>; None is \<open>npos\<close>.\<close>

fun index_of :: "(char \<Rightarrow> bool) \<Rightarrow> string \<Rightarrow> nat option" where
  "index_of P [] = None"
| "index_of P (c # cs) = (if P c then Some 0 else map_option Suc (index_of P cs))"

definition last_index_of :: "(char \<Rightarrow> bool) \<Rightarrow> string \<Rightarrow> nat option" where
  "last_index_of P s = map_option (\<lambda>i. length s - 1 - i) (index_of P (rev s))"

definition blank :: "char \<Rightarrow> bool" where
  "blank c \<longleftrightarrow> c = CHR '' '' \<or> c = CHR 0x09 \<or> c = CHR 0x0A"

text \<open>
  The slice of the JSON of \<open>{v: value}\<close> between the first colon and the last brace, trimmed.
  Offsets are \<open>size_t\<close>: a missing brace, or one before the colon, leaves the slice running to
  the end; a blank slice makes \<open>substr\<close> throw \<open>std::out_of_range\<close>.
\<close>

definition canonical_literal :: "libbson \<Rightarrow> bson \<Rightarrow> string outcome" where
  "canonical_literal lib v =
     and_then (to_extjson lib [(''v'', v)]) (\<lambda>json.
       let begin_at = (case index_of (\<lambda>c. c = CHR '':'') json of None \<Rightarrow> 0 | Some i \<Rightarrow> i + 1);
           rest = drop begin_at json;
           literal = (case last_index_of (\<lambda>c. c = CHR ''}'') json of
               None \<Rightarrow> rest
             | Some e \<Rightarrow> if e < begin_at then rest else take (e - begin_at) rest)
       in case (index_of (\<lambda>c. \<not> blank c) literal, last_index_of (\<lambda>c. \<not> blank c) literal) of
            (Some f, Some l) \<Rightarrow> Inr (take (l - f + 1) (drop f literal))
          | _ \<Rightarrow> Inl Std_exception)"

definition compile_eq :: "libbson \<Rightarrow> string \<Rightarrow> path \<Rightarrow> bson \<Rightarrow> fragment outcome" where
  "compile_eq lib col path v = (case v of
       BNull \<Rightarrow> Inr (scalar_expr path col @ '' IS NULL'', [])
     | BRegex r _ \<Rightarrow>
         let (mark, ps) = bind_string (c_str r)
         in Inr (scalar_expr path col @ '' REGEXP '' @ mark, ps)
     | BDocument _ \<Rightarrow>
         Inl (not_implemented ''equality against a document or array is not supported'')
     | BArray _ \<Rightarrow>
         Inl (not_implemented ''equality against a document or array is not supported'')
     | _ \<Rightarrow>
         and_then (bind lib v) (\<lambda>(mark, ps).
         and_then (canonical_literal lib v) (\<lambda>literal.
           let eq = comparable col path v @ '' = '' @ mark;
               (mark', ps') = bind_string literal;
               contains = ''JSON_CONTAINS('' @ extract_expr col path @ '', '' @ mark' @ '')''
           in Inr (''('' @ eq @ '' OR '' @ contains @ '')'', ps @ ps'))))"

definition compile_in :: "libbson \<Rightarrow> string \<Rightarrow> path \<Rightarrow> bson \<Rightarrow> bool \<Rightarrow> fragment outcome" where
  "compile_in lib col path v negated =
     and_then (array_values v) (\<lambda>members.
       if members = [] then Inr (if negated then ''1'' else ''0'', [])
       else and_then (map_res (bind lib) members) (\<lambda>frags.
         Inr (scalar_expr path col @ (if negated then '' NOT IN ('' else '' IN ('')
                @ join '', '' (map fst frags) @ '')'',
              concat (map snd frags))))"

definition compare_with :: "libbson \<Rightarrow> string \<Rightarrow> path \<Rightarrow> string \<Rightarrow> bson \<Rightarrow> fragment outcome" where
  "compare_with lib col path rel v =
     and_then (bind lib v) (\<lambda>(mark, ps). Inr (comparable col path v @ rel @ mark, ps))"

definition exists_test :: "string \<Rightarrow> path \<Rightarrow> string" where
  "exists_test col path = ''JSON_EXISTS('' @ col @ '','' @ sq @ to_json_path path @ sq @ '')''"

definition compile_exists :: "string \<Rightarrow> path \<Rightarrow> bson \<Rightarrow> fragment" where
  "compile_exists col path v =
     (let want = (case v of BBool b \<Rightarrow> b | _ \<Rightarrow> True)
      in (if want then exists_test col path else ''NOT '' @ exists_test col path, []))"

definition regex_match :: "libbson \<Rightarrow> string \<Rightarrow> path \<Rightarrow> bson \<Rightarrow> fragment outcome" where
  "regex_match lib col path v = (case v of
           BUtf8 _ \<Rightarrow> and_then (bind lib v) (\<lambda>(mark, ps).
             Inr (scalar_expr path col @ '' REGEXP '' @ mark, ps))
         | BRegex r _ \<Rightarrow>
             let (mark, ps) = bind_string (c_str r)
             in Inr (scalar_expr path col @ '' REGEXP '' @ mark, ps)
         | _ \<Rightarrow> Inl (failed_to_parse ''$regex expects a string or regex''))"

definition elem_match :: "libbson \<Rightarrow> string \<Rightarrow> path \<Rightarrow> bson \<Rightarrow> fragment outcome" where
  "elem_match lib col path v = (case v of
           BDocument view \<Rightarrow>
             if list_ex (\<lambda>f. starts_char (CHR ''$'') (fst f)) view
             then Inl (not_implemented ''$elemMatch with operators is not supported yet'')
             else and_then (to_extjson lib view) (\<lambda>json.
               let (mark, ps) = bind_string json
               in Inr (''JSON_CONTAINS('' @ extract_expr col path @ '', '' @ mark @ '')'', ps))
         | _ \<Rightarrow> Inl (failed_to_parse ''$elemMatch expects a document''))"

definition negate :: "fragment \<Rightarrow> fragment" where
  "negate f = (''NOT ('' @ fst f @ '')'', snd f)"

definition simple_operator ::
  "libbson \<Rightarrow> string \<Rightarrow> path \<Rightarrow> string \<Rightarrow> bson \<Rightarrow> fragment outcome" where
  "simple_operator lib col path op v =
     (if op = ''$eq'' then compile_eq lib col path v
      else if op = ''$ne'' then and_then (compile_eq lib col path v) (\<lambda>f. Inr (negate f))
      else if op = ''$gt'' then compare_with lib col path '' > '' v
      else if op = ''$gte'' then compare_with lib col path '' >= '' v
      else if op = ''$lt'' then compare_with lib col path '' < '' v
      else if op = ''$lte'' then compare_with lib col path '' <= '' v
      else if op = ''$in'' then compile_in lib col path v False
      else if op = ''$nin'' then compile_in lib col path v True
      else if op = ''$exists'' then
        Inr (compile_exists col path v)
      else if op = ''$regex'' then regex_match lib col path v
      else if op = ''$elemMatch'' then elem_match lib col path v
      else Inl (bad_value (''unknown operator: '' @ op)))"

text \<open>\<open>compile_operators\<close> and \<open>compile_operator\<close>, which call each other through \<open>$not\<close>.\<close>

abbreviation doc_size :: "document \<Rightarrow> nat" where
  "doc_size d \<equiv> size_list (size_prod (\<lambda>_. 0) size) d"

lemma field_size: "(k, v) \<in> set d \<Longrightarrow> size v < doc_size d"
  by (induction d) auto

function compile_operators :: "libbson \<Rightarrow> string \<Rightarrow> path \<Rightarrow> document \<Rightarrow> fragment outcome"
  and compile_operator :: "libbson \<Rightarrow> string \<Rightarrow> path \<Rightarrow> string \<times> bson \<Rightarrow> fragment outcome"
where
  "compile_operators lib col path ops =
     and_then (map_res (compile_operator lib col path) ops) (\<lambda>parts.
       Inr (conjoin_fragments parts '' AND ''))"
| "compile_operator lib col path (op, v) =
     (if op = ''$not'' then
        (case v of
           BDocument view \<Rightarrow>
             and_then (compile_operators lib col path view) (\<lambda>f. Inr (negate f))
         | _ \<Rightarrow> Inl (failed_to_parse ''$not expects an operator document''))
      else simple_operator lib col path op v)"
  by pat_completeness auto
termination
  by (relation "measure (case_sum (\<lambda>(_, _, _, ops). 4 * doc_size ops)
      (\<lambda>(_, _, _, f). 4 * size (snd f) + 1))") (auto dest: field_size)

definition branch_view :: "bson \<Rightarrow> document outcome" where
  "branch_view v = (case v of
       BDocument view \<Rightarrow> Inr view
     | _ \<Rightarrow> Inl (failed_to_parse ''logical operator branches must be documents''))"

lemma branch_view_Inr: "branch_view v = Inr d \<longleftrightarrow> v = BDocument d"
  by (cases v) (auto simp: branch_view_def)

function compile_document :: "libbson \<Rightarrow> string \<Rightarrow> document \<Rightarrow> fragment outcome"
  and compile_field :: "libbson \<Rightarrow> string \<Rightarrow> string \<times> bson \<Rightarrow> fragment outcome"
  and compile_logical :: "libbson \<Rightarrow> string \<Rightarrow> string \<Rightarrow> bson \<Rightarrow> fragment outcome"
where
  "compile_document lib col flds =
     (if flds = [] then Inr (''1'', [])
      else and_then (map_res (compile_field lib col) flds) (\<lambda>parts.
        Inr (conjoin_fragments parts '' AND '')))"
| "compile_field lib col (key, v) =
     (if key = ''$and'' then compile_logical lib col '' AND '' v
      else if key = ''$or'' then compile_logical lib col '' OR '' v
      else if key = ''$nor'' then and_then (compile_logical lib col '' OR '' v) (\<lambda>f. Inr (negate f))
      else if starts_char (CHR ''$'') key
      then Inl (not_implemented (''unsupported top-level operator '' @ sq @ key @ sq))
      else and_then (split_path key) (\<lambda>path.
        case v of
          BDocument ops \<Rightarrow>
            if ops \<noteq> [] \<and> starts_char (CHR ''$'') (fst (hd ops))
            then compile_operators lib col path ops
            else compile_eq lib col path v
        | _ \<Rightarrow> compile_eq lib col path v))"
| "compile_logical lib col joiner v =
     and_then (array_values v) (\<lambda>branches.
       if branches = [] then Inl (failed_to_parse ''logical operator requires a non-empty array'')
       else and_then (map_res (\<lambda>b. and_then (branch_view b) (compile_document lib col)) branches)
         (\<lambda>parts. Inr (conjoin_fragments parts joiner)))"
  by pat_completeness auto
termination
proof (relation "measure (case_sum (\<lambda>(_, _, d). 4 * doc_size d)
    (case_sum (\<lambda>(_, _, f). 4 * size (snd f) + 1) (\<lambda>(_, _, _, v). 4 * size v)))", goal_cases)
  case (6 lib col joiner v branches b view)
  then obtain d where d: "v = BArray d" "branches = map snd d"
    by (auto simp: array_values_def split: bson.splits)
  with 6 branch_view_Inr obtain k where "(k, BDocument view) \<in> set d" by auto
  from field_size [OF this] d show ?case by simp
qed (auto dest: field_size)

definition compile_filter :: "libbson \<Rightarrow> document \<Rightarrow> string \<Rightarrow> fragment outcome" where
  "compile_filter lib flt doc_column = compile_document lib doc_column flt"

declare compile_operators.simps [simp del] compile_operator.simps [simp del]
  compile_document.simps [simp del] compile_field.simps [simp del] compile_logical.simps [simp del]

section \<open>Placeholders\<close>

abbreviation qmark :: char where "qmark \<equiv> CHR ''?''"

definition marks :: "string \<Rightarrow> nat" where
  "marks s = count_list s qmark"

lemma marks_simps [simp]:
  "marks [] = 0" "marks (c # s) = (if c = qmark then Suc (marks s) else marks s)"
  "marks (s @ t) = marks s + marks t"
  by (simp_all add: marks_def)

lemma marks_0 [simp]: "qmark \<notin> set s \<Longrightarrow> marks s = 0"
  by (simp add: marks_def)

text \<open>One parameter per placeholder.\<close>

definition bound :: "fragment \<Rightarrow> bool" where
  "bound f \<longleftrightarrow> marks (fst f) = length (snd f)"

definition plain :: "path \<Rightarrow> bool" where
  "plain p \<longleftrightarrow> (\<forall>m \<in> set p. qmark \<notin> set m)"

lemma marks_join: "marks j = 0 \<Longrightarrow> marks (join j ps) = sum_list (map marks ps)"
  by (induction ps rule: induct_list012) auto

lemma marks_conjoin: "marks j = 0 \<Longrightarrow> marks (conjoin ps j) = sum_list (map marks ps)"
  by (cases ps) (auto simp: conjoin_def marks_join)

lemma bound_conjoin: "marks j = 0 \<Longrightarrow> list_all bound fs \<Longrightarrow> bound (conjoin_fragments fs j)"
proof -
  assume "marks j = 0" "list_all bound fs"
  then have "sum_list (map marks (map fst fs)) = length (concat (map snd fs))"
    by (induction fs) (auto simp: bound_def)
  with \<open>marks j = 0\<close> show ?thesis by (simp add: bound_def conjoin_fragments_def marks_conjoin)
qed

lemma marks_to_json_path [simp]: "plain p \<Longrightarrow> marks (to_json_path p) = 0"
proof -
  assume "plain p"
  then have "qmark \<notin> set (concat (map json_member p))"
    by (auto simp: plain_def json_member_def escape_char_def quote_char_def backslash_def split: if_splits)
  then show ?thesis by (simp add: to_json_path_def)
qed

lemma marks_sq [simp]: "marks sq = 0"
  by (simp add: sq_def)

lemma marks_scalar_expr [simp]: "plain p \<Longrightarrow> marks col = 0 \<Longrightarrow> marks (scalar_expr p col) = 0"
  by (simp add: scalar_expr_def kWrappers_def quoted_member_def quote_char_def)

lemma marks_extract_expr [simp]: "plain p \<Longrightarrow> marks col = 0 \<Longrightarrow> marks (extract_expr col p) = 0"
  by (simp add: extract_expr_def)

lemma marks_comparable [simp]: "plain p \<Longrightarrow> marks col = 0 \<Longrightarrow> marks (comparable col p v) = 0"
  by (cases v) (simp_all add: comparable_def timestamp_part_def quoted_member_def quote_char_def)

lemma bind_Inr: "bind lib v = Inr f \<Longrightarrow> \<exists>x. f = (''?'', [x])"
  by (cases v) (auto simp: bind_def)

lemma bound_bind: "bind lib v = Inr f \<Longrightarrow> bound f"
  by (drule bind_Inr) (auto simp: bound_def)

lemma bound_negate: "bound f \<Longrightarrow> bound (negate f)"
  by (simp add: bound_def negate_def)

lemma bound_compile_eq: "marks col = 0 \<Longrightarrow> plain p \<Longrightarrow> compile_eq lib col p v = Inr f \<Longrightarrow> bound f"
  by (cases v)
    (auto simp: compile_eq_def and_then_Inr_iff bound_def bind_string_def dest!: bind_Inr)

lemma bound_compile_in:
  "marks col = 0 \<Longrightarrow> plain p \<Longrightarrow> compile_in lib col p v n = Inr f \<Longrightarrow> bound f"
proof -
  assume col: "marks col = 0" and p: "plain p" and "compile_in lib col p v n = Inr f"
  then obtain ms where ms: "array_values v = Inr ms"
    and f: "(if ms = [] then Inr (if n then ''1'' else ''0'', [])
       else and_then (map_res (bind lib) ms) (\<lambda>frags.
         Inr (scalar_expr p col @ (if n then '' NOT IN ('' else '' IN ('')
                @ join '', '' (map fst frags) @ '')'',
              concat (map snd frags)))) = Inr f"
    by (auto simp: compile_in_def and_then_Inr_iff)
  show ?thesis
  proof (cases "ms = []")
    case True
    with f show ?thesis by (auto simp: bound_def)
  next
    case False
    with f obtain frags where frags: "map_res (bind lib) ms = Inr frags"
      and f: "f = (scalar_expr p col @ (if n then '' NOT IN ('' else '' IN ('')
                @ join '', '' (map fst frags) @ '')'', concat (map snd frags))"
      by (auto simp: and_then_Inr_iff)
    have "list_all2 (\<lambda>x y. bind lib x = Inr y) ms frags" using frags by (simp add: map_res_Inr_iff)
    then have "list_all bound frags"
      by (induction rule: list_all2_induct) (auto dest: bound_bind)
    then have "sum_list (map marks (map fst frags)) = length (concat (map snd frags))"
      by (induction frags) (auto simp: bound_def)
    then show ?thesis using col p unfolding f bound_def by (simp add: marks_join)
  qed
qed

lemma bound_compare_with:
  "marks col = 0 \<Longrightarrow> plain p \<Longrightarrow> marks rel = 0 \<Longrightarrow> compare_with lib col p rel v = Inr f \<Longrightarrow> bound f"
  by (auto simp: compare_with_def and_then_Inr_iff bound_def dest!: bind_Inr)

definition relations :: "string set" where
  "relations = {'' > '', '' >= '', '' < '', '' <= ''}"

lemma eq_if_elim: "r = (if b then x else y) \<Longrightarrow> (b \<Longrightarrow> r = x \<Longrightarrow> R) \<Longrightarrow> (\<not> b \<Longrightarrow> r = y \<Longrightarrow> R) \<Longrightarrow> R"
  by (cases b) auto

lemma simple_operator_cases:
  assumes "r = simple_operator lib col p op v"
  obtains (Eq) "op = ''$eq''" "r = compile_eq lib col p v"
    | (Ne) "op = ''$ne''" "r = and_then (compile_eq lib col p v) (\<lambda>f. Inr (negate f))"
    | (Rel) rel where "rel \<in> relations" "r = compare_with lib col p rel v"
    | (In) n where "r = compile_in lib col p v n"
    | (Exists) "r = Inr (compile_exists col p v)"
    | (Regex) "r = regex_match lib col p v"
    | (Elem) "r = elem_match lib col p v"
    | (Unknown) "r = Inl (bad_value (''unknown operator: '' @ op))"
proof -
  have rel: "'' > '' \<in> relations" "'' >= '' \<in> relations" "'' < '' \<in> relations" "'' <= '' \<in> relations"
    by (simp_all add: relations_def)
  show thesis
    using assms unfolding simple_operator_def
    by (elim eq_if_elim) (rule that; (assumption | rule rel))+
qed

lemma bound_simple_operator:
  "marks col = 0 \<Longrightarrow> plain p \<Longrightarrow> simple_operator lib col p op v = Inr f \<Longrightarrow> bound f"
proof -
  assume col: "marks col = 0" and p: "plain p" and a: "simple_operator lib col p op v = Inr f"
  from a [symmetric] show ?thesis
  proof (cases rule: simple_operator_cases)
    case Eq
    then show ?thesis using bound_compile_eq [OF col p, of lib v f] by simp
  next
    case Ne
    then show ?thesis
      using bound_compile_eq [OF col p, of lib v] by (auto simp: and_then_def bound_negate split: sum.splits)
  next
    case (Rel rel)
    then have "compare_with lib col p rel v = Inr f" "marks rel = 0" by (auto simp: relations_def)
    then show ?thesis using bound_compare_with [OF col p, of rel lib v f] by simp
  next
    case (In n)
    then show ?thesis using bound_compile_in [OF col p, of lib v n f] by simp
  next
    case Exists
    then show ?thesis
      using col p by (simp add: compile_exists_def exists_test_def bound_def Let_def)
  next
    case Regex
    then show ?thesis
      using col p
      by (cases v) (auto simp: regex_match_def and_then_def bound_def bind_string_def
          dest!: bind_Inr split: sum.splits)
  next
    case Elem
    then show ?thesis
      using col p by (cases v)
        (auto simp: elem_match_def and_then_def bound_def bind_string_def split: if_splits sum.splits)
  qed simp
qed

lemma map_res_all:
  "map_res g xs = Inr ys \<Longrightarrow> (\<And>x y. x \<in> set xs \<Longrightarrow> g x = Inr y \<Longrightarrow> P y) \<Longrightarrow> list_all P ys"
proof -
  assume r: "map_res g xs = Inr ys" and P: "\<And>x y. x \<in> set xs \<Longrightarrow> g x = Inr y \<Longrightarrow> P y"
  from r have "\<exists>x \<in> set xs. g x = Inr y" if "y \<in> set ys" for y
    using that by (induction xs arbitrary: ys) (auto simp: and_then_Inr_iff)
  with P show ?thesis unfolding list_all_iff by blast
qed

lemma four_cases: "(a \<Longrightarrow> P) \<Longrightarrow> (b \<Longrightarrow> P) \<Longrightarrow> (c \<Longrightarrow> P) \<Longrightarrow> (\<not> a \<Longrightarrow> \<not> b \<Longrightarrow> \<not> c \<Longrightarrow> P) \<Longrightarrow> P"
  by blast

text \<open>
  The field names of a filter that reach the text: its keys, and those of the branches of logical
  operators.
\<close>

function names_ok :: "(string \<Rightarrow> bool) \<Rightarrow> document \<Rightarrow> bool" where
  "names_ok ok d = list_all (\<lambda>(k, v). ok k \<and>
     (case v of BArray bs \<Rightarrow> list_all (\<lambda>(_, b). case b of BDocument view \<Rightarrow> names_ok ok view | _ \<Rightarrow> True) bs
      | _ \<Rightarrow> True)) d"
  by pat_completeness auto
termination
proof (relation "measure (doc_size \<circ> snd)", goal_cases)
  case (2 ok d f k v bs g i b view)
  then have "size (BArray bs) < doc_size d" "size (BDocument view) < doc_size bs"
    using field_size [of k "BArray bs" d] field_size [of i "BDocument view" bs] by auto
  then show ?case by simp
qed simp

declare names_ok.simps [simp del]

definition branch_ok :: "(string \<Rightarrow> bool) \<Rightarrow> bson \<Rightarrow> bool" where
  "branch_ok ok v = (case v of
     BArray bs \<Rightarrow> list_all (\<lambda>(_, b). case b of BDocument view \<Rightarrow> names_ok ok view | _ \<Rightarrow> True) bs
   | _ \<Rightarrow> True)"

lemma names_ok_field:
  "names_ok ok d \<Longrightarrow> field \<in> set d \<Longrightarrow> ok (fst field) \<and> branch_ok ok (snd field)"
proof -
  assume "names_ok ok d" "field \<in> set d"
  then have "(case field of (k, v) \<Rightarrow> ok k \<and> branch_ok ok v)"
    unfolding names_ok.simps [of ok d] list_all_iff branch_ok_def by (rule bspec)
  then show ?thesis by (simp add: case_prod_beta)
qed

abbreviation names_plain :: "document \<Rightarrow> bool" where
  "names_plain \<equiv> names_ok (\<lambda>k. qmark \<notin> set k)"

lemma split_dots_set: "m \<in> set (split_dots acc s) \<Longrightarrow> set m \<subseteq> set acc \<union> set s"
  by (induction acc s rule: split_dots.induct) (auto split: if_splits)

lemma split_path_set: "split_path k = Inr p \<Longrightarrow> m \<in> set p \<Longrightarrow> set m \<subseteq> set k"
  using split_dots_set [of _ "[]" k] by (auto simp: split_path_def Let_def split: if_splits)

lemma split_path_plain: "split_path k = Inr p \<Longrightarrow> qmark \<notin> set k \<Longrightarrow> plain p"
  using split_path_set by (auto simp: plain_def)

lemma compile_field_path:
  assumes "key \<noteq> ''$and''" "key \<noteq> ''$or''" "key \<noteq> ''$nor''" and "compile_field lib col (key, v) = Inr f"
  shows "\<exists>p. split_path key = Inr p \<and>
    (compile_eq lib col p v = Inr f \<or> (\<exists>ops. v = BDocument ops \<and> compile_operators lib col p ops = Inr f))"
proof -
  have e: "compile_field lib col (key, v) =
     (if starts_char (CHR ''$'') key
      then Inl (not_implemented (''unsupported top-level operator '' @ sq @ key @ sq))
      else and_then (split_path key) (\<lambda>path.
        case v of
          BDocument ops \<Rightarrow>
            if ops \<noteq> [] \<and> starts_char (CHR ''$'') (fst (hd ops))
            then compile_operators lib col path ops
            else compile_eq lib col path v
        | _ \<Rightarrow> compile_eq lib col path v))"
    using assms(1-3) by (simp only: compile_field.simps if_False)
  from assms(4) show ?thesis unfolding e
    by (cases v) (auto simp: and_then_Inr_iff split: if_splits)
qed

text \<open>
  What every compiled fragment has, when the parts it is put together from have it and its field
  names are fit for it: the induction over the compiler, once.
\<close>

definition joiners :: "string set" where
  "joiners = {'' AND '', '' OR ''}"

locale fragment_law =
  fixes good :: "fragment \<Rightarrow> bool" and nice :: "path \<Rightarrow> bool" and ok :: "string \<Rightarrow> bool"
    and at_col :: "libbson \<Rightarrow> string \<Rightarrow> bool"
  assumes good_eq: "at_col lib col \<Longrightarrow> nice p \<Longrightarrow> compile_eq lib col p v = Inr f \<Longrightarrow> good f"
    and good_simple: "at_col lib col \<Longrightarrow> nice p \<Longrightarrow> simple_operator lib col p op v = Inr f \<Longrightarrow> good f"
    and good_negate: "good f \<Longrightarrow> good (negate f)"
    and good_conjoin: "joiner \<in> joiners \<Longrightarrow> list_all good fs \<Longrightarrow> good (conjoin_fragments fs joiner)"
    and good_one: "good (''1'', [])"
    and nice_split: "split_path k = Inr p \<Longrightarrow> ok k \<Longrightarrow> nice p"
begin

lemma good_operators:
  "at_col lib col \<Longrightarrow> nice p \<Longrightarrow> compile_operators lib col p ops = Inr f \<Longrightarrow> good f"
  "at_col lib col \<Longrightarrow> nice p \<Longrightarrow> compile_operator lib col p field = Inr f \<Longrightarrow> good f"
proof (induction lib col p ops and lib col p field arbitrary: f and f
    rule: compile_operators_compile_operator.induct)
  case (1 lib col p ops)
  then obtain parts where parts: "map_res (compile_operator lib col p) ops = Inr parts"
    and f: "f = conjoin_fragments parts '' AND ''"
    by (auto simp: compile_operators.simps and_then_Inr_iff)
  have "list_all good parts" using map_res_all [OF parts] 1 by blast
  then show ?case unfolding f by (rule good_conjoin [rotated]) (simp add: joiners_def)
next
  case (2 lib col p op v)
  show ?case
  proof (cases "op = ''$not''")
    case True
    with "2.prems"(3) obtain view g where "v = BDocument view" "compile_operators lib col p view = Inr g"
        "f = negate g"
      by (cases v) (auto simp: compile_operator.simps and_then_Inr_iff)
    with 2 True show ?thesis by (simp add: good_negate)
  next
    case False
    with 2 show ?thesis using good_simple by (simp add: compile_operator.simps)
  qed
qed

lemma good_document:
  "at_col lib col \<Longrightarrow> names_ok ok d \<Longrightarrow> compile_document lib col d = Inr f \<Longrightarrow> good f"
  "at_col lib col \<Longrightarrow> ok (fst field) \<and> branch_ok ok (snd field) \<Longrightarrow>
     compile_field lib col field = Inr f \<Longrightarrow> good f"
  "at_col lib col \<Longrightarrow> branch_ok ok v \<Longrightarrow> joiner \<in> joiners \<Longrightarrow>
     compile_logical lib col joiner v = Inr f \<Longrightarrow> good f"
proof (induction lib col d and lib col field and lib col joiner v arbitrary: f and f and f
    rule: compile_document_compile_field_compile_logical.induct)
  case (1 lib col d)
  show ?case
  proof (cases "d = []")
    case True
    with "1.prems"(3) show ?thesis by (auto simp: compile_document.simps good_one)
  next
    case False
    with "1.prems"(3) obtain parts where parts: "map_res (compile_field lib col) d = Inr parts"
      and f: "f = conjoin_fragments parts '' AND ''"
      by (auto simp: compile_document.simps and_then_Inr_iff)
    have "list_all good parts"
    proof (rule map_res_all [OF parts])
      fix field g assume "field \<in> set d" "compile_field lib col field = Inr g"
      moreover have "ok (fst field) \<and> branch_ok ok (snd field)"
        using "1.prems"(2) \<open>field \<in> set d\<close> names_ok_field by blast
      ultimately show "good g" using "1.IH" False "1.prems"(1) by blast
    qed
    then show ?thesis unfolding f by (rule good_conjoin [rotated]) (simp add: joiners_def)
  qed
next
  case (2 lib col key v)
  consider "key = ''$and''" | "key = ''$or''" | "key = ''$nor''"
    | "key \<noteq> ''$and''" "key \<noteq> ''$or''" "key \<noteq> ''$nor''" by (rule four_cases)
  then show ?case
  proof cases
    case 1
    with 2 show ?thesis by (simp add: compile_field.simps joiners_def)
  next
    case 2
    with "2.IH" "2.prems" show ?thesis by (simp add: compile_field.simps joiners_def)
  next
    case 3
    with "2.prems"(3) obtain g where "compile_logical lib col '' OR '' v = Inr g" "f = negate g"
      by (auto simp: compile_field.simps and_then_Inr_iff)
    with "2.IH" "2.prems" 3 show ?thesis by (simp add: good_negate joiners_def)
  next
    case 4
    with "2.prems"(3) obtain p where p: "split_path key = Inr p"
      and r: "compile_eq lib col p v = Inr f \<or> (\<exists>ops. compile_operators lib col p ops = Inr f)"
      using compile_field_path by blast
    have "nice p" using nice_split [OF p] "2.prems"(2) by simp
    with r "2.prems"(1) show ?thesis using good_eq good_operators(1) by blast
  qed
next
  case (3 lib col joiner v)
  then obtain d where v: "v = BArray d"
    by (cases v) (auto simp: compile_logical.simps array_values_def)
  have val: "array_values v = Inr (map snd d)" by (simp add: v array_values_def)
  have d: "map snd d \<noteq> []"
    using 3 val by (auto simp: compile_logical.simps)
  obtain parts
    where parts: "map_res (\<lambda>b. and_then (branch_view b) (compile_document lib col)) (map snd d) = Inr parts"
      and f: "f = conjoin_fragments parts joiner"
    using "3.prems"(4) d unfolding compile_logical.simps val by (auto simp: and_then_Inr_iff)
  have "list_all good parts"
  proof (rule map_res_all [OF parts])
    fix b g
    assume b: "b \<in> set (map snd d)" and "and_then (branch_view b) (compile_document lib col) = Inr g"
    then obtain view where view: "branch_view b = Inr view" "compile_document lib col view = Inr g"
      by (auto simp: and_then_Inr_iff)
    from b view(1) obtain k where "(k, BDocument view) \<in> set d" by (auto simp: branch_view_Inr)
    with "3.prems"(2) have "names_ok ok view"
      unfolding branch_ok_def v bson.case list_all_iff by (auto dest: bspec)
    with "3.IH" [OF val d b view(1)] "3.prems"(1) view(2) show "good g" by simp
  qed
  with "3.prems"(3) show ?case unfolding f by (rule good_conjoin)
qed

end

interpretation placeholders: fragment_law bound plain "\<lambda>k. qmark \<notin> set k" "\<lambda>_ col. marks col = 0"
proof unfold_locales
  fix joiner fs
  assume "joiner \<in> joiners" "list_all bound fs"
  then show "bound (conjoin_fragments fs joiner)" by (intro bound_conjoin) (auto simp: joiners_def)
next
  show "bound (''1'', [])" by (simp add: bound_def)
qed (blast intro: bound_compile_eq bound_simple_operator bound_negate split_path_plain)+

section \<open>Values stay out of the text\<close>

text \<open>
  A filter with its values blanked: types, field names and the booleans (which \<open>$exists\<close> reads)
  are all that is left.
\<close>

function blank_value :: "bson \<Rightarrow> bson" where
  "blank_value v = (case v of
       BDouble _ \<Rightarrow> BDouble 0
     | BUtf8 _ \<Rightarrow> BUtf8 []
     | BDocument d \<Rightarrow> BDocument (map (\<lambda>(k, x). (k, blank_value x)) d)
     | BArray d \<Rightarrow> BArray (map (\<lambda>(k, x). (k, blank_value x)) d)
     | BBinary t _ \<Rightarrow> BBinary t []
     | BOid _ \<Rightarrow> BOid []
     | BDateTime _ \<Rightarrow> BDateTime 0
     | BRegex _ _ \<Rightarrow> BRegex [] []
     | BInt32 _ \<Rightarrow> BInt32 0
     | BTimestamp _ _ \<Rightarrow> BTimestamp 0 0
     | BInt64 _ \<Rightarrow> BInt64 0
     | BDecimal128 _ \<Rightarrow> BDecimal128 []
     | _ \<Rightarrow> v)"
  by pat_completeness auto
termination
  by (relation "measure size") (auto dest: field_size)

declare blank_value.simps [simp del]

definition blank_filter :: "document \<Rightarrow> document" where
  "blank_filter d = map (\<lambda>(k, x). (k, blank_value x)) d"

lemma blank_value_simps:
  "blank_value (BDocument d) = BDocument (blank_filter d)"
  "blank_value (BArray d) = BArray (blank_filter d)"
  by (subst blank_value.simps, simp add: blank_filter_def)+

text \<open>A printer that always succeeds, to compile the blanked filter with.\<close>

definition blank_lib :: libbson where
  "blank_lib = \<lparr>canonical_json = \<lambda>_. Some ''{v:0}'', oid_string = \<lambda>_. []\<rparr>"

definition same_text :: "fragment outcome \<Rightarrow> fragment outcome \<Rightarrow> bool" where
  "same_text r r' \<longleftrightarrow> (\<forall>f. r = Inr f \<longrightarrow> (\<exists>f'. r' = Inr f' \<and> fst f' = fst f))"

lemma same_textI: "(\<And>f. r = Inr f \<Longrightarrow> \<exists>f'. r' = Inr f' \<and> fst f' = fst f) \<Longrightarrow> same_text r r'"
  by (simp add: same_text_def)

lemma same_text_then:
  "same_text r r' \<Longrightarrow> (\<And>f f'. fst f' = fst f \<Longrightarrow> same_text (g f) (g' f')) \<Longrightarrow>
    same_text (and_then r g) (and_then r' g')"
  by (fastforce simp: same_text_def and_then_Inr_iff)

lemma same_text_map:
  "(\<And>x. x \<in> set xs \<Longrightarrow> same_text (g x) (g' (h x))) \<Longrightarrow> map_res g xs = Inr ys \<Longrightarrow>
    \<exists>ys'. map_res g' (map h xs) = Inr ys' \<and> map fst ys' = map fst ys"
proof (induction xs arbitrary: ys)
  case (Cons x xs)
  then obtain y zs where y: "g x = Inr y" "map_res g xs = Inr zs" "ys = y # zs"
    by (auto simp: and_then_Inr_iff)
  moreover obtain y' where "g' (h x) = Inr y'" "fst y' = fst y"
    using Cons.prems(1) [of x] y(1) by (auto simp: same_text_def)
  moreover obtain zs' where "map_res g' (map h xs) = Inr zs'" "map fst zs' = map fst zs"
    using Cons.IH [OF _ y(2)] Cons.prems(1) by auto
  ultimately show ?case by (intro exI [of _ "y' # zs'"]) simp
qed simp

lemma canonical_literal_blank: "canonical_literal blank_lib v = Inr ''0''"
  by (simp add: canonical_literal_def to_extjson_def blank_lib_def last_index_of_def blank_def)

lemma bind_blank: "same_text (bind lib v) (bind blank_lib (blank_value v))"
  by (cases v) (auto simp: same_text_def bind_def blank_value.simps)

lemma comparable_blank: "comparable col p (blank_value v) = comparable col p v"
  by (cases v) (auto simp: comparable_def blank_value.simps)

lemma compile_eq_blank: "same_text (compile_eq lib col p v) (compile_eq blank_lib col p (blank_value v))"
  using bind_blank [of lib v] comparable_blank [of col p v]
  by (cases v)
    (auto simp: same_text_def compile_eq_def and_then_Inr_iff canonical_literal_blank bind_string_def
      blank_value.simps bind_def)

lemma array_values_blank:
  "array_values v = Inr ms \<Longrightarrow> array_values (blank_value v) = Inr (map blank_value ms)"
  by (cases v) (auto simp: array_values_def blank_value_simps blank_filter_def case_prod_beta)

lemma compile_in_blank: "same_text (compile_in lib col p v n) (compile_in blank_lib col p (blank_value v) n)"
proof (rule same_textI)
  fix f assume "compile_in lib col p v n = Inr f"
  then obtain ms where ms: "array_values v = Inr ms"
    and f: "(if ms = [] then Inr (if n then ''1'' else ''0'', [])
       else and_then (map_res (bind lib) ms) (\<lambda>frags.
         Inr (scalar_expr p col @ (if n then '' NOT IN ('' else '' IN ('')
                @ join '', '' (map fst frags) @ '')'',
              concat (map snd frags)))) = Inr f"
    by (auto simp: compile_in_def and_then_Inr_iff)
  show "\<exists>f'. compile_in blank_lib col p (blank_value v) n = Inr f' \<and> fst f' = fst f"
  proof (cases "ms = []")
    case True
    with f array_values_blank [OF ms] show ?thesis by (auto simp: compile_in_def)
  next
    case False
    with f obtain frags where frags: "map_res (bind lib) ms = Inr frags"
      and f: "f = (scalar_expr p col @ (if n then '' NOT IN ('' else '' IN ('')
                @ join '', '' (map fst frags) @ '')'', concat (map snd frags))"
      by (auto simp: and_then_Inr_iff)
    obtain frags' where "map_res (bind blank_lib) (map blank_value ms) = Inr frags'"
        "map fst frags' = map fst frags"
      using same_text_map [where g = "bind lib" and g' = "bind blank_lib" and h = blank_value, OF _ frags]
        bind_blank by blast
    with array_values_blank [OF ms] False show ?thesis by (simp add: compile_in_def f)
  qed
qed

lemma compare_with_blank:
  "same_text (compare_with lib col p rel v) (compare_with blank_lib col p rel (blank_value v))"
  unfolding compare_with_def comparable_blank
  by (rule same_text_then [OF bind_blank]) (auto simp: same_text_def)

lemma regex_match_blank: "same_text (regex_match lib col p v) (regex_match blank_lib col p (blank_value v))"
  by (cases v) (auto simp: same_text_def regex_match_def bind_string_def bind_def blank_value.simps)

lemma elem_match_blank: "same_text (elem_match lib col p v) (elem_match blank_lib col p (blank_value v))"
  by (cases v)
    (auto simp: same_text_def elem_match_def bind_string_def blank_value_simps blank_filter_def
      list_ex_iff to_extjson_def blank_lib_def and_then_Inr_iff case_prod_beta
      blank_value.simps [of "BDouble _"] split: if_splits)

lemma negate_same: "fst f' = fst f \<Longrightarrow> same_text (Inr (negate f)) (Inr (negate f'))"
  by (simp add: same_text_def negate_def)

lemma simple_operator_blank:
  "same_text (simple_operator lib col p op v) (simple_operator blank_lib col p op (blank_value v))"
proof -
  have n: "same_text (and_then (compile_eq lib col p v) (\<lambda>f. Inr (negate f)))
     (and_then (compile_eq blank_lib col p (blank_value v)) (\<lambda>f. Inr (negate f)))"
    by (rule same_text_then [OF compile_eq_blank negate_same])
  have e: "compile_exists col p (blank_value v) = compile_exists col p v"
    by (cases v) (auto simp: compile_exists_def blank_value.simps)
  have r: "same_text r r" for r by (simp add: same_text_def)
  have i: "(b \<Longrightarrow> same_text x x') \<Longrightarrow> (\<not> b \<Longrightarrow> same_text y y') \<Longrightarrow>
      same_text (if b then x else y) (if b then x' else y')" for b x x' y y' by simp
  show ?thesis
    unfolding simple_operator_def e
    by (intro i n r compile_eq_blank compare_with_blank compile_in_blank regex_match_blank elem_match_blank)
qed

lemma conjoin_same:
  "map fst ys' = map fst ys \<Longrightarrow> fst (conjoin_fragments ys' j) = fst (conjoin_fragments ys j)"
  by (simp add: conjoin_fragments_def)

lemma compile_operators_blank:
  "same_text (compile_operators lib col p ops) (compile_operators blank_lib col p (blank_filter ops))"
  "same_text (compile_operator lib col p field)
     (compile_operator blank_lib col p (fst field, blank_value (snd field)))"
proof (induction lib col p ops and lib col p field rule: compile_operators_compile_operator.induct)
  case (1 lib col p ops)
  show ?case
  proof (rule same_textI)
    fix f assume "compile_operators lib col p ops = Inr f"
    then obtain parts where parts: "map_res (compile_operator lib col p) ops = Inr parts"
      and f: "f = conjoin_fragments parts '' AND ''"
      by (auto simp: compile_operators.simps and_then_Inr_iff)
    have "\<exists>ys'. map_res (compile_operator blank_lib col p) (map (\<lambda>(k, x). (k, blank_value x)) ops) = Inr ys'
        \<and> map fst ys' = map fst parts"
      by (rule same_text_map [OF _ parts]) (use 1 in \<open>simp add: case_prod_beta\<close>)
    then obtain ys' where
      "map_res (compile_operator blank_lib col p) (map (\<lambda>(k, x). (k, blank_value x)) ops) = Inr ys'"
      and same: "map fst ys' = map fst parts" by blast
    with conjoin_same [OF same]
    show "\<exists>f'. compile_operators blank_lib col p (blank_filter ops) = Inr f' \<and> fst f' = fst f"
      by (simp add: compile_operators.simps blank_filter_def f)
  qed
next
  case (2 lib col p op v)
  show ?case
  proof (cases "op = ''$not''")
    case True
    show ?thesis
    proof (cases v)
      case (BDocument view)
      have "same_text (and_then (compile_operators lib col p view) (\<lambda>f. Inr (negate f)))
          (and_then (compile_operators blank_lib col p (blank_filter view)) (\<lambda>f. Inr (negate f)))"
        by (rule same_text_then [OF 2 negate_same]) (simp_all add: True BDocument)
      with True show ?thesis by (simp add: compile_operator.simps BDocument blank_value_simps)
    qed (use True in \<open>simp_all add: compile_operator.simps same_text_def\<close>)
  next
    case False
    then show ?thesis using simple_operator_blank by (simp add: compile_operator.simps)
  qed
qed

lemma blank_filter_hd: "ops \<noteq> [] \<Longrightarrow> fst (hd (blank_filter ops)) = fst (hd ops)"
  by (cases ops) (auto simp: blank_filter_def)

lemma compile_field_blank:
  assumes "key \<noteq> ''$and''" "key \<noteq> ''$or''" "key \<noteq> ''$nor''" and r: "compile_field lib col (key, v) = Inr f"
  shows "\<exists>f'. compile_field blank_lib col (fst (key, v), blank_value (snd (key, v))) = Inr f' \<and> fst f' = fst f"
proof -
  have e: "compile_field lib col (key, v) =
     (if starts_char (CHR ''$'') key
      then Inl (not_implemented (''unsupported top-level operator '' @ sq @ key @ sq))
      else and_then (split_path key) (\<lambda>path.
        case v of
          BDocument ops \<Rightarrow>
            if ops \<noteq> [] \<and> starts_char (CHR ''$'') (fst (hd ops))
            then compile_operators lib col path ops
            else compile_eq lib col path v
        | _ \<Rightarrow> compile_eq lib col path v))" for lib v
    using assms(1-3) by (simp only: compile_field.simps if_False)
  have key: "\<not> starts_char (CHR ''$'') key" using r unfolding e by (auto split: if_splits)
  obtain p where p: "split_path key = Inr p" using r key unfolding e by (auto simp: and_then_Inr_iff)
  show ?thesis
  proof (cases v)
    case (BDocument ops)
    have "ops \<noteq> [] \<and> starts_char (CHR ''$'') (fst (hd ops))"
      using r key p unfolding e BDocument by (auto simp: compile_eq_def split: if_splits)
    then show ?thesis
      using r key p compile_operators_blank(1) [of lib col p ops]
      unfolding e fst_conv snd_conv BDocument blank_value_simps
      by (simp add: same_text_def blank_filter_hd) (auto simp: blank_filter_def)
  next
    case (BArray d)
    then show ?thesis using r key p unfolding e by (simp add: compile_eq_def)
  qed (use r key p compile_eq_blank [of lib col p v] in
      \<open>simp_all add: e same_text_def blank_value.simps\<close>)
qed

lemma compile_document_blank:
  "same_text (compile_document lib col d) (compile_document blank_lib col (blank_filter d))"
  "same_text (compile_field lib col field)
     (compile_field blank_lib col (fst field, blank_value (snd field)))"
  "same_text (compile_logical lib col joiner v) (compile_logical blank_lib col joiner (blank_value v))"
proof (induction lib col d and lib col field and lib col joiner v
    rule: compile_document_compile_field_compile_logical.induct)
  case (1 lib col d)
  show ?case
  proof (rule same_textI)
    fix f assume r: "compile_document lib col d = Inr f"
    show "\<exists>f'. compile_document blank_lib col (blank_filter d) = Inr f' \<and> fst f' = fst f"
    proof (cases "d = []")
      case True
      with r show ?thesis by (simp add: compile_document.simps blank_filter_def)
    next
      case False
      with r obtain parts where parts: "map_res (compile_field lib col) d = Inr parts"
        and f: "f = conjoin_fragments parts '' AND ''"
        by (auto simp: compile_document.simps and_then_Inr_iff)
      have "\<exists>ys'. map_res (compile_field blank_lib col) (map (\<lambda>(k, x). (k, blank_value x)) d) = Inr ys'
          \<and> map fst ys' = map fst parts"
        by (rule same_text_map [OF _ parts]) (use 1 False in \<open>simp add: case_prod_beta\<close>)
      then obtain ys' where
        "map_res (compile_field blank_lib col) (map (\<lambda>(k, x). (k, blank_value x)) d) = Inr ys'"
        and same: "map fst ys' = map fst parts" by blast
      with False conjoin_same [OF same] show ?thesis
        by (simp add: compile_document.simps blank_filter_def f)
    qed
  qed
next
  case (2 lib col key v)
  consider "key = ''$and''" | "key = ''$or''" | "key = ''$nor''"
    | "key \<noteq> ''$and''" "key \<noteq> ''$or''" "key \<noteq> ''$nor''" by (rule four_cases)
  then show ?case
  proof cases
    case 1
    with 2 show ?thesis by (simp add: compile_field.simps)
  next
    case 2
    with "2.IH" show ?thesis by (simp add: compile_field.simps)
  next
    case 3
    have "same_text (compile_logical lib col '' OR '' v) (compile_logical blank_lib col '' OR '' (blank_value v))"
      using "2.IH" 3 by simp
    from same_text_then [OF this negate_same] 3 show ?thesis by (simp add: compile_field.simps)
  next
    case 4
    show ?thesis
    proof (rule same_textI)
      fix f assume "compile_field lib col (key, v) = Inr f"
      then show "\<exists>f'. compile_field blank_lib col (fst (key, v), blank_value (snd (key, v))) = Inr f' \<and> fst f' = fst f"
        by (rule compile_field_blank [OF 4])
    qed
  qed
next
  case (3 lib col joiner v)
  show ?case
  proof (rule same_textI)
    fix f assume r: "compile_logical lib col joiner v = Inr f"
    then obtain ms where val: "array_values v = Inr ms" by (auto simp: compile_logical.simps and_then_Inr_iff)
    have ms: "ms \<noteq> []" using r val by (auto simp: compile_logical.simps)
    obtain parts
      where parts: "map_res (\<lambda>b. and_then (branch_view b) (compile_document lib col)) ms = Inr parts"
        and f: "f = conjoin_fragments parts joiner"
      using r ms unfolding compile_logical.simps val by (auto simp: and_then_Inr_iff)
    have "\<exists>ys'. map_res (\<lambda>b. and_then (branch_view b) (compile_document blank_lib col)) (map blank_value ms) = Inr ys'
        \<and> map fst ys' = map fst parts"
    proof (rule same_text_map [OF _ parts])
      fix b assume b: "b \<in> set ms"
      show "same_text (and_then (branch_view b) (compile_document lib col))
          (and_then (branch_view (blank_value b)) (compile_document blank_lib col))"
      proof (cases b)
        case (BDocument view)
        then show ?thesis using 3 [OF val ms b, of view]
          by (simp add: branch_view_def blank_value_simps)
      qed (simp_all add: branch_view_def same_text_def)
    qed
    then obtain ys' where
      "map_res (\<lambda>b. and_then (branch_view b) (compile_document blank_lib col)) (map blank_value ms) = Inr ys'"
      and same: "map fst ys' = map fst parts" by blast
    with array_values_blank [OF val] ms conjoin_same [OF same]
    show "\<exists>f'. compile_logical blank_lib col joiner (blank_value v) = Inr f' \<and> fst f' = fst f"
      by (simp add: compile_logical.simps f)
  qed
qed

section \<open>Timestamps\<close>

lemma unat_ordinal: "unat (timestamp_ordinal t i) = unat t * 2 ^ 32 + unat i"
proof -
  have t: "unat t < 2 ^ 32" and i: "unat i < 2 ^ 32"
    using unsigned_less [of t] unsigned_less [of i] by simp_all
  have "\<not> bit (push_bit 32 (ucast t :: int64)) n \<or> \<not> bit (ucast i :: int64) n" for n
    by (auto simp: bit_push_bit_iff bit_unsigned_iff dest: bit_imp_le_length)
  then have "timestamp_ordinal t i = push_bit 32 (ucast t) + ucast i"
    unfolding timestamp_ordinal_def by (rule disjunctive_add [symmetric])
  also have "\<dots> = word_of_nat (unat t * 2 ^ 32 + unat i)"
    by (simp add: push_bit_eq_mult)
  finally have o: "timestamp_ordinal t i = word_of_nat (unat t * 2 ^ 32 + unat i)" .
  have "unat t * 2 ^ 32 + unat i < 2 ^ 64" using t i by simp
  then show ?thesis unfolding o by (simp only: unat_of_nat) (simp add: take_bit_nat_eq_self)
qed

section \<open>Properties\<close>

text \<open>
  The compiled condition has one parameter per placeholder, whatever the filter, as long as
  no field name it uses holds a question mark.
\<close>

theorem placeholders_match_params:
  assumes "compile_filter lib d col = Inr (sql, params)" and "names_plain d" and "qmark \<notin> set col"
  shows "count_list sql qmark = length params"
  using placeholders.good_document(1) [where lib = lib and col = col and d = d and f = "(sql, params)"] assms
  by (simp add: compile_filter_def bound_def marks_def)

theorem placeholders_match_params_witness:
  "count_list (''(CAST('' @ scalar_expr [''n''] ''doc'' @ '' AS DOUBLE) > ? AND CAST('' @ scalar_expr [''n''] ''doc'' @ '' AS DOUBLE) < ?)'') qmark
     = length [PInt 1, PInt 9]"
proof (rule placeholders_match_params)
  show "compile_filter blank_lib [(''n'', BDocument [(''$gt'', BInt32 1), (''$lt'', BInt32 9)])] ''doc''
      = Inr (''(CAST('' @ scalar_expr [''n''] ''doc'' @ '' AS DOUBLE) > ? AND CAST('' @ scalar_expr [''n''] ''doc'' @ '' AS DOUBLE) < ?)'',
          [PInt 1, PInt 9])"
    by (simp add: compile_filter_def compile_document.simps compile_field.simps split_path_def
        compile_operators.simps compile_operator.simps simple_operator_def compare_with_def bind_def
        comparable_def conjoin_fragments_def conjoin_def)
qed (simp_all add: names_ok.simps)

text \<open>
  The text of the condition depends on the field names and on the types of the values only:
  two filters that agree but for the values inside them compile to the same SQL, so a value
  can never change the statement.
\<close>

theorem values_never_reach_sql:
  assumes "compile_filter lib d col = Inr f" and "compile_filter lib' d' col = Inr f'"
    and "blank_filter d = blank_filter d'"
  shows "fst f = fst f'"
  using assms compile_document_blank(1) [of lib col d] compile_document_blank(1) [of lib' col d']
  by (auto simp: compile_filter_def same_text_def)

theorem values_never_reach_sql_witness:
  "fst (scalar_expr [''a''] ''doc'' @ '' REGEXP ?'', [PText ''x'']) = fst (scalar_expr [''a''] ''doc'' @ '' REGEXP ?'', [PText ''y''])"
proof (rule values_never_reach_sql)
  show "compile_filter blank_lib [(''a'', BRegex ''x'' [])] ''doc'' = Inr (scalar_expr [''a''] ''doc'' @ '' REGEXP ?'', [PText ''x''])"
    and "compile_filter blank_lib [(''a'', BRegex ''y'' ''i'')] ''doc'' = Inr (scalar_expr [''a''] ''doc'' @ '' REGEXP ?'', [PText ''y''])"
    by (simp_all add: compile_filter_def compile_document.simps compile_field.simps split_path_def
        compile_eq_def bind_string_def conjoin_fragments_def conjoin_def nul_def)
qed (simp add: blank_filter_def blank_value.simps)

text \<open>
  A field name does reach the text, between single quotes and without their escaping: for
  every name without dots, double quotes and backslashes the condition holds it verbatim after
  an opening quote, so a name with an apostrophe ends the literal, and a name with a question
  mark adds placeholders that have no parameter.
\<close>

theorem field_names_reach_sql:
  assumes "dotless [k]" and "\<not> starts_char (CHR ''$'') k" and "quote_char \<notin> set k" and "backslash \<notin> set k"
  shows "\<exists>rest. compile_filter lib [(k, BNull)] ''doc'' =
      Inr (''COALESCE(JSON_VALUE(doc,'' @ sq @ ''$.'' @ [quote_char] @ k @ [quote_char] @ sq @ rest, [])
    \<and> marks (''COALESCE(JSON_VALUE(doc,'' @ sq @ ''$.'' @ [quote_char] @ k @ [quote_char] @ sq @ rest) = 6 * marks k"
proof -
  have esc: "concat (map escape_char k) = k"
    using assms(3,4) by (induction k) (auto simp: escape_char_def)
  have path: "split_path k = Inr [k]" using split_path_join [OF assms(1)] by simp
  have ops: "k \<noteq> ''$and''" "k \<noteq> ''$or''" "k \<noteq> ''$nor''" using assms(2) by auto
  have json: "to_json_path [k] = ''$.'' @ [quote_char] @ k @ [quote_char]"
    by (simp add: to_json_path_def json_member_def esc)
  have c: "compile_filter lib [(k, BNull)] ''doc'' = Inr (scalar_expr [k] ''doc'' @ '' IS NULL'', [])"
    using ops assms(2) path
    by (simp add: compile_filter_def compile_document.simps compile_field.simps compile_eq_def
        conjoin_fragments_def conjoin_def)
  have "marks (scalar_expr [k] ''doc'' @ '' IS NULL'') = 6 * marks k"
    by (simp add: scalar_expr_def kWrappers_def json quoted_member_def quote_char_def)
  then show ?thesis unfolding c by (auto simp: scalar_expr_def kWrappers_def json)
qed

theorem field_names_reach_sql_witness:
  "\<exists>rest. compile_filter blank_lib [(''x?'', BNull)] ''doc'' =
      Inr (''COALESCE(JSON_VALUE(doc,'' @ sq @ ''$.'' @ [quote_char] @ ''x?'' @ [quote_char] @ sq @ rest, [])
    \<and> marks (''COALESCE(JSON_VALUE(doc,'' @ sq @ ''$.'' @ [quote_char] @ ''x?'' @ [quote_char] @ sq @ rest) = 6 * marks ''x?''"
  by (rule field_names_reach_sql) (simp_all add: dotless_def quote_char_def backslash_def)

text \<open>
  The ordinal a Timestamp is compared by orders as the pair (t, i) does until January 2038;
  from then on it is a negative int64, below every ordinal before.
\<close>

theorem timestamp_ordinal_order:
  "(unat t < 2 ^ 31 \<and> unat u < 2 ^ 31 \<longrightarrow>
      (sint (timestamp_ordinal t i) < sint (timestamp_ordinal u j)
        \<longleftrightarrow> unat t < unat u \<or> unat t = unat u \<and> unat i < unat j))
   \<and> (2 ^ 31 \<le> unat t \<longrightarrow> sint (timestamp_ordinal t i) < 0)"
proof (intro conjI impI)
  assume "unat t < 2 ^ 31 \<and> unat u < 2 ^ 31"
  moreover have b: "unat i < 2 ^ 32" "unat j < 2 ^ 32"
    using unsigned_less [of i] unsigned_less [of j] by simp_all
  ultimately have small: "unat (timestamp_ordinal t i) < 2 ^ 63" "unat (timestamp_ordinal u j) < 2 ^ 63"
    unfolding unat_ordinal by simp_all
  have "sint (timestamp_ordinal t i) < sint (timestamp_ordinal u j)
      \<longleftrightarrow> unat t * 2 ^ 32 + unat i < unat u * 2 ^ 32 + unat j"
    by (simp only: sint_small [OF small(1)] sint_small [OF small(2)] of_nat_less_iff unat_ordinal)
  also have "\<dots> \<longleftrightarrow> unat t < unat u \<or> unat t = unat u \<and> unat i < unat j"
    using b by (auto simp: not_less_iff_gr_or_eq)
  finally show "sint (timestamp_ordinal t i) < sint (timestamp_ordinal u j)
        \<longleftrightarrow> unat t < unat u \<or> unat t = unat u \<and> unat i < unat j" .
next
  assume "2 ^ 31 \<le> unat t"
  then have "2 ^ 63 \<le> unat (timestamp_ordinal t i)" unfolding unat_ordinal by simp
  moreover have "int (unat w) < 2 ^ 64" for w :: int64
    using unat_64 [of w] by (metis of_nat_less_iff of_nat_numeral of_nat_power)
  ultimately show "sint (timestamp_ordinal t i) < 0"
    by (simp only: sint_unat if_True) (simp only: diff_less_0_iff_less)
qed

theorem timestamp_ordinal_order_witness:
  "sint (timestamp_ordinal 5 1) < sint (timestamp_ordinal 5 2)
   \<and> sint (timestamp_ordinal 0x80000000 0) < 0"
  using timestamp_ordinal_order [of 5 5 1 2] timestamp_ordinal_order [of "0x80000000" 0 0 0] by simp

text \<open>
  What the compiler does not know is refused, never ignored: an unknown operator on a field
  with BadValue, an unknown top-level operator with NotImplemented.
\<close>

theorem unknown_operators_refused:
  assumes "starts_char (CHR ''$'') op"
    and "op \<notin> {''$eq'', ''$ne'', ''$gt'', ''$gte'', ''$lt'', ''$lte'', ''$in'', ''$nin'', ''$exists'', ''$regex'',
      ''$not'', ''$elemMatch'', ''$and'', ''$or'', ''$nor''}"
    and "split_path k = Inr p" and "\<not> starts_char (CHR ''$'') k"
  shows "is_raise 2 (compile_filter lib [(k, BDocument [(op, v)])] col)
    \<and> is_raise 238 (compile_filter lib [(op, v)] col)"
proof -
  have k: "k \<noteq> ''$and''" "k \<noteq> ''$or''" "k \<noteq> ''$nor''" using assms(4) by auto
  have "compile_operator lib col p (op, v) = Inl (bad_value (''unknown operator: '' @ op))"
    using assms(2) by (simp add: compile_operator.simps simple_operator_def)
  then have "compile_field lib col (k, BDocument [(op, v)]) = Inl (bad_value (''unknown operator: '' @ op))"
    using k assms(1,3,4) by (simp add: compile_field.simps compile_operators.simps)
  moreover have "compile_field lib col (op, v) =
      Inl (not_implemented (''unsupported top-level operator '' @ sq @ op @ sq))"
    using assms(1,2) by (simp add: compile_field.simps)
  ultimately show ?thesis by (simp add: compile_filter_def compile_document.simps error_simps)
qed

theorem unknown_operators_refused_witness:
  "is_raise 2 (compile_filter blank_lib [(''a'', BDocument [(''$near'', BNull)])] ''doc'')
    \<and> is_raise 238 (compile_filter blank_lib [(''$near'', BNull)] ''doc'')"
  by (rule unknown_operators_refused) (simp_all add: split_path_def)

text \<open>
  \<open>$not\<close> with an empty operator document compiles to an empty pair of parentheses, which is
  no SQL condition, instead of being refused.
\<close>

theorem empty_not_is_malformed:
  "compile_filter lib [(''a'', BDocument [(''$not'', BDocument [])])] ''doc'' = Inr (''NOT (())'', [])"
  by (simp add: compile_filter_def compile_document.simps compile_field.simps split_path_def
      compile_operators.simps compile_operator.simps negate_def conjoin_fragments_def conjoin_def)

end
