(* ===== verification/Statements.thy ===== *)
theory Statements
  imports Filters
begin

text \<open>
  How SQL text is put together: \<open>render\<close>, \<open>quote\<close> and \<open>quote_identifier\<close> of
  src/chimera/plugin/chimera_mongo/sql.cc, and the namespaces of collection.cc that are spliced
  into it. The server's escaping (\<open>mysql_real_escape_string\<close>) and \<open>snprintf\<close> with \<open>%.17g\<close> are
  parameters. How MariaDB reads the text is a scanner for its literals and quoted names, in the
  default SQL mode.
\<close>

section \<open>The code\<close>

record sql_lib =
  escape_string :: "string \<Rightarrow> string"
  print_double :: "double \<Rightarrow> string"

definition quote :: "sql_lib \<Rightarrow> string \<Rightarrow> string" where
  "quote lib s = sq @ escape_string lib s @ sq"

fun param_text :: "sql_lib \<Rightarrow> param \<Rightarrow> string" where
  "param_text lib PNull = ''NULL''"
| "param_text lib (PBool b) = (if b then ''TRUE'' else ''FALSE'')"
| "param_text lib (PInt i) = int_text (sint i)"
| "param_text lib (PDouble d) = print_double lib d"
| "param_text lib (PText s) = quote lib s"

fun render_sql :: "sql_lib \<Rightarrow> string \<Rightarrow> param list \<Rightarrow> string outcome" where
  "render_sql lib [] [] = Inr []"
| "render_sql lib [] (p # ps) = Inl (internal_error ''more parameters than placeholders'')"
| "render_sql lib (c # sql) ps =
     (if c \<noteq> CHR ''?'' then and_then (render_sql lib sql ps) (\<lambda>out. Inr (c # out))
      else case ps of
        [] \<Rightarrow> Inl (internal_error ''more placeholders than parameters'')
      | p # qs \<Rightarrow> and_then (render_sql lib sql qs) (\<lambda>out. Inr (param_text lib p @ out)))"

definition quote_identifier :: "string \<Rightarrow> string outcome" where
  "quote_identifier name =
     (if name = [] then Inl (bad_value ''empty identifier'')
      else if CHR ''`'' \<in> set name \<or> nul \<in> set name
      then Inl (bad_value (''identifier contains a backtick or NUL: '' @ name))
      else Inr (''`'' @ name @ ''`''))"

record namespace =
  ns_db :: string
  ns_collection :: string

definition unnameable :: "char \<Rightarrow> bool" where
  "unnameable c \<longleftrightarrow> c = CHR ''`'' \<or> c = nul \<or> c = CHR 0x0A \<or> c = CHR ''/'' \<or> c = CHR 0x5C"

definition validate_identifier :: "string \<Rightarrow> string \<Rightarrow> unit outcome" where
  "validate_identifier name what =
     (if name = [] then Inl (bad_value (what @ '' may not be empty''))
      else if 64 < length name then Inl (bad_value (what @ '' is longer than 64 characters''))
      else throw_if (list_ex unnameable name)
        (bad_value (what @ '' contains a character MariaDB cannot name: '' @ name)))"

definition parse_namespace :: "string \<Rightarrow> string \<Rightarrow> namespace outcome" where
  "parse_namespace db collection =
     and_then (validate_identifier db ''database name'') (\<lambda>_.
     and_then (validate_identifier collection ''collection name'') (\<lambda>_.
       Inr \<lparr>ns_db = db, ns_collection = collection\<rparr>))"

definition ns_table :: "namespace \<Rightarrow> string outcome" where
  "ns_table ns =
     and_then (quote_identifier (ns_db ns)) (\<lambda>db.
     and_then (quote_identifier (ns_collection ns)) (\<lambda>collection.
       Inr (db @ ''.'' @ collection)))"

definition ns_text :: "namespace \<Rightarrow> string" where
  "ns_text ns = ns_db ns @ ''.'' @ ns_collection ns"

definition is_oplog_namespace :: "namespace \<Rightarrow> bool" where
  "is_oplog_namespace ns \<longleftrightarrow> ns_db ns = ''local'' \<and> ns_collection ns = ''oplog.rs''"

definition generated_column :: "string \<Rightarrow> nat \<Rightarrow> string" where
  "generated_column index_name position = ''chimera_idx_'' @ index_name @ ''_'' @ nat_text position"

section \<open>How the server reads it\<close>

text \<open>
  Outside of literals, or inside one that began with a given quote; a backslash takes the
  character after it along, except in a quoted name.
\<close>

datatype lex = Outside | Inside char | Escaped char

fun lex_step :: "lex \<Rightarrow> char \<Rightarrow> lex" where
  "lex_step Outside c =
     (if c = CHR 0x27 \<or> c = CHR 0x22 \<or> c = CHR ''`'' then Inside c else Outside)"
| "lex_step (Inside q) c =
     (if c = q then Outside else if c = CHR 0x5C \<and> q \<noteq> CHR ''`'' then Escaped q else Inside q)"
| "lex_step (Escaped q) c = Inside q"

definition lex_from :: "lex \<Rightarrow> string \<Rightarrow> lex" where
  "lex_from st s = foldl lex_step st s"

text \<open>What is left of a text when the insides of its literals are taken out.\<close>

fun code_from :: "lex \<Rightarrow> string \<Rightarrow> string" where
  "code_from st [] = []"
| "code_from st (c # s) = (if st = Outside then [c] else []) @ code_from (lex_step st c) s"

lemma lex_from_simps [simp]:
  "lex_from st [] = st" "lex_from st (c # s) = lex_from (lex_step st c) s"
  "lex_from st (s @ t) = lex_from (lex_from st s) t"
  by (simp_all add: lex_from_def)

lemma code_from_append [simp]: "code_from st (s @ t) = code_from st s @ code_from (lex_from st s) t"
  by (induction s arbitrary: st) auto

lemma marks_code_le: "marks (code_from st s) \<le> marks s"
  by (induction s arbitrary: st) (simp_all add: le_SucI)

definition unquoted :: "string \<Rightarrow> bool" where
  "unquoted s \<longleftrightarrow> (\<forall>c \<in> set s. c \<noteq> CHR 0x27 \<and> c \<noteq> CHR 0x22 \<and> c \<noteq> CHR ''`'')"

lemma unquoted_lex [simp]: "unquoted s \<Longrightarrow> lex_from Outside s = Outside"
  and unquoted_code [simp]: "unquoted s \<Longrightarrow> code_from Outside s = s"
  by (induction s) (auto simp: unquoted_def)

lemma digit_unquoted: "n < 10 \<Longrightarrow> unquoted [digit_char n]"
  by (auto simp: unquoted_def digit_char_def char_of_eq_iff take_bit_nat_eq_self)

lemma unquoted_Cons [simp]:
  "unquoted (c # s) \<longleftrightarrow> c \<noteq> CHR 0x27 \<and> c \<noteq> CHR 0x22 \<and> c \<noteq> CHR ''`'' \<and> unquoted s"
  by (auto simp: unquoted_def)

lemma unquoted_Nil [simp]: "unquoted []"
  by (simp add: unquoted_def)

lemma unquoted_append [simp]: "unquoted (s @ t) \<longleftrightarrow> unquoted s \<and> unquoted t"
  by (auto simp: unquoted_def)

lemma unquoted_nat_text: "unquoted (nat_text n)"
proof (induction n rule: nat_text.induct)
  case (1 n)
  then show ?case by (subst nat_text.simps) (auto intro: digit_unquoted simp del: unquoted_Cons)
qed

lemma unquoted_int_text [simp]: "unquoted (int_text i)"
  by (simp add: int_text_def unquoted_nat_text)

section \<open>Rendering\<close>

text \<open>
  The promise of the escaping: an escaped text never ends the literal it stands in. Printed
  numbers hold no quotes.
\<close>

definition escapes :: "sql_lib \<Rightarrow> bool" where
  "escapes lib \<longleftrightarrow> (\<forall>s. lex_from (Inside (CHR 0x27)) (escape_string lib s) = Inside (CHR 0x27)
     \<and> code_from (Inside (CHR 0x27)) (escape_string lib s) = []) \<and> (\<forall>d. unquoted (print_double lib d))"

text \<open>A parameter outside of literals: a string leaves just the quote that opens it.\<close>

fun param_code :: "sql_lib \<Rightarrow> param \<Rightarrow> string" where
  "param_code lib (PText s) = sq"
| "param_code lib p = param_text lib p"

fun fill :: "sql_lib \<Rightarrow> string \<Rightarrow> param list \<Rightarrow> string" where
  "fill lib [] ps = []"
| "fill lib (c # s) [] = c # s"
| "fill lib (c # s) (p # ps) =
     (if c = CHR ''?'' then param_code lib p @ fill lib s ps else c # fill lib s (p # ps))"

lemma escapesD:
  assumes "escapes lib"
  shows "lex_from (Inside (CHR 0x27)) (escape_string lib s) = Inside (CHR 0x27)"
    and "code_from (Inside (CHR 0x27)) (escape_string lib s) = []"
    and "unquoted (print_double lib d)"
  using assms unfolding escapes_def by blast+

lemma param_lex:
  assumes "escapes lib"
  shows "lex_from Outside (param_text lib p) = Outside \<and>
    code_from Outside (param_text lib p) = param_code lib p"
  using escapesD [OF assms] by (cases p) (simp_all add: quote_def sq_def)

lemma fill_no_params: "fill lib s [] = s"
  by (cases s) auto

lemma fill_other: "c \<noteq> CHR ''?'' \<Longrightarrow> fill lib (c # s) ps = c # fill lib s ps"
  by (cases ps) (auto simp: fill_no_params)

lemma render_code:
  assumes lib: "escapes lib" and "marks sql = length ps" and "marks (code_from st sql) = marks sql"
  shows "\<exists>out. render_sql lib sql ps = Inr out \<and> lex_from st out = lex_from st sql
    \<and> code_from st out = fill lib (code_from st sql) ps"
  using assms(2,3)
proof (induction sql arbitrary: st ps)
  case Nil
  then show ?case by simp
next
  case (Cons c sql)
  show ?case
  proof (cases "c = CHR ''?''")
    case False
    with Cons show ?thesis by (fastforce simp: fill_other split: if_splits)
  next
    case True
    with Cons.prems marks_code_le [of "lex_step st c" sql] have st: "st = Outside"
      by (auto split: if_splits)
    from True Cons.prems(1) obtain p qs where ps: "ps = p # qs" "marks sql = length qs"
      by (cases ps) auto
    from Cons.IH [OF ps(2), of Outside] Cons.prems(2) True st obtain out where
      "render_sql lib sql qs = Inr out" "lex_from Outside out = lex_from Outside sql"
      "code_from Outside out = fill lib (code_from Outside sql) qs" by auto
    with True st ps(1) show ?thesis by (simp add: param_lex [OF lib])
  qed
qed

section \<open>Compiled filters keep their placeholders outside of literals\<close>

definition clean :: "string \<Rightarrow> bool" where
  "clean s \<longleftrightarrow> lex_from Outside s = Outside \<and> marks (code_from Outside s) = marks s"

lemma clean_Nil [simp]: "clean []"
  by (simp add: clean_def)

lemma clean_Cons [simp]: "unquoted [c] \<Longrightarrow> clean (c # s) \<longleftrightarrow> clean s"
  by (simp add: clean_def)

lemma clean_append [simp]: "clean s \<Longrightarrow> clean (s @ t) \<longleftrightarrow> clean t"
  by (simp add: clean_def)

text \<open>Names that stay inside the literal they are spliced into.\<close>

definition tame :: "string \<Rightarrow> bool" where
  "tame k \<longleftrightarrow> qmark \<notin> set k \<and> CHR 0x27 \<notin> set k"

definition within :: "string \<Rightarrow> bool" where
  "within w \<longleftrightarrow> lex_from (Inside (CHR 0x27)) w = Inside (CHR 0x27)
     \<and> code_from (Inside (CHR 0x27)) w = [] \<and> marks w = 0"

lemma within_append: "within v \<Longrightarrow> within w \<Longrightarrow> within (v @ w)"
  by (simp add: within_def)

lemma within_escape: "c \<noteq> qmark \<Longrightarrow> c \<noteq> CHR 0x27 \<Longrightarrow> within (escape_char c)"
  by (auto simp: within_def escape_char_def quote_char_def backslash_def)

lemma within_concat: "list_all within ws \<Longrightarrow> within (concat ws)"
proof (induction ws)
  case Nil
  show ?case by (simp add: within_def)
qed (simp add: within_append)

lemma within_member: "tame m \<Longrightarrow> within (json_member m)"
proof -
  assume "tame m"
  then have "within (concat (map escape_char m))"
    by (intro within_concat) (auto simp: tame_def list_all_iff intro!: within_escape)
  then show ?thesis by (simp add: json_member_def within_def quote_char_def)
qed

definition tame_path :: "path \<Rightarrow> bool" where
  "tame_path p \<longleftrightarrow> (\<forall>m \<in> set p. tame m)"

lemma json_path_lex [simp]:
  assumes "tame_path p"
  shows "lex_from (Inside (CHR 0x27)) (to_json_path p) = Inside (CHR 0x27)"
    and "code_from (Inside (CHR 0x27)) (to_json_path p) = []" and "marks (to_json_path p) = 0"
proof -
  have "within (concat (map json_member p))"
    using assms by (intro within_concat) (auto simp: tame_path_def list_all_iff intro: within_member)
  then show "lex_from (Inside (CHR 0x27)) (to_json_path p) = Inside (CHR 0x27)"
    and "code_from (Inside (CHR 0x27)) (to_json_path p) = []" and "marks (to_json_path p) = 0"
    by (simp_all add: to_json_path_def within_def)
qed

lemma literal_clean:
  assumes "tame_path p" and "lex_from (Inside (CHR 0x27)) w = Inside (CHR 0x27)"
    and "code_from (Inside (CHR 0x27)) w = []" and "marks w = 0"
  shows "clean (sq @ to_json_path p @ w @ sq @ t) \<longleftrightarrow> clean t"
  using assms by (simp add: clean_def sq_def)

lemma literal_clean0 [simp]: "tame_path p \<Longrightarrow> clean (sq @ to_json_path p @ sq @ t) \<longleftrightarrow> clean t"
  using literal_clean [of p "[]" t] by simp

lemma clean_join: "list_all clean ps \<Longrightarrow> unquoted j \<Longrightarrow> clean (join j ps)"
proof (induction ps rule: induct_list012)
  case (3 p q ps)
  then show ?case by (simp add: clean_def)
qed auto

lemma wrapper_within:
  "w \<in> set kWrappers \<Longrightarrow> lex_from (Inside (CHR 0x27)) w = Inside (CHR 0x27)
    \<and> code_from (Inside (CHR 0x27)) w = [] \<and> marks w = 0"
  by (auto simp: kWrappers_def quoted_member_def quote_char_def)

lemma clean_scalar_expr [simp]: "tame_path p \<Longrightarrow> clean col \<Longrightarrow> clean (scalar_expr p col)"
proof -
  assume p: "tame_path p" and col: "clean col"
  have "clean (''JSON_VALUE('' @ col @ '','' @ sq @ to_json_path p @ w @ sq @ '')'')"
    if "w \<in> set kWrappers" for w
    using wrapper_within [OF that] col by (simp add: literal_clean [OF p])
  then have "clean (join '','' (map (\<lambda>w. ''JSON_VALUE('' @ col @ '','' @ sq @ to_json_path p @ w @ sq @ '')'') kWrappers))"
    by (intro clean_join) (auto simp: list_all_iff)
  then show ?thesis by (simp add: scalar_expr_def)
qed

lemma clean_extract_expr [simp]: "tame_path p \<Longrightarrow> clean col \<Longrightarrow> clean (extract_expr col p)"
  by (simp add: extract_expr_def)

lemma clean_timestamp_part [simp]:
  assumes "tame_path p" and "clean col" and "n = ''t'' \<or> n = ''i''"
  shows "clean (timestamp_part col p n)"
proof -
  define w where "w = quoted_member ''$timestamp'' @ ''.'' @ n"
  have "lex_from (Inside (CHR 0x27)) w = Inside (CHR 0x27)" "code_from (Inside (CHR 0x27)) w = []"
      "marks w = 0"
    using assms(3) by (auto simp: w_def quoted_member_def quote_char_def)
  moreover have "timestamp_part col p n =
      ''CAST(JSON_VALUE('' @ col @ '','' @ sq @ to_json_path p @ w @ sq @ '') AS UNSIGNED)''"
    by (simp add: timestamp_part_def w_def)
  ultimately show ?thesis using assms(1,2) by (simp add: literal_clean)
qed

lemma clean_comparable [simp]: "tame_path p \<Longrightarrow> clean col \<Longrightarrow> clean (comparable col p v)"
  by (cases v) (simp_all add: comparable_def)

abbreviation clean_fragment :: "fragment \<Rightarrow> bool" where
  "clean_fragment f \<equiv> clean (fst f)"

lemma clean_compile_eq:
  "clean col \<Longrightarrow> tame_path p \<Longrightarrow> compile_eq lib col p v = Inr f \<Longrightarrow> clean_fragment f"
  by (cases v) (auto simp: compile_eq_def and_then_Inr_iff bind_string_def dest!: bind_Inr)

lemma clean_compile_in:
  assumes "clean col" and "tame_path p" and "compile_in lib col p v n = Inr f"
  shows "clean_fragment f"
proof -
  have "list_all clean (map fst frags)" if "map_res (bind lib) ms = Inr frags" for ms frags
  proof -
    have "list_all clean_fragment frags" by (rule map_res_all [OF that]) (auto dest!: bind_Inr)
    then show ?thesis by (simp add: list.pred_map comp_def)
  qed
  with assms show ?thesis
    by (auto simp: compile_in_def and_then_Inr_iff clean_join split: if_splits)
qed

lemma clean_compare_with:
  "clean col \<Longrightarrow> tame_path p \<Longrightarrow> clean rel \<Longrightarrow> compare_with lib col p rel v = Inr f \<Longrightarrow> clean_fragment f"
  by (auto simp: compare_with_def and_then_Inr_iff dest!: bind_Inr)

lemma clean_negate: "clean_fragment f \<Longrightarrow> clean_fragment (negate f)"
  by (simp add: negate_def)

lemma clean_conjoin:
  "joiner \<in> joiners \<Longrightarrow> list_all clean_fragment fs \<Longrightarrow> clean_fragment (conjoin_fragments fs joiner)"
proof -
  assume j: "joiner \<in> joiners" and fs: "list_all clean_fragment fs"
  then have "list_all clean (map fst fs)" by (simp add: list.pred_map comp_def)
  then have "clean (join joiner (map fst fs))" using j by (intro clean_join) (auto simp: joiners_def)
  with fs show ?thesis by (cases fs) (auto simp: conjoin_fragments_def conjoin_def)
qed

lemma clean_simple_operator:
  assumes col: "clean col" and p: "tame_path p" and "simple_operator lib col p op v = Inr f"
  shows "clean_fragment f"
  using assms(3) [symmetric]
proof (cases rule: simple_operator_cases)
  case Eq
  then show ?thesis using clean_compile_eq [OF col p, of lib v f] by simp
next
  case Ne
  then show ?thesis
    using clean_compile_eq [OF col p, of lib v] by (auto simp: and_then_def clean_negate split: sum.splits)
next
  case (Rel rel)
  then have "compare_with lib col p rel v = Inr f" "clean rel" by (auto simp: relations_def)
  then show ?thesis using clean_compare_with [OF col p, of rel lib v f] by simp
next
  case (In n)
  then show ?thesis using clean_compile_in [OF col p, of lib v n f] by simp
next
  case Exists
  then show ?thesis using col p by (simp add: compile_exists_def exists_test_def Let_def)
next
  case Regex
  then show ?thesis
    using col p
    by (cases v) (auto simp: regex_match_def and_then_def bind_string_def dest!: bind_Inr split: sum.splits)
next
  case Elem
  then show ?thesis
    using col p by (cases v)
      (auto simp: elem_match_def and_then_def bind_string_def split: if_splits sum.splits)
qed simp

interpretation literals: fragment_law clean_fragment tame_path tame "\<lambda>_ col. clean col"
proof unfold_locales
  fix k p
  assume "split_path k = Inr p" "tame k"
  then show "tame_path p" using split_path_set unfolding tame_path_def tame_def by blast
next
  show "clean_fragment (''1'', [])" by simp
qed (blast intro: clean_compile_eq clean_simple_operator clean_negate clean_conjoin)+

section \<open>Properties\<close>

lemma names_ok_mono:
  "\<forall>k. ok k \<longrightarrow> ok' k \<Longrightarrow> names_ok ok d \<Longrightarrow> names_ok ok' d"
proof (induction ok d rule: names_ok.induct)
  case (1 ok d)
  have "ok' k \<and> branch_ok ok' v" if f: "(k, v) \<in> set d" for k v
  proof -
    have kv: "ok k" "branch_ok ok v" using names_ok_field [OF "1.prems"(2) f] by simp_all
    have "list_all (\<lambda>(_, b). case b of BDocument view \<Rightarrow> names_ok ok' view | _ \<Rightarrow> True) bs"
      if v: "v = BArray bs" for bs
      using kv(2) "1.IH" [OF f refl v] "1.prems"(1) by (fastforce simp: branch_ok_def v list_all_iff split: bson.splits)
    with "1.prems"(1) kv(1) show ?thesis by (auto simp: branch_ok_def split: bson.splits)
  qed
  then show ?case by (auto simp: names_ok.simps [of ok' d] branch_ok_def list_all_iff)
qed

lemma render_needs_all_params: "render_sql lib sql ps = Inr out \<Longrightarrow> marks sql = length ps"
  by (induction lib sql ps arbitrary: out rule: render_sql.induct)
    (auto simp: and_then_Inr_iff split: list.splits if_splits)

definition demo_sql :: sql_lib where
  "demo_sql = \<lparr>escape_string = (\<lambda>s. concat (map (\<lambda>c.
       if c = CHR 0x27 \<or> c = CHR 0x22 \<or> c = CHR 0x5C then [CHR 0x5C, c] else [c]) s)),
     print_double = (\<lambda>_. ''0.5'')\<rparr>"

lemma demo_escapes: "escapes demo_sql"
proof -
  let ?e = "escape_string demo_sql"
  have "lex_from (Inside (CHR 0x27)) (?e s) = Inside (CHR 0x27) \<and> code_from (Inside (CHR 0x27)) (?e s) = []" for s
    by (induction s) (auto simp: demo_sql_def)
  then show ?thesis by (simp add: escapes_def demo_sql_def)
qed

text \<open>
  C9. From a filter to the statement the server runs: a condition compiled from a filter whose field
  names hold no apostrophe and no question mark always renders, and what the server sees outside
  of literals is the compiled text with each placeholder replaced by a number, a keyword or a
  complete literal. No string a client sends can end the literal it is in.
\<close>

theorem rendered_values_stay_literals:
  assumes "compile_filter lib d col = Inr (sql, params)" and "names_ok tame d"
    and "unquoted col" and "qmark \<notin> set col" and "escapes slib"
  shows "\<exists>statement. render_sql slib sql params = Inr statement \<and> lex_from Outside statement = Outside
    \<and> code_from Outside statement = fill slib (code_from Outside sql) params"
proof -
  have "names_plain d" by (rule names_ok_mono [OF _ assms(2)]) (simp add: tame_def)
  then have "marks sql = length params"
    using placeholders.good_document(1) [where f = "(sql, params)" and lib = lib and col = col and d = d] assms(1,4)
    by (simp add: compile_filter_def bound_def)
  moreover have "clean sql"
    using literals.good_document(1) [where f = "(sql, params)" and lib = lib and col = col and d = d] assms(1-4)
    by (simp add: compile_filter_def clean_def)
  ultimately show ?thesis using render_code [OF assms(5), of sql params Outside] by (simp add: clean_def)
qed

theorem rendered_values_stay_literals_witness:
  "\<exists>statement. render_sql demo_sql (scalar_expr [''a''] ''doc'' @ '' REGEXP ?'') [PText (sq @ '' OR 1=1'')]
      = Inr statement \<and> lex_from Outside statement = Outside
    \<and> code_from Outside statement = fill demo_sql
        (code_from Outside (scalar_expr [''a''] ''doc'' @ '' REGEXP ?'')) [PText (sq @ '' OR 1=1'')]"
proof (rule rendered_values_stay_literals [OF _ _ _ _ demo_escapes])
  show "compile_filter blank_lib [(''a'', BRegex (sq @ '' OR 1=1'') [])] ''doc'' =
      Inr (scalar_expr [''a''] ''doc'' @ '' REGEXP ?'', [PText (sq @ '' OR 1=1'')])"
    by (simp add: compile_filter_def compile_document.simps compile_field.simps split_path_def
        compile_eq_def bind_string_def conjoin_fragments_def conjoin_def nul_def sq_def)
qed (simp_all add: names_ok.simps tame_def)

lemma quoted_name_lex:
  "CHR ''`'' \<notin> set n \<Longrightarrow> lex_from (Inside (CHR ''`'')) n = Inside (CHR ''`'')
    \<and> code_from (Inside (CHR ''`'')) n = []"
  by (induction n) auto

text \<open>
  Every namespace the server accepts can be spliced into SQL: its table is two quoted names of at
  most 64 characters with a dot between them, whatever the names hold.
\<close>

theorem namespace_table_is_two_names:
  assumes "parse_namespace db collection = Inr ns"
  shows "\<exists>table. ns_table ns = Inr table \<and> lex_from Outside table = Outside
    \<and> code_from Outside table = ''`.`'' \<and> length db \<le> 64 \<and> length collection \<le> 64"
proof -
  have "(length n \<le> 64 \<and> n \<noteq> []) \<and> CHR ''`'' \<notin> set n \<and> nul \<notin> set n"
    if "validate_identifier n what = Inr u" for n what u
    using that by (auto simp: validate_identifier_def throw_if_def list_ex_iff unnameable_def
        split: if_splits)
  with assms have db: "length db \<le> 64" "db \<noteq> []" "CHR ''`'' \<notin> set db" "nul \<notin> set db"
    and coll: "length collection \<le> 64" "collection \<noteq> []" "CHR ''`'' \<notin> set collection" "nul \<notin> set collection"
    and ns: "ns = \<lparr>ns_db = db, ns_collection = collection\<rparr>"
    by (auto simp: parse_namespace_def and_then_Inr_iff)
  show ?thesis
    using db coll quoted_name_lex [of db] quoted_name_lex [of collection]
    by (simp add: ns_table_def ns quote_identifier_def)
qed

theorem namespace_table_is_two_names_witness:
  "\<exists>table. ns_table \<lparr>ns_db = ''app'', ns_collection = ''a.b'' @ sq\<rparr> = Inr table
    \<and> lex_from Outside table = Outside \<and> code_from Outside table = ''`.`''
    \<and> length ''app'' \<le> 64 \<and> length (''a.b'' @ sq) \<le> 64"
  by (rule namespace_table_is_two_names)
    (simp add: parse_namespace_def validate_identifier_def throw_if_def unnameable_def nul_def sq_def)

text \<open>
  What the server makes of the inside of a literal. The backslashes that \<open>to_json_path\<close> writes for
  the JSON path are taken by the literal around it, so a name with a double quote ends the quoted
  member of the path.
\<close>

fun literal_value :: "string \<Rightarrow> string" where
  "literal_value [] = []"
| "literal_value [c] = [c]"
| "literal_value (c # e # s) = (if c = CHR 0x5C then e # literal_value s else c # literal_value (e # s))"

lemma quote_in_name_ends_member:
  "literal_value (to_json_path [''a'' @ [quote_char] @ ''b'']) =
    ''$.'' @ [quote_char] @ ''a'' @ [quote_char] @ ''b'' @ [quote_char]"
  by code_simp

end
