(* ===== verification/ChangeStreams.thy ===== *)
theory ChangeStreams
  imports Oplog ResumeTokens Cursors Statements
begin

text \<open>
  Reading the oplog: as documents on \<open>local.oplog.rs\<close> (\<open>read_oplog\<close> in oplog.cc), as change events
  (changestream.cc), and the cursors that tail either (\<open>find_oplog\<close> and \<open>tail_batch\<close> in
  commands.cc). MariaDB's \<open>JSON_QUOTE\<close> and \<open>JSON_OBJECT('_id', JSON_EXTRACT(_, '$._id'))\<close>, the
  evaluation of a compiled filter and libbson's JSON parser are parameters.
\<close>

section \<open>Rows as documents\<close>

record mariadb =
  printer :: sql_lib
  json_quote :: "string \<Rightarrow> string"
  id_object :: "string \<Rightarrow> string"
  holds :: "string \<Rightarrow> string \<Rightarrow> bool"
  parse_json :: "string \<Rightarrow> string + document"

definition from_extjson :: "mariadb \<Rightarrow> string \<Rightarrow> document outcome" where
  "from_extjson db json = (case parse_json db json of
       Inl message \<Rightarrow> Inl (failed_to_parse message) | Inr d \<Rightarrow> Inr d)"

fun op_letter :: "oplog_kind \<Rightarrow> string" where
  "op_letter Op_insert = ''i''"
| "op_letter Op_update = ''u''"
| "op_letter Op_delete = ''d''"

text \<open>\<open>kEntryExpr\<close>: an oplog entry. A backquote stands for the double quotes of the JSON text.\<close>

definition quotes :: "string \<Rightarrow> string" where
  "quotes s = map (\<lambda>c. if c = CHR ''`'' then CHR 0x22 else c) s"

definition entry_expr :: "mariadb \<Rightarrow> oplog_row \<Rightarrow> string" where
  "entry_expr db r =
     quotes ''{`ts`:{`$timestamp`:{`t`:'' @ nat_text (seconds (ts r)) @ quotes '',`i`:''
     @ nat_text (increment (ts r)) @ quotes ''}},`op`:`'' @ op_letter (op_kind r)
     @ quotes ''`,`ns`:'' @ json_quote db (row_ns r) @ quotes '',`o`:'' @ o_json r
     @ (case o2_json r of None \<Rightarrow> [] | Some o2 \<Rightarrow> quotes '',`o2`:'' @ o2)
     @ quotes '',`v`:{`$numberInt`:`2`}''
     @ quotes '',`wall`:{`$date`:{`$numberLong`:`'' @ nat_text (seconds (ts r) * 1000)
     @ quotes ''`}}}''"

text \<open>
  \<open>kEventExpr\<close>: a change event. \<open>LPAD(LOWER(HEX(seq)), 16, '0')\<close> pads on the left, and cuts what
  is longer; \<open>SUBSTRING_INDEX(ns, '.', 1)\<close> is all of a name without a dot, and
  \<open>SUBSTRING(ns, LOCATE('.', ns) + 1)\<close> is too.
\<close>

definition lpad16 :: "string \<Rightarrow> string" where
  "lpad16 s = take 16 (replicate (16 - length s) (CHR ''0'') @ s)"

fun operation_type :: "oplog_kind \<Rightarrow> string" where
  "operation_type Op_insert = ''insert''"
| "operation_type Op_update = ''replace''"
| "operation_type Op_delete = ''delete''"

definition before_dot :: "string \<Rightarrow> string" where
  "before_dot ns = takeWhile (\<lambda>c. c \<noteq> CHR ''.'') ns"

definition after_dot :: "string \<Rightarrow> string" where
  "after_dot ns = (case dropWhile (\<lambda>c. c \<noteq> CHR ''.'') ns of [] \<Rightarrow> ns | _ # coll \<Rightarrow> coll)"

definition event_token :: "oplog_row \<Rightarrow> string" where
  "event_token r = lpad16 (hex_text (seq r))"

definition event_expr :: "mariadb \<Rightarrow> oplog_row \<Rightarrow> string" where
  "event_expr db r =
     quotes ''{`_id`:{`_data`:`'' @ event_token r
     @ quotes ''`},`operationType`:`'' @ operation_type (op_kind r)
     @ quotes ''`,`clusterTime`:{`$timestamp`:{`t`:'' @ nat_text (seconds (ts r)) @ quotes '',`i`:''
     @ nat_text (increment (ts r)) @ quotes ''}},`wallTime`:{`$date`:{`$numberLong`:`''
     @ nat_text (seconds (ts r) * 1000) @ quotes ''`}}''
     @ (if op_kind r = Op_delete then [] else quotes '',`fullDocument`:'' @ o_json r)
     @ quotes '',`ns`:{`db`:'' @ json_quote db (before_dot (row_ns r))
     @ quotes '',`coll`:'' @ json_quote db (after_dot (row_ns r))
     @ quotes ''},`documentKey`:'' @ (case o2_json r of None \<Rightarrow> id_object db (o_json r) | Some o2 \<Rightarrow> o2)
     @ ''}''"

definition entry_document :: "mariadb \<Rightarrow> oplog_row \<Rightarrow> document outcome" where
  "entry_document db r = from_extjson db (entry_expr db r)"

definition event_document :: "mariadb \<Rightarrow> oplog_row \<Rightarrow> document outcome" where
  "event_document db r = from_extjson db (event_expr db r)"

section \<open>Reading\<close>

record oplog_batch =
  documents :: "document list"
  last_seq :: nat

definition batch_of ::
  "(oplog_row \<Rightarrow> document outcome) \<Rightarrow> nat \<Rightarrow> oplog_row list \<Rightarrow> oplog_batch outcome" where
  "batch_of render after rs = and_then (map_res render rs) (\<lambda>ds.
     Inr \<lparr>documents = ds, last_seq = (if rs = [] then after else seq (last rs))\<rparr>)"

definition read_oplog ::
  "libbson \<Rightarrow> mariadb \<Rightarrow> document \<Rightarrow> nat \<Rightarrow> nat \<Rightarrow> bool \<Rightarrow> oplog_store \<Rightarrow> oplog_batch outcome" where
  "read_oplog lib db flt after limit newest tables =
     and_then (compile_filter lib flt ''doc'') (\<lambda>(sql, params).
     and_then (render_sql (printer db) sql params) (\<lambda>condition.
       let entries = filter (\<lambda>r. after < seq r \<and> holds db condition (entry_expr db r)) (rows tables);
           ordered = (if newest then newest_first entries else sort_key seq entries)
       in batch_of (entry_document db) after (take limit ordered)))"

definition require_change_stream_history :: "nat \<Rightarrow> oplog_store \<Rightarrow> unit outcome" where
  "require_change_stream_history after tables = (case history tables of
       None \<Rightarrow> Inl (internal_error ''oplog history metadata is missing'')
     | Some h \<Rightarrow>
         let lowest = max (pruned_seq h) (baseline_seq h) in
         if lowest \<le> after \<and> (after = 0 \<or> rows tables \<noteq> []) then Inr ()
         else Inl (change_stream_history_lost
           (''the resume point is no longer in the oplog; resume from a later point or resync ''
            @ ''(see changestream-plan.md)'')))"

text \<open>The SELECT sees one snapshot, the history check a later one.\<close>

definition read_changestream ::
  "mariadb \<Rightarrow> string \<Rightarrow> nat \<Rightarrow> nat \<Rightarrow> oplog_store \<Rightarrow> oplog_store \<Rightarrow> oplog_batch outcome" where
  "read_changestream db ns after limit tables later =
     (let rs = take limit (sort_key seq (filter (\<lambda>r. after < seq r \<and> row_ns r = ns) (rows tables)))
      in and_then (batch_of (event_document db) after rs) (\<lambda>batch.
         and_then (require_change_stream_history after later) (\<lambda>_. Inr batch)))"

definition resolve_change_stream_start :: "change_stream_options \<Rightarrow> oplog_store \<Rightarrow> nat outcome" where
  "resolve_change_stream_start opts tables = (case start opts of
       kToken \<Rightarrow> Inr (unat (ResumeTokens.after_seq opts))
     | kHead \<Rightarrow> Inr (oplog_head tables)
     | kOperationTime \<Rightarrow> (case history tables of
         None \<Rightarrow> Inl (internal_error ''could not resolve the change-stream operation time'')
       | Some h \<Rightarrow>
           let t = unat (ts_t opts); i = unat (ts_i opts);
               earlier = (\<lambda>r. seconds (ts r) < t \<or> seconds (ts r) = t \<and> increment (ts r) < i);
               before = fold max (map seq (filter earlier (rows tables))) 0;
               deleted = (pruned_seq h \<noteq> 0 \<and> (t < pruned_t h \<or> t = pruned_t h \<and> i \<le> pruned_i h));
               unknown = (legacy_baseline h \<and>
                 (t < baseline_t h \<or> t = baseline_t h \<and> i < baseline_i h))
           in if deleted \<or> unknown
              then Inl (change_stream_history_lost
                (''the requested operation time is older than the retained oplog; resync ''
                 @ ''(see changestream-plan.md)''))
              else Inr (max before (max (pruned_seq h) (baseline_seq h)))))"

text \<open>None is a clock table that does not exist, which the SQL adapter reports with code 26.\<close>

definition current_operation_time :: "oplog_store option \<Rightarrow> optime outcome" where
  "current_operation_time tables = (case tables of
       None \<Rightarrow> Inl (namespace_not_found ''chimera_meta.oplog_clock'')
     | Some db \<Rightarrow> Inr (case clock db of None \<Rightarrow> Optime 0 0 | Some c \<Rightarrow> c))"

definition current_operation_time_or_initialize ::
  "bool \<Rightarrow> oplog_store option \<Rightarrow> optime outcome" where
  "current_operation_time_or_initialize in_transaction tables =
     (let first = current_operation_time tables in
      if is_raise 26 first
      then and_then (install_oplog_schema in_transaction tables) (\<lambda>db. current_operation_time (Some db))
      else first)"

section \<open>Tailing cursors\<close>

text \<open>
  One pass of the loop in \<open>tail_batch\<close>: the snapshots seen by \<open>oplog_head\<close>, by the SELECT and by
  the history check.
\<close>

record pass =
  at_head :: oplog_store
  at_read :: oplog_store
  at_check :: oplog_store

type_synonym reader = "nat \<Rightarrow> nat \<Rightarrow> oplog_store \<Rightarrow> oplog_store \<Rightarrow> oplog_batch outcome"

definition next_after :: "nat \<Rightarrow> nat \<Rightarrow> oplog_batch \<Rightarrow> nat" where
  "next_after wanted head batch =
     (if wanted \<le> length (documents batch) then last_seq batch else max head (last_seq batch))"

text \<open>The passes that come before the deadline, in order: the first, and those after it.\<close>

fun tail_loop :: "reader \<Rightarrow> bool \<Rightarrow> nat \<Rightarrow> nat \<Rightarrow> pass \<Rightarrow> pass list \<Rightarrow> (document list \<times> nat) outcome" where
  "tail_loop read await after wanted p [] =
     and_then (read after wanted (at_read p) (at_check p)) (\<lambda>batch.
       Inr (documents batch, next_after wanted (oplog_head (at_head p)) batch))"
| "tail_loop read await after wanted p (q # qs) =
     and_then (read after wanted (at_read p) (at_check p)) (\<lambda>batch.
       if documents batch \<noteq> [] \<or> \<not> await
       then Inr (documents batch, next_after wanted (oplog_head (at_head p)) batch)
       else tail_loop read await after wanted q qs)"

definition tail_reader :: "libbson \<Rightarrow> mariadb \<Rightarrow> string \<Rightarrow> tail_state \<Rightarrow> reader" where
  "tail_reader lib db ns t after limit tables later =
     (if is_change_stream t then read_changestream db ns after limit tables later
      else read_oplog lib db (tail_filter t) after limit False tables)"

definition tail_batch ::
  "libbson \<Rightarrow> mariadb \<Rightarrow> int \<Rightarrow> string \<Rightarrow> tail_state \<Rightarrow> int32 \<Rightarrow> pass \<Rightarrow> pass list \<Rightarrow> registry
    \<Rightarrow> ((document list \<times> nat) \<times> registry) outcome" where
  "tail_batch lib db cursor_id ns t batch_size p ps r =
     and_then (tail_loop (tail_reader lib db ns t) (await_data t) (unat (Cursors.after_seq t))
                (nat (max (sint batch_size) 1)) p ps) (\<lambda>(docs, seq).
       Inr ((docs, seq), advance_tail cursor_id (word_of_nat seq) r))"

text \<open>
  \<open>find_oplog\<close> from the head on: the first batch, and the tail left in the registry when the
  request is tailable.
\<close>

definition find_oplog ::
  "libbson \<Rightarrow> mariadb \<Rightarrow> document \<Rightarrow> nat \<Rightarrow> bool \<Rightarrow> bool \<Rightarrow> bool \<Rightarrow> oplog_store \<Rightarrow> oplog_store
    \<Rightarrow> (document list \<times> tail_state option) outcome" where
  "find_oplog lib db flt wanted newest tailable await tables later =
     (let head = oplog_head tables in
      and_then (read_oplog lib db flt 0 wanted newest later) (\<lambda>batch.
        Inr (documents batch,
          if \<not> tailable then None
          else Some \<lparr>tail_filter = flt,
                after_seq = word_of_nat (if \<not> newest \<and> wanted \<le> length (documents batch)
                                         then last_seq batch else head),
                await_data = await, is_change_stream = False\<rparr>)))"

text \<open>\<open>open_change_stream\<close> once its options are read: the tail it registers.\<close>

definition open_change_stream ::
  "change_stream_options \<Rightarrow> oplog_store \<Rightarrow> oplog_store \<Rightarrow> tail_state outcome" where
  "open_change_stream opts tables later =
     and_then (resolve_change_stream_start opts tables) (\<lambda>after.
     and_then (require_change_stream_history after later) (\<lambda>_.
       Inr \<lparr>tail_filter = [], after_seq = word_of_nat after, await_data = True,
            is_change_stream = True\<rparr>))"

section \<open>Committed events over time\<close>

abbreviation oplog_run :: "bool \<Rightarrow> (string \<Rightarrow> string) \<Rightarrow> world \<Rightarrow> world \<Rightarrow> bool" where
  "oplog_run steady idf \<equiv> (oplog_step steady idf)\<^sup>*\<^sup>*"

lemma run_reachable: "oplog_run steady idf w w' \<Longrightarrow> oplog_reachable steady idf w \<Longrightarrow> oplog_reachable steady idf w'"
  by (induction rule: rtranclp_induct) (auto intro: next_step)

lemma step_committed: "oplog_step steady idf w w' \<Longrightarrow> \<exists>new. committed w' = committed w @ new"
  by (induction rule: oplog_step.induct) auto

lemma run_committed: "oplog_run steady idf w w' \<Longrightarrow> \<exists>new. committed w' = committed w @ new"
proof (induction rule: rtranclp_induct)
  case (step w' w'')
  then show ?case using step_committed by fastforce
qed simp

lemma reachable_by_seq: "oplog_reachable steady idf w \<Longrightarrow> by_seq (committed w)"
  by (metis reachable_ok world_okE ordered_by_seq)

lemma reachable_rows:
  "oplog_reachable steady idf w \<Longrightarrow>
    rows (store w) = filter (\<lambda>r. r \<in> set (rows (store w))) (committed w)"
  by (metis reachable_ok world_okE)

text \<open>What is committed up to an event, or up to a head that was read, does not change any more.\<close>

lemma run_settled:
  assumes reach: "oplog_reachable steady idf w" and run: "oplog_run steady idf w w'"
    and s: "s = oplog_head (store w) \<or> s \<in> seq ` set (committed w)"
    and r: "r \<in> set (committed w')" "seq r \<le> s"
  shows "r \<in> set (committed w)"
proof -
  from run_committed [OF run] obtain new where new: "committed w' = committed w @ new" by blast
  have ok: "world_ok steady w'" using run_reachable [OF run reach] by (rule reachable_ok)
  then have ord: "ordered steady (committed w') (store w')" by (rule world_okE)
  then have "1 \<le> seq r" using r(1) by (auto simp: ordered_def)
  then have "s \<noteq> 0" using r(2) by simp
  with s have "s \<in> seq ` set (committed w)"
    using head_in [of "store w"] rows_committed [OF reachable_ok [OF reach]] by auto
  then obtain x where x: "x \<in> set (committed w)" "seq x = s" by auto
  show ?thesis
  proof (rule ccontr)
    assume "r \<notin> set (committed w)"
    then have "r \<in> set new" using r(1) new by auto
    then have "seq x < seq r"
      using ordered_by_seq [OF ord] x(1) unfolding new by (auto simp: sorted_wrt_append)
    with x r(2) show False by simp
  qed
qed

lemma filter_settled:
  assumes "oplog_reachable steady idf w" and "oplog_run steady idf w w'"
    and "s = oplog_head (store w) \<or> s \<in> seq ` set (committed w)"
  shows "filter (\<lambda>r. seq r \<le> s \<and> P r) (committed w') = filter (\<lambda>r. seq r \<le> s \<and> P r) (committed w)"
proof -
  from run_committed [OF assms(2)] obtain new where new: "committed w' = committed w @ new" by blast
  have "by_seq (committed w @ new)"
    using reachable_by_seq [OF run_reachable [OF assms(2,1)]] unfolding new .
  then have "r \<notin> set (committed w)" if "r \<in> set new" for r
    using that by (auto simp: sorted_wrt_append)
  moreover have "r \<in> set (committed w)" if "r \<in> set new" "seq r \<le> s" for r
    using run_settled [OF assms, of r] that new by simp
  ultimately have "filter (\<lambda>r. seq r \<le> s \<and> P r) new = []" by (auto simp: filter_empty_conv)
  then show ?thesis by (simp add: new)
qed

section \<open>Sources that a cursor can tail\<close>

text \<open>
  A source promises that a read which succeeds returns the first events after the position, of
  everything it keeps that was ever committed.
\<close>

definition exact_batch ::
  "(oplog_row \<Rightarrow> bool) \<Rightarrow> (oplog_row \<Rightarrow> document outcome) \<Rightarrow> nat \<Rightarrow> nat \<Rightarrow> oplog_row list
    \<Rightarrow> oplog_batch \<Rightarrow> bool" where
  "exact_batch keep render after limit evs batch \<longleftrightarrow>
     batch_of render after (take limit (filter (\<lambda>r. after < seq r \<and> keep r) evs)) = Inr batch"

fun passes_in :: "bool \<Rightarrow> (string \<Rightarrow> string) \<Rightarrow> world \<Rightarrow> pass list \<Rightarrow> world \<Rightarrow> bool" where
  "passes_in steady idf w [] w' \<longleftrightarrow> oplog_run steady idf w w'"
| "passes_in steady idf w (p # ps) w' \<longleftrightarrow> (\<exists>a b c. oplog_run steady idf w a
     \<and> oplog_run steady idf a b \<and> oplog_run steady idf b c
     \<and> at_head p = store a \<and> at_read p = store b \<and> at_check p = store c
     \<and> passes_in steady idf c ps w')"

lemma passes_run: "passes_in steady idf w ps w' \<Longrightarrow> oplog_run steady idf w w'"
  by (induction ps arbitrary: w) (auto intro: rtranclp_trans)

lemma filter_upto_last:
  assumes "by_seq evs" and "take k evs \<noteq> []"
  shows "filter (\<lambda>r. seq r \<le> seq (last (take k evs))) evs = take k evs"
proof -
  let ?rs = "take k evs" and ?qs = "drop k evs"
  have s: "by_seq (?rs @ ?qs)" using assms(1) by simp
  have "filter (\<lambda>r. seq r \<le> seq (last ?rs)) ?rs = ?rs"
    using s by_seq_last [of ?rs] by (auto simp: filter_id_conv sorted_wrt_append order.order_iff_strict)
  moreover have "seq (last ?rs) < seq y" if "y \<in> set ?qs" for y
    using s last_in_set [OF assms(2)] that unfolding sorted_wrt_append by blast
  then have "filter (\<lambda>r. seq r \<le> seq (last ?rs)) ?qs = []"
    by (simp add: filter_empty_conv not_le)
  ultimately have "filter (\<lambda>r. seq r \<le> seq (last ?rs)) (?rs @ ?qs) = ?rs" by (simp only: filter_append) simp
  then show ?thesis by simp
qed

text \<open>One read moves a cursor from \<open>after\<close> over exactly the events it delivers.\<close>

lemma batch_advances:
  assumes reach: "oplog_reachable steady idf a" and ab: "oplog_run steady idf a b"
    and bw: "oplog_run steady idf b w"
    and exact: "exact_batch keep render after wanted (committed b) batch"
    and s: "s = next_after wanted (oplog_head (store a)) batch"
  shows "map_res render (filter (\<lambda>r. seq r \<le> s \<and> after < seq r \<and> keep r) (committed w))
      = Inr (documents batch) \<and> after \<le> s"
proof -
  define evs where "evs = filter (\<lambda>r. after < seq r \<and> keep r) (committed b)"
  let ?rs = "take wanted evs"
  have docs: "map_res render ?rs = Inr (documents batch)"
    and lst: "last_seq batch = (if ?rs = [] then after else seq (last ?rs))"
    using exact by (auto simp: exact_batch_def batch_of_def evs_def and_then_Inr_iff)
  have len: "length (documents batch) = length ?rs" using map_res_Inr_length [OF docs] .
  have rb: "oplog_reachable steady idf b" using run_reachable [OF ab reach] .
  have se: "by_seq evs" unfolding evs_def by (rule sorted_wrt_filter_rel) (rule reachable_by_seq [OF rb])
  have at_last: "filter (\<lambda>r. seq r \<le> s \<and> after < seq r \<and> keep r) (committed w) = ?rs"
    if "s = last_seq batch"
  proof (cases "?rs = []")
    case True
    with that lst have "s = after" by simp
    with True show ?thesis by (auto simp: filter_empty_conv)
  next
    case False
    with that lst have sl: "s = seq (last ?rs)" by simp
    have "last ?rs \<in> set (committed b)" using last_in_set [OF False] by (auto simp: evs_def dest: in_set_takeD)
    then have "filter (\<lambda>r. seq r \<le> s \<and> after < seq r \<and> keep r) (committed w) =
        filter (\<lambda>r. seq r \<le> s \<and> after < seq r \<and> keep r) (committed b)"
      by (intro filter_settled [OF rb bw]) (simp add: sl)
    also have "\<dots> = filter (\<lambda>r. seq r \<le> s) evs" by (simp add: evs_def conj_ac)
    finally show ?thesis using filter_upto_last [OF se False] sl by simp
  qed
  have "after \<le> seq r" if "r \<in> set ?rs" for r using in_set_takeD [OF that] by (simp add: evs_def)
  then have ge: "after \<le> last_seq batch" using lst last_in_set [of ?rs] by (cases "?rs = []") auto
  show ?thesis
  proof (cases "s = last_seq batch")
    case True
    then show ?thesis using at_last docs ge by simp
  next
    case False
    then have short: "length ?rs < wanted" and sh: "s = oplog_head (store a)" "last_seq batch \<le> s"
      using s len by (auto simp: next_after_def max_def split: if_splits)
    then have all: "?rs = evs" by simp
    have "seq r \<le> s" if "r \<in> set evs" for r
    proof -
      have "evs \<noteq> []" using that by auto
      then have "seq (last evs) \<le> s" using sh(2) lst unfolding all by simp
      then show ?thesis using by_seq_last [OF se that] by (cases "r = last evs") auto
    qed
    then have "filter (\<lambda>r. seq r \<le> s) evs = ?rs" unfolding all by (simp add: filter_id_conv)
    moreover have "filter (\<lambda>r. seq r \<le> s \<and> after < seq r \<and> keep r) (committed w) =
        filter (\<lambda>r. seq r \<le> s \<and> after < seq r \<and> keep r) (committed b)"
      using filter_settled [OF reach rtranclp_trans [OF ab bw], of s "\<lambda>r. after < seq r \<and> keep r"]
        filter_settled [OF reach ab, of s "\<lambda>r. after < seq r \<and> keep r"] sh(1) by simp
    ultimately show ?thesis using docs ge sh(2) by (simp add: evs_def conj_ac)
  qed
qed

locale tail_source =
  fixes steady :: bool and idf :: "string \<Rightarrow> string"
    and keep :: "oplog_row \<Rightarrow> bool" and render :: "oplog_row \<Rightarrow> document outcome"
    and read :: reader
  assumes read_exact: "oplog_reachable steady idf w \<Longrightarrow> oplog_run steady idf w w' \<Longrightarrow>
    read after limit (store w) (store w') = Inr batch \<Longrightarrow>
    exact_batch keep render after limit (committed w) batch"
begin

text \<open>A getMore delivers the events between the old position and the new one, each once.\<close>

lemma tail_loop_exact:
  assumes "oplog_reachable steady idf w" and "passes_in steady idf w (p # ps) w'"
    and "tail_loop read await after wanted p ps = Inr (docs, s)"
  shows "map_res render (filter (\<lambda>r. seq r \<le> s \<and> after < seq r \<and> keep r) (committed w')) = Inr docs
    \<and> after \<le> s"
  using assms
proof (induction ps arbitrary: w p)
  case Nil
  then obtain a b c where run: "oplog_run steady idf w a" "oplog_run steady idf a b"
      "oplog_run steady idf b c" "oplog_run steady idf c w'"
    and at: "at_head p = store a" "at_read p = store b" "at_check p = store c" by auto
  from Nil.prems(3) obtain batch where rd: "read after wanted (store b) (store c) = Inr batch"
    and res: "docs = documents batch" "s = next_after wanted (oplog_head (store a)) batch"
    by (auto simp: and_then_Inr_iff at)
  have ra: "oplog_reachable steady idf a" using run_reachable [OF run(1) Nil.prems(1)] .
  have "exact_batch keep render after wanted (committed b) batch"
    by (rule read_exact [OF run_reachable [OF run(2) ra] run(3) rd])
  from batch_advances [OF ra run(2) rtranclp_trans [OF run(3,4)] this res(2)] res(1)
  show ?case by simp
next
  case (Cons q ps)
  then obtain a b c where run: "oplog_run steady idf w a" "oplog_run steady idf a b"
      "oplog_run steady idf b c" "passes_in steady idf c (q # ps) w'"
    and at: "at_head p = store a" "at_read p = store b" "at_check p = store c"
    unfolding passes_in.simps(2) [of steady idf w p "q # ps"] by blast
  from Cons.prems(3) obtain batch where rd: "read after wanted (store b) (store c) = Inr batch"
    and res: "(if documents batch \<noteq> [] \<or> \<not> await
      then Inr (documents batch, next_after wanted (oplog_head (store a)) batch)
      else tail_loop read await after wanted q ps) = Inr (docs, s)"
    unfolding tail_loop.simps at and_then_Inr_iff by blast
  have ra: "oplog_reachable steady idf a" using run_reachable [OF run(1) Cons.prems(1)] .
  have rb: "oplog_reachable steady idf b" using run_reachable [OF run(2) ra] .
  show ?case
  proof (cases "documents batch \<noteq> [] \<or> \<not> await")
    case True
    have "exact_batch keep render after wanted (committed b) batch"
      by (rule read_exact [OF rb run(3) rd])
    from batch_advances [OF ra run(2) rtranclp_trans [OF run(3) passes_run [OF run(4)]] this] True res
    show ?thesis by auto
  next
    case False
    then show ?thesis using Cons.IH [OF run_reachable [OF run(3) rb] run(4)] res by auto
  qed
qed

end
section \<open>Change streams lose nothing\<close>

lemma kept_below_history:
  assumes ok: "oplog_reachable steady idf w" and h: "history (store w) = Some h"
    and r: "r \<in> set (committed w)" "max (pruned_seq h) (baseline_seq h) < seq r"
  shows "r \<in> set (rows (store w))"
proof (rule ccontr)
  assume "r \<notin> set (rows (store w))"
  with reachable_ok [OF ok] h r(1) have "covered steady h r" by (metis option.inject world_okE)
  with r(2) show False by (auto simp: covered_def)
qed

lemma read_changestream_exact:
  assumes reach: "oplog_reachable steady idf w" and run: "oplog_run steady idf w w'"
    and read: "read_changestream db ns after limit (store w) (store w') = Inr batch"
  shows "exact_batch (\<lambda>r. row_ns r = ns) (event_document db) after limit (committed w) batch"
proof -
  obtain h where h: "history (store w) = Some h" using reachable_ok [OF reach] by (rule world_okE)
  from run_history_grows [OF run] h obtain h' where h': "history (store w') = Some h'"
    and grows: "pruned_seq h \<le> pruned_seq h'" "baseline_seq h' = baseline_seq h"
    by (auto simp: history_grows_def)
  from read have after: "max (pruned_seq h) (baseline_seq h) \<le> after"
    using h' grows by (auto simp: read_changestream_def and_then_Inr_iff
        require_change_stream_history_def Let_def split: if_splits)
  let ?P = "\<lambda>r. after < seq r \<and> row_ns r = ns"
  have "filter ?P (rows (store w)) = filter ?P (filter (\<lambda>r. r \<in> set (rows (store w))) (committed w))"
    using reachable_rows [OF reach] by simp
  also have "\<dots> = filter ?P (committed w)"
    using kept_below_history [OF reach h] after by (auto intro!: filter_cong simp: filter_filter)
  finally have "filter ?P (rows (store w)) = filter ?P (committed w)" .
  moreover have "sort_key seq (filter ?P (committed w)) = filter ?P (committed w)"
    by (intro sorted_key_id sorted_wrt_filter_rel reachable_by_seq [OF reach])
  ultimately show ?thesis
    using read by (auto simp: read_changestream_def exact_batch_def and_then_Inr_iff)
qed

interpretation change_stream: tail_source steady idf "\<lambda>r. row_ns r = ns" "event_document db"
  "read_changestream db ns" for steady idf ns db
  by unfold_locales (rule read_changestream_exact)

text \<open>
  A client that watches a namespace: it opens a stream at \<open>s\<close>, and then asks for more, any time
  later and any number of times, while writers and the pruner go on.
\<close>

inductive watching ::
  "bool \<Rightarrow> (string \<Rightarrow> string) \<Rightarrow> mariadb \<Rightarrow> string \<Rightarrow> nat \<Rightarrow> world \<Rightarrow> document list \<Rightarrow> nat \<Rightarrow> bool"
  for steady :: bool and idf :: "string \<Rightarrow> string" and db :: mariadb and ns :: string and s :: nat where
  watch_open: "oplog_reachable steady idf w \<Longrightarrow> resolve_change_stream_start opts (store w) = Inr s \<Longrightarrow>
     watching steady idf db ns s w [] s"
| watch_more: "watching steady idf db ns s w docs pos \<Longrightarrow> passes_in steady idf w (p # ps) w' \<Longrightarrow>
     tail_loop (read_changestream db ns) await pos wanted p ps = Inr (batch, pos') \<Longrightarrow>
     watching steady idf db ns s w' (docs @ batch) pos'"
| watch_wait: "watching steady idf db ns s w docs pos \<Longrightarrow> oplog_run steady idf w w' \<Longrightarrow>
     watching steady idf db ns s w' docs pos"

lemma passes_later:
  "passes_in steady idf w ps w' \<Longrightarrow> oplog_run steady idf w' w'' \<Longrightarrow> passes_in steady idf w ps w''"
proof (induction ps arbitrary: w)
  case (Cons p ps)
  then show ?case by (fastforce simp del: split_paired_Ex)
qed (auto intro: rtranclp_trans)

lemma filter_interval:
  assumes "by_seq evs" and "s \<le> m" and "m \<le> t"
  shows "filter (\<lambda>r. seq r \<le> t \<and> s < seq r \<and> P r) evs =
    filter (\<lambda>r. seq r \<le> m \<and> s < seq r \<and> P r) evs @ filter (\<lambda>r. seq r \<le> t \<and> m < seq r \<and> P r) evs"
  using assms(1)
proof (induction evs)
  case (Cons x evs)
  show ?case
  proof (cases "seq x \<le> m")
    case False
    then have "filter (\<lambda>r. seq r \<le> m \<and> s < seq r \<and> P r) evs = []"
      using Cons.prems by (force simp: filter_empty_conv)
    with False Cons assms(2,3) show ?thesis by simp
  qed (use Cons assms(2,3) in simp)
qed simp

lemma map_res_append: "map_res f xs = Inr as \<Longrightarrow> map_res f ys = Inr bs \<Longrightarrow> map_res f (xs @ ys) = Inr (as @ bs)"
  by (simp add: map_res_Inr_iff list_all2_appendI)

lemma watching_ok:
  assumes "watching steady idf db ns s w docs pos"
  shows "oplog_reachable steady idf w \<and> s \<le> pos \<and> (\<forall>w'. oplog_run steady idf w w' \<longrightarrow>
    map_res (event_document db) (filter (\<lambda>r. seq r \<le> pos \<and> s < seq r \<and> row_ns r = ns) (committed w'))
      = Inr docs)"
  using assms
proof (induction rule: watching.induct)
  case (watch_open w opts)
  have "filter (\<lambda>r. seq r \<le> s \<and> s < seq r \<and> row_ns r = ns) xs = []" for xs
    by (auto simp: filter_empty_conv)
  with watch_open show ?case by simp
next
  case (watch_more w docs pos p ps w' await wanted batch pos')
  then have reach: "oplog_reachable steady idf w" and sp: "s \<le> pos"
    and ih: "\<And>x. oplog_run steady idf w x \<Longrightarrow> map_res (event_document db)
      (filter (\<lambda>r. seq r \<le> pos \<and> s < seq r \<and> row_ns r = ns) (committed x)) = Inr docs"
    by blast+
  have pp: "pos \<le> pos'"
    using change_stream.tail_loop_exact [OF reach watch_more.hyps(2,3)] by simp
  have "map_res (event_document db)
      (filter (\<lambda>r. seq r \<le> pos' \<and> s < seq r \<and> row_ns r = ns) (committed x)) = Inr (docs @ batch)"
    if x: "oplog_run steady idf w' x" for x
  proof -
    have later: "passes_in steady idf w (p # ps) x" using passes_later [OF watch_more.hyps(2) x] .
    have run: "oplog_run steady idf w x" using passes_run [OF later] .
    from change_stream.tail_loop_exact [OF reach later watch_more.hyps(3)]
    have "map_res (event_document db)
      (filter (\<lambda>r. seq r \<le> pos' \<and> pos < seq r \<and> row_ns r = ns) (committed x)) = Inr batch" by simp
    from map_res_append [OF ih [OF run] this]
    show ?thesis unfolding filter_interval [OF reachable_by_seq [OF run_reachable [OF run reach]] sp pp] .
  qed
  then show ?case
    using run_reachable [OF passes_run [OF watch_more.hyps(2)] reach] sp pp by (blast intro: order_trans)
next
  case (watch_wait w docs pos w')
  then show ?case by (blast intro: run_reachable rtranclp_trans)
qed

text \<open>
  C1. A watched namespace is delivered exactly once and in commit order: whatever writers and the
  pruner do, and whenever the snapshots of each getMore were taken, the events a client has been
  given are those committed between where the stream started and the position it has reached. An
  event that was pruned before it was read makes a getMore fail; it never goes missing.
\<close>

theorem watching_exactly_once:
  assumes "watching steady idf db ns s w docs pos"
  shows "s \<le> pos \<and> map_res (event_document db)
    (filter (\<lambda>r. seq r \<le> pos \<and> s < seq r \<and> row_ns r = ns) (committed w)) = Inr docs"
  using watching_ok [OF assms] by blast

text \<open>The start at an operation time, in terms of the order of times.\<close>

lemma resolve_at_time:
  assumes "start opts = kOperationTime" and "history tables = Some h"
    and "t = Optime (unat (ts_t opts)) (unat (ts_i opts))"
  shows "resolve_change_stream_start opts tables = Inr s \<longleftrightarrow>
    \<not> (pruned_seq h \<noteq> 0 \<and> t \<le> pruned_ts h) \<and> \<not> (legacy_baseline h \<and> t < baseline_ts h)
    \<and> s = max (fold max (map seq (filter (\<lambda>r. ts r < t) (rows tables))) 0)
            (max (pruned_seq h) (baseline_seq h))"
  using assms(1,2) unfolding assms(3) resolve_change_stream_start_def less_optime_def less_eq_optime_def
    pruned_ts_def baseline_ts_def by (auto simp: Let_def)

text \<open>
  C2. In a world whose clock never goes back, a stream opened at an operation time starts at the
  right place: an event of any namespace, pruned ones included, lies after the start if and only
  if it is not older than the time asked for.
\<close>

theorem operation_time_start:
  assumes reach: "oplog_reachable True idf w" and opts: "start opts = kOperationTime"
    and res: "resolve_change_stream_start opts (store w) = Inr s" and r: "r \<in> set (committed w)"
  shows "s < seq r \<longleftrightarrow> Optime (unat (ts_t opts)) (unat (ts_i opts)) \<le> ts r"
proof -
  define T where "T = Optime (unat (ts_t opts)) (unat (ts_i opts))"
  have ok: "world_ok True w" using reach by (rule reachable_ok)
  then obtain h where h: "history (store w) = Some h" and ord: "ordered True (committed w) (store w)"
    and anch: "anchored True (committed w) h" by (rule world_okE) blast
  let ?old = "map seq (filter (\<lambda>r. ts r < T) (rows (store w)))"
  let ?before = "fold max ?old 0"
  have s: "s = max ?before (max (pruned_seq h) (baseline_seq h))"
    and deleted: "pruned_seq h \<noteq> 0 \<Longrightarrow> pruned_ts h < T"
    and unknown: "legacy_baseline h \<Longrightarrow> baseline_ts h \<le> T"
    using res unfolding resolve_at_time [OF opts h T_def] by (auto simp: not_le not_less)
  have same: "ts a < ts b \<longleftrightarrow> seq a < seq b" if "a \<in> set (committed w)" "b \<in> set (committed w)" for a b
    using ordered_seq(2) [OF ord that] by simp
  show ?thesis unfolding T_def [symmetric]
  proof
    assume lt: "s < seq r"
    then have "r \<in> set (rows (store w))" using s by (intro kept_below_history [OF reach h r]) simp
    moreover have "\<not> seq r \<le> ?before" using lt s by simp
    ultimately have "\<not> ts r < T" using fold_max_le [of "seq r" ?old 0] by auto
    then show "T \<le> ts r" by simp
  next
    assume le: "T \<le> ts r"
    have "1 \<le> seq r" using ord r by (auto simp: ordered_def)
    then have "?before < seq r"
    proof (cases "?before = 0")
      case False
      then obtain x where x: "x \<in> set (rows (store w))" "ts x < T" "seq x = ?before"
        using fold_max_in [of ?old 0] by (auto elim!: imageE)
      from x(2) le have "ts x < ts r" by (rule less_le_trans)
      then show ?thesis using same [OF rows_committed [OF ok x(1)] r] x(3) by simp
    qed simp
    moreover have "pruned_seq h < seq r"
    proof (cases "pruned_seq h = 0")
      case False
      then obtain q where "q \<in> set (committed w)" "seq q = pruned_seq h" "ts q = pruned_ts h"
        using anch by (auto simp: anchored_def)
      with less_le_trans [OF deleted [OF False] le] same [of q r] r show ?thesis by simp
    qed (use \<open>1 \<le> seq r\<close> in simp)
    moreover have "baseline_seq h < seq r"
    proof (cases "legacy_baseline h")
      case True
      then obtain b where "b \<in> set (committed w)" "seq b = baseline_seq h + 1" "ts b = baseline_ts h"
        using anch by (auto simp: anchored_def)
      with leD [OF order_trans [OF unknown [OF True] le]] same [of r b] r show ?thesis by simp
    next
      case False
      then show ?thesis using anch \<open>1 \<le> seq r\<close> by (simp add: anchored_def)
    qed
    ultimately show "s < seq r" unfolding s by simp
  qed
qed

section \<open>Small worlds\<close>

definition demo_db :: mariadb where
  "demo_db = \<lparr>printer = demo_sql, json_quote = (\<lambda>s. s), id_object = (\<lambda>s. s), holds = (\<lambda>_ _. True),
     parse_json = (\<lambda>s. Inr [(''json'', BUtf8 s)])\<rparr>"

definition at_once :: "oplog_store \<Rightarrow> pass" where
  "at_once tables = \<lparr>at_head = tables, at_read = tables, at_check = tables\<rparr>"

lemma at_once_passes: "passes_in steady idf w [at_once (store w)] w"
  by (auto simp: at_once_def intro!: exI [of _ w])

lemma event_document_demo: "event_document demo_db r = Inr [(''json'', BUtf8 (event_expr demo_db r))]"
  by (simp add: event_document_def from_extjson_def demo_db_def)

lemma entry_document_demo: "entry_document demo_db r = Inr [(''json'', BUtf8 (entry_expr demo_db r))]"
  by (simp add: entry_document_def from_extjson_def demo_db_def)

definition demo_event :: "oplog_row \<Rightarrow> document" where
  "demo_event r = [(''json'', BUtf8 (event_expr demo_db r))]"

definition demo_entry :: "oplog_row \<Rightarrow> document" where
  "demo_entry r = [(''json'', BUtf8 (entry_expr demo_db r))]"

definition after_token :: "64 word \<Rightarrow> change_stream_options" where
  "after_token s = \<lparr>start = kToken, after_seq = s, ts_t = 0, ts_i = 0\<rparr>"

definition at_time :: "uint32 \<Rightarrow> uint32 \<Rightarrow> change_stream_options" where
  "at_time t i = \<lparr>start = kOperationTime, after_seq = 0, ts_t = t, ts_i = i\<rparr>"

lemma demo_read:
  "read_changestream demo_db ''app.a'' 1 10 (store three_events) (store three_events) =
    Inr \<lparr>documents = [demo_event (committed three_events ! 1)], last_seq = 2\<rparr>"
  by (simp add: read_changestream_def three_events_store three_events_committed batch_of_def
      event_document_demo demo_event_def require_change_stream_history_def)

lemma demo_watching:
  "watching True (\<lambda>s. s) demo_db ''app.a'' 1 three_events ([] @ [demo_event (committed three_events ! 1)]) 3"
proof (rule watch_more)
  show "watching True (\<lambda>s. s) demo_db ''app.a'' 1 three_events [] 1"
    by (rule watch_open [where opts = "after_token 1", OF three_events_reachable])
      (simp add: resolve_change_stream_start_def after_token_def)
  show "passes_in True (\<lambda>s. s) three_events [at_once (store three_events)] three_events"
    by (rule at_once_passes)
  show "tail_loop (read_changestream demo_db ''app.a'') True 1 10 (at_once (store three_events)) [] =
      Inr ([demo_event (committed three_events ! 1)], 3)"
    by (simp add: at_once_def demo_read next_after_def del: One_nat_def)
      (simp add: three_events_store three_events_committed oplog_head_def)
qed

theorem watching_exactly_once_witness:
  "map_res (event_document demo_db)
    (filter (\<lambda>r. seq r \<le> 3 \<and> 1 < seq r \<and> row_ns r = ''app.a'') (committed three_events))
    = Inr [demo_event (committed three_events ! 1)]"
  using watching_exactly_once [OF demo_watching] by simp

theorem operation_time_start_witness:
  "1 < seq (committed three_events ! 1) \<longleftrightarrow> Optime 101 1 \<le> ts (committed three_events ! 1)"
  using operation_time_start [OF three_events_reachable, of "at_time 101 1" 1 "committed three_events ! 1"]
  by (simp add: at_time_def resolve_change_stream_start_def three_events_store three_events_committed
      Let_def)

text \<open>Two writers, of which the second one stamps an earlier second.\<close>

definition skewed_world :: world where
  "skewed_world = written 100 ''app.a'' (Inserted ''2'')
     (written 101 ''app.a'' (Inserted ''1'') fresh_world)"

lemma skewed_reachable: "oplog_reachable False (\<lambda>s. s) skewed_world"
  unfolding skewed_world_def
  by (intro next_step [OF _ written_step] fresh_reachable)
    (auto simp: written_def fresh_world_def oplog_append_def tick_def Let_def)

text \<open>
  \<open>UNIX_TIMESTAMP()\<close> is the start of the statement, which may be long before the clock row's
  lock is granted (and a system clock can be set back), so operation times are not monotonic: a
  stream opened at the operation time of an event can begin after that event and never deliver it.
\<close>

theorem clock_step_back_skips_event:
  "oplog_reachable False (\<lambda>s. s) skewed_world
    \<and> resolve_change_stream_start (at_time 101 1) (store skewed_world) = Inr 2
    \<and> (\<exists>r. r \<in> set (committed skewed_world) \<and> ts r = Optime 101 1 \<and> seq r \<le> 2)"
proof (intro conjI exI [of _ "committed skewed_world ! 0"])
  show "oplog_reachable False (\<lambda>s. s) skewed_world" by (rule skewed_reachable)
qed (simp_all add: at_time_def resolve_change_stream_start_def skewed_world_def written_def
    fresh_world_def oplog_append_def tick_def Let_def)

definition two_events :: world where
  "two_events = written 101 ''app.a'' (Updated ''2'') (written 100 ''app.a'' (Inserted ''1'') fresh_world)"

lemma compile_empty: "compile_filter lib [] doc = Inr (''1'', [])"
  by (simp add: compile_filter_def compile_document.simps)

text \<open>
  \<open>find_oplog\<close> samples the head before it reads, and a tail that got a short first batch starts
  at that head: an event written in between is in the first batch and comes again with the first
  getMore. \<open>tail_batch\<close> guards against just this by taking the later of the two positions.
\<close>

theorem find_oplog_delivers_twice:
  "\<exists>t. find_oplog lib demo_db [] 10 False True True (store two_events) (store three_events) =
      Inr (map demo_entry (committed three_events), Some t)
    \<and> tail_loop (tail_reader lib demo_db ''local.oplog.rs'' t) True (unat (Cursors.after_seq t)) 10
        (at_once (store three_events)) [] = Inr ([demo_entry (committed three_events ! 2)], 3)"
proof -
  have read: "read_oplog lib demo_db [] n 10 False (store three_events) =
      batch_of (entry_document demo_db) n
        (take 10 (sort_key seq (filter (\<lambda>r. n < seq r) (rows (store three_events)))))" for n
    by (simp add: read_oplog_def compile_empty demo_db_def Let_def)
  have head: "oplog_head (store two_events) = 2" "oplog_head (store three_events) = 3"
    by (simp_all add: two_events_def three_events_def written_def fresh_world_def oplog_append_def
        tick_def Let_def oplog_head_def)
  have first: "read_oplog lib demo_db [] 0 10 False (store three_events) =
      Inr \<lparr>documents = map demo_entry (committed three_events), last_seq = 3\<rparr>"
    and again: "read_oplog lib demo_db [] 2 10 False (store three_events) =
      Inr \<lparr>documents = [demo_entry (committed three_events ! 2)], last_seq = 3\<rparr>"
    unfolding read
    by (simp_all add: three_events_store three_events_committed batch_of_def entry_document_demo
        demo_entry_def)
  let ?t = "\<lparr>tail_filter = [], after_seq = 2, await_data = True, is_change_stream = False\<rparr>"
  show ?thesis
  proof (intro exI [of _ ?t] conjI)
    show "find_oplog lib demo_db [] 10 False True True (store two_events) (store three_events) =
        Inr (map demo_entry (committed three_events), Some ?t)"
      unfolding find_oplog_def Let_def head first by (simp add: three_events_committed)
    show "tail_loop (tail_reader lib demo_db ''local.oplog.rs'' ?t) True (unat (Cursors.after_seq ?t)) 10
        (at_once (store three_events)) [] = Inr ([demo_entry (committed three_events ! 2)], 3)"
      by (simp add: tail_reader_def at_once_def again next_after_def head)
  qed
qed

section \<open>Tokens and progress\<close>

lemma lpad16_token: "seq r < 2 ^ 64 \<Longrightarrow> event_token r = encode_resume_token (word_of_nat (seq r))"
  by (simp add: event_token_def lpad16_def encode_resume_token_def Let_def unat_of_nat)

text \<open>
  C35. The token in the event of a row, which MariaDB makes out of the sequence number, is one the
  server accepts, and it resumes right after that row: the text SQL builds and the text the
  token codec demands agree for every BIGINT UNSIGNED.
\<close>

theorem event_token_resumes_after_row:
  assumes "seq r < 2 ^ 64"
  shows "\<exists>rest. event_expr db r = quotes ''{`_id`:{`_data`:`'' @ event_token r @ rest
    \<and> and_then (decode_resume_token (Some [(''_data'', BUtf8 (event_token r))]))
        (\<lambda>after. resolve_change_stream_start (after_token after) tables) = Inr (seq r)"
proof -
  have "decode_resume_token (Some [(''_data'', BUtf8 (event_token r))]) = Inr (word_of_nat (seq r))"
    by (simp add: decode_resume_token_read token.dec_Some_iff lpad16_token [OF assms] find_field_def nul_def)
  then show ?thesis
    using assms by (simp add: event_expr_def resolve_change_stream_start_def after_token_def unat_of_nat)
qed

theorem event_token_resumes_after_row_witness:
  "event_token (committed three_events ! 1) = ''0000000000000002'' \<and>
   (\<exists>rest. event_expr demo_db (committed three_events ! 1) =
      quotes ''{`_id`:{`_data`:`'' @ event_token (committed three_events ! 1) @ rest
    \<and> and_then (decode_resume_token (Some [(''_data'', BUtf8 (event_token (committed three_events ! 1)))]))
        (\<lambda>after. resolve_change_stream_start (after_token after) (store three_events))
        = Inr (seq (committed three_events ! 1)))"
proof
  show "event_token (committed three_events ! 1) = ''0000000000000002''"
    unfolding three_events_committed by code_simp
qed (rule event_token_resumes_after_row, simp add: three_events_committed)

lemma tail_loop_caught_up:
  assumes "tail_loop read True after wanted p ps = Inr ([], s)" and "0 < wanted"
  shows "\<exists>q \<in> set (p # ps). oplog_head (at_head q) \<le> s"
  using assms(1)
proof (induction ps arbitrary: p)
  case Nil
  then show ?case using assms(2) by (auto simp: and_then_Inr_iff next_after_def)
next
  case (Cons q ps)
  then show ?case by (fastforce simp: and_then_Inr_iff next_after_def split: if_splits)
qed

lemma passes_heads:
  "passes_in steady idf w ps w' \<Longrightarrow> q \<in> set ps \<Longrightarrow> \<exists>a. oplog_run steady idf w a \<and> at_head q = store a"
proof (induction ps arbitrary: w)
  case (Cons p ps)
  then obtain a b c where run: "oplog_run steady idf w a" "oplog_run steady idf a b"
      "oplog_run steady idf b c" "passes_in steady idf c ps w'" and at: "at_head p = store a"
    unfolding passes_in.simps(2) by blast
  show ?case
  proof (cases "q = p")
    case True
    with run(1) at show ?thesis by blast
  next
    case False
    with Cons run obtain d where "oplog_run steady idf c d" "at_head q = store d" by auto
    with run(1-3) show ?thesis by (meson rtranclp_trans)
  qed
qed simp

lemma head_last_committed:
  assumes "oplog_reachable steady idf w" and "r \<in> set (committed w)"
  shows "seq r \<le> oplog_head (store w)"
proof -
  have ok: "world_ok steady w" using assms(1) by (rule reachable_ok)
  have ne: "committed w \<noteq> []" using assms(2) by auto
  have "seq (last (committed w)) \<le> oplog_head (store w)"
    using ok ne by (intro head_le) (auto elim!: world_okE)
  moreover have "seq r \<le> seq (last (committed w))"
    using ok assms(2) by (auto elim!: world_okE dest: ordered_last)
  ultimately show ?thesis by simp
qed

text \<open>
  C33. A getMore that comes back empty means that the client has seen everything: every event of the
  namespace that was committed when the call began is at or before the position it started from.
\<close>

theorem empty_batch_means_caught_up:
  assumes "watching steady idf db ns s w docs pos" and "passes_in steady idf w (p # ps) w'"
    and "tail_loop (read_changestream db ns) True pos wanted p ps = Inr ([], pos')" and "0 < wanted"
  shows "filter (\<lambda>r. row_ns r = ns \<and> pos < seq r) (committed w) = []"
proof -
  have reach: "oplog_reachable steady idf w" using watching_ok [OF assms(1)] by blast
  have none: "filter (\<lambda>r. seq r \<le> pos' \<and> pos < seq r \<and> row_ns r = ns) (committed w') = []"
    using change_stream.tail_loop_exact [OF reach assms(2,3)] by (auto dest: map_res_Inr_length)
  from tail_loop_caught_up [OF assms(3,4)] passes_heads [OF assms(2)]
  obtain a where a: "oplog_run steady idf w a" "oplog_head (store a) \<le> pos'" by force
  have "seq r \<le> pos' \<and> r \<in> set (committed w')" if "r \<in> set (committed w)" for r
  proof -
    have "r \<in> set (committed a)" using run_committed [OF a(1)] that by auto
    from head_last_committed [OF run_reachable [OF a(1) reach] this] a(2)
      run_committed [OF passes_run [OF assms(2)]] that
    show ?thesis by auto
  qed
  with none show ?thesis by (auto simp: filter_empty_conv)
qed

lemma demo_read_end:
  "read_changestream demo_db ''app.a'' 3 10 (store three_events) (store three_events) =
    Inr \<lparr>documents = [], last_seq = 3\<rparr>"
  by (simp add: read_changestream_def three_events_store three_events_committed batch_of_def
      require_change_stream_history_def)

theorem empty_batch_means_caught_up_witness:
  "filter (\<lambda>r. row_ns r = ''app.a'' \<and> 3 < seq r) (committed three_events) = []"
proof (rule empty_batch_means_caught_up [OF demo_watching at_once_passes])
  show "tail_loop (read_changestream demo_db ''app.a'') True 3 10 (at_once (store three_events)) [] =
      Inr ([], 3)"
    by (simp add: at_once_def demo_read_end next_after_def)
      (simp add: three_events_store three_events_committed oplog_head_def)
qed simp

text \<open>
  A tail of the oplog has no such protection: entries that were pruned before it read them are
  skipped without an error, where a change stream reports that its history is lost.
\<close>

definition pruned_world :: world where
  "pruned_world = three_events\<lparr>store := (store three_events)\<lparr>rows := [committed three_events ! 2],
     history := Some \<lparr>pruned_seq = 2, pruned_t = 101, pruned_i = 1, legacy_baseline = False,
       baseline_seq = 0, baseline_t = 0, baseline_i = 0\<rparr>\<rparr>\<rparr>"

lemma pruned_world_run: "oplog_run steady idf three_events pruned_world"
  unfolding pruned_world_def
proof (rule prune_run [OF three_events_stage])
  show "prune_oplog 1 0 0 (\<lambda>_. store three_events) = Inr (2, (store three_events)
      \<lparr>rows := [committed three_events ! 2], history := Some \<lparr>pruned_seq = 2, pruned_t = 101,
        pruned_i = 1, legacy_baseline = False, baseline_seq = 0, baseline_t = 0, baseline_i = 0\<rparr>\<rparr>)"
    unfolding three_events_store three_events_committed by code_simp
qed

lemma oplog_tail_skips_pruned:
  "tail_loop (tail_reader lib demo_db ''local.oplog.rs'' fresh_tail) True 1 10
      (at_once (store pruned_world)) [] = Inr ([demo_entry (committed three_events ! 2)], 3)
    \<and> is_raise 286 (read_changestream demo_db ''app.a'' 1 10 (store pruned_world) (store pruned_world))"
  by (simp add: fresh_tail_def tail_reader_def at_once_def read_oplog_def compile_empty demo_db_def
      pruned_world_def three_events_store three_events_committed batch_of_def entry_document_def
      from_extjson_def demo_entry_def next_after_def oplog_head_def read_changestream_def
      require_change_stream_history_def event_document_def error_simps)

end
