(* ===== verification/Bytes.thy ===== *)
theory Bytes
  imports Prelude
begin

text \<open>
  Byte strings as numbers: big-endian (src/chimera/translator/src/id.cpp) and little-endian
  (src/chimera/plugin/chimera_mongo/wire.cc) integers, and the \<open>memcmp\<close> order of keys.
\<close>

section \<open>The order of keys\<close>

text \<open>\<open>memcmp\<close> over the shared length, then the shorter string first.\<close>

fun bytes_less :: "string \<Rightarrow> string \<Rightarrow> bool" where
  "bytes_less s [] = False"
| "bytes_less [] (c # t) = True"
| "bytes_less (a # s) (b # t) = (a < b \<or> (a = b \<and> bytes_less s t))"

lemma bytes_less_irrefl [simp]: "\<not> bytes_less s s"
  by (induction s) auto

lemma bytes_less_trans: "bytes_less s t \<Longrightarrow> bytes_less t u \<Longrightarrow> bytes_less s u"
proof (induction s t arbitrary: u rule: bytes_less.induct)
  case (2 c t)
  then show ?case by (cases u) auto
next
  case (3 a s b t)
  then show ?case by (cases u) auto
qed simp

lemma bytes_less_linear: "bytes_less s t \<or> s = t \<or> bytes_less t s"
proof (induction s t rule: bytes_less.induct)
  case (1 s)
  then show ?case by (cases s) auto
qed auto

lemma bytes_less_asym: "bytes_less s t \<Longrightarrow> \<not> bytes_less t s"
  using bytes_less_trans bytes_less_irrefl by blast

lemma bytes_less_prefix [simp]: "bytes_less (p @ s) (p @ t) = bytes_less s t"
  by (induction p) auto

section \<open>Numbers from bytes\<close>

definition be_value :: "string \<Rightarrow> nat" where
  "be_value s = foldl (\<lambda>n c. 256 * n + of_char c) 0 s"

fun be_bytes :: "nat \<Rightarrow> nat \<Rightarrow> string" where
  "be_bytes 0 n = []"
| "be_bytes (Suc k) n = be_bytes k (n div 256) @ [char_of n]"

lemma be_value_Nil [simp]: "be_value [] = 0"
  by (simp add: be_value_def)

lemma be_value_snoc [simp]: "be_value (s @ [c]) = 256 * be_value s + of_char c"
  by (simp add: be_value_def)

lemma length_be_bytes [simp]: "length (be_bytes k n) = k"
  by (induction k arbitrary: n) auto

lemma be_value_bytes: "be_value (be_bytes k n) = n mod 256 ^ k"
proof (induction k arbitrary: n)
  case (Suc k)
  have "n mod (256 * 256 ^ k) = 256 * (n div 256 mod 256 ^ k) + n mod 256"
    by (rule mod_mult2_eq)
  with Suc show ?case by simp
qed simp

lemma be_bytes_value: "length s = k \<Longrightarrow> be_bytes k (be_value s) = s"
proof (induction k arbitrary: s)
  case (Suc k)
  then obtain t c where s: "s = t @ [c]" by (cases s rule: rev_cases) auto
  have c: "of_char c < (256 :: nat)" by simp
  have "(256 * be_value t + of_char c) div 256 = be_value t" using c by simp
  moreover have "char_of (256 * be_value t + of_char c) = c"
  proof -
    have "(256 * be_value t + of_char c) mod 256 = of_char c" using c by simp
    then show ?thesis by (metis char_of_mod_256 char_of_char)
  qed
  ultimately show ?case using Suc s by simp
qed simp

lemma be_value_bound: "be_value s < 256 ^ length s"
proof -
  have "be_value (be_bytes (length s) (be_value s)) < 256 ^ length s"
    by (simp add: be_value_bytes)
  then show ?thesis by (simp add: be_bytes_value)
qed

lemma be_value_Cons: "be_value (c # s) = of_char c * 256 ^ length s + be_value s"
proof (induction s rule: rev_induct)
  case Nil
  show ?case using be_value_snoc [of "[]" c] by simp
next
  case (snoc x xs)
  have "be_value (c # xs @ [x]) = 256 * be_value (c # xs) + of_char x"
    using be_value_snoc [of "c # xs" x] by simp
  with snoc show ?case by (simp add: algebra_simps)
qed

text \<open>Byte order is numeric order: what lets InnoDB compare keys with \<open>memcmp\<close>.\<close>

lemma bytes_less_be_value:
  "length s = length t \<Longrightarrow> bytes_less s t \<longleftrightarrow> be_value s < be_value t"
proof (induction s t rule: list_induct2)
  case Nil
  then show ?case by simp
next
  case (Cons a s b t)
  have bs: "be_value s < 256 ^ length t" and bt: "be_value t < 256 ^ length t"
    using be_value_bound [of s] be_value_bound [of t] Cons.hyps by simp_all
  have lt: "of_char x * 256 ^ length t + be_value u < of_char y * 256 ^ length t + be_value w"
    if "x < y" "be_value u < 256 ^ length t" for x y :: char and u w
  proof -
    have "Suc (of_char x) \<le> of_char y" using that(1) by (simp add: less_char_def Suc_le_eq)
    then have "Suc (of_char x) * 256 ^ length t \<le> of_char y * 256 ^ length t"
      by (rule mult_le_mono1)
    with that(2) show ?thesis by simp
  qed
  consider "a < b" | "a = b" | "b < a" by fastforce
  then show ?case
  proof cases
    case 1
    with lt [of a b s t] bs Cons.hyps show ?thesis by (simp add: be_value_Cons)
  next
    case 2
    with Cons show ?thesis by (simp add: be_value_Cons)
  next
    case 3
    with lt [of b a t s] bt Cons.hyps show ?thesis by (auto simp: be_value_Cons)
  qed
qed

lemma be_value_inject: "length s = length t \<Longrightarrow> be_value s = be_value t \<Longrightarrow> s = t"
  by (metis be_bytes_value)

end
