(* ===== verification/Ids.thy ===== *)
theory Ids
  imports Bson Bytes
begin

text \<open>
  Primary keys (src/chimera/translator/src/id.cpp): the encoding of an \<open>_id\<close> as one byte
  string, a type tag followed by a payload whose \<open>memcmp\<close> order is the order of the values.
\<close>

unbundle bit_operations_syntax

section \<open>The code\<close>

definition kTagDouble :: char where "kTagDouble = CHR 0x01"

definition kTagString :: char where "kTagString = CHR 0x02"

definition kTagOid :: char where "kTagOid = CHR 0x07"

definition kTagInt :: char where "kTagInt = CHR 0x12"

definition big_endian :: "64 word \<Rightarrow> string" where
  "big_endian bits = map (\<lambda>i. char_of (unat (drop_bit (56 - 8 * i) bits AND 0xFF))) [0..<8]"

definition from_big_endian :: "string \<Rightarrow> 64 word" where
  "from_big_endian bytes =
     foldl (\<lambda>bits i. push_bit 8 bits OR word_of_nat (of_char (bytes ! i))) 0 [0..<8]"

definition sign_bit :: "64 word" where
  "sign_bit = push_bit 63 1"

definition encode_int :: "int64 \<Rightarrow> string" where
  "encode_int n = big_endian (n XOR sign_bit)"

definition decode_int :: "string \<Rightarrow> int64" where
  "decode_int bytes = from_big_endian bytes XOR sign_bit"

definition encode_double :: "double \<Rightarrow> string" where
  "encode_double bits = big_endian (if drop_bit 63 bits \<noteq> 0 then NOT bits else bits OR sign_bit)"

definition decode_double :: "string \<Rightarrow> double" where
  "decode_double bytes =
     (let bits = from_big_endian bytes
      in if drop_bit 63 bits \<noteq> 0 then bits AND NOT sign_bit else NOT bits)"

text \<open>The double literals \<open>-9223372036854775808.0\<close> and \<open>9223372036854775808.0\<close>.\<close>

definition d_min_int64 :: double where "d_min_int64 = 0xC3E0000000000000"

definition d_end_int64 :: double where "d_end_int64 = 0x43E0000000000000"

definition d_ge :: "double \<Rightarrow> double \<Rightarrow> bool" where
  "d_ge a b \<longleftrightarrow> d_less b a \<or> d_eq a b"

definition emdash :: string where
  "emdash = [CHR 0xE2, CHR 0x80, CHR 0x94]"

fun encode_id :: "bson \<Rightarrow> string outcome" where
  "encode_id (BOid bytes) = Inr (kTagOid # bytes)"
| "encode_id (BUtf8 s) = Inr (kTagString # s)"
| "encode_id (BInt32 n) = Inr (kTagInt # encode_int (scast n))"
| "encode_id (BInt64 n) = Inr (kTagInt # encode_int n)"
| "encode_id (BDouble d) =
     (if d_finite d \<and> d_integral d \<and> d_ge d d_min_int64 \<and> d_less d d_end_int64
      then (case d_to_int64 d of
              Some n \<Rightarrow> Inr (kTagInt # encode_int n)
            | None \<Rightarrow> Inl Undefined)
      else Inr (kTagDouble # encode_double d))"
| "encode_id _ = Inl (type_mismatch (''unsupported _id type '' @ emdash
      @ '' expected ObjectId, string, or number''))"

definition decode_id :: "string \<Rightarrow> bson outcome" where
  "decode_id key = (case key of
       [] \<Rightarrow> Inl (bad_value ''empty _id key'')
     | tag # payload \<Rightarrow>
         if tag = kTagOid then
           (if length payload \<noteq> 12 then Inl (bad_value ''malformed ObjectId _id key'')
            else Inr (BOid payload))
         else if tag = kTagString then Inr (BUtf8 payload)
         else if tag = kTagInt then
           (if length payload \<noteq> 8 then Inl (bad_value ''malformed integer _id key'')
            else Inr (BInt64 (decode_int payload)))
         else if tag = kTagDouble then
           (if length payload \<noteq> 8 then Inl (bad_value ''malformed double _id key'')
            else Inr (BDouble (decode_double payload)))
         else Inl (bad_value ''unknown _id key tag''))"

section \<open>Big-endian words\<close>

lemma take_bit_word_unat: "take_bit LENGTH(64) (unat w) = unat w" for w :: "64 word"
  using unat_64 [of w] by (simp add: take_bit_nat_eq_self)

lemma unat_byte: "unat (drop_bit k w AND 0xFF) = unat w div 2 ^ k mod 256" for w :: "64 word"
proof -
  have "drop_bit k w AND 0xFF = take_bit 8 (drop_bit k w)"
    by (simp add: take_bit_eq_mask mask_eq_exp_minus_1)
  then have "unat (drop_bit k w AND 0xFF) = take_bit 8 (drop_bit k (take_bit LENGTH(64) (unat w)))"
    by (simp only: unsigned_take_bit_eq unsigned_drop_bit_eq)
  then show ?thesis by (simp only: take_bit_word_unat) (simp add: take_bit_eq_mod drop_bit_eq_div)
qed

lemma be_bytes_map: "be_bytes k n = map (\<lambda>i. char_of (n div 256 ^ (k - 1 - i))) [0..<k]"
proof (induction k arbitrary: n)
  case (Suc k)
  have "map (\<lambda>i. char_of (n div 256 div 256 ^ (k - 1 - i))) [0..<k]
      = map (\<lambda>i. char_of (n div 256 ^ (Suc k - 1 - i)) :: char) [0..<k]"
    by (rule map_cong) (auto simp flip: div_mult2_eq power_Suc simp: Suc_diff_Suc)
  with Suc show ?case by simp
qed simp

lemma big_endian_bytes: "big_endian w = be_bytes 8 (unat w)"
proof -
  have "char_of (unat w div 2 ^ (56 - 8 * i) mod 256) = (char_of (unat w div 256 ^ (8 - 1 - i)) :: char)"
    if "i < 8" for i
  proof -
    have "(256::nat) ^ (8 - 1 - i) = 2 ^ (8 * (8 - 1 - i))" by (simp add: power_mult)
    also have "8 * (8 - 1 - i) = 56 - 8 * i" by simp
    finally show ?thesis by simp
  qed
  then show ?thesis unfolding big_endian_def be_bytes_map unat_byte by (intro map_cong) auto
qed

lemma be_value_big_endian [simp]: "be_value (big_endian w) = unat w"
proof -
  have "unat w < 256 ^ 8" using unat_64 [of w] by simp
  then show ?thesis by (simp only: big_endian_bytes be_value_bytes mod_less)
qed

lemma length_big_endian [simp]: "length (big_endian w) = 8"
  by (simp add: big_endian_bytes)

lemma or_byte: "push_bit 8 b OR word_of_nat c = 256 * b + word_of_nat c"
  if "c < 256" for b :: "64 word"
proof -
  have "c = take_bit 8 c" using that by (simp add: take_bit_eq_mod)
  then have lt: "bit c n \<Longrightarrow> n < 8" for n using bit_take_bit_iff [of 8 c n] by simp
  have "\<not> bit (push_bit 8 b) n \<or> \<not> bit (word_of_nat c :: 64 word) n" for n
    using lt [of n] by (auto simp: bit_push_bit_iff bit_of_nat_iff)
  then have "push_bit 8 b + word_of_nat c = push_bit 8 b OR word_of_nat c"
    by (rule disjunctive_add)
  then show ?thesis by (simp add: push_bit_eq_mult ac_simps)
qed

lemma from_big_endian_value: "length s = 8 \<Longrightarrow> from_big_endian s = word_of_nat (be_value s)"
proof -
  assume "length s = 8"
  then have s: "s = map ((!) s) [0..<8]" by (metis map_nth)
  have fold: "foldl (\<lambda>bits i. push_bit 8 bits OR word_of_nat (of_char (s ! i))) 0 is
      = (word_of_nat (be_value (map ((!) s) is)) :: 64 word)" for "is"
    by (induction "is" rule: rev_induct) (simp_all add: or_byte)
  show ?thesis unfolding from_big_endian_def fold using s by simp
qed

lemma from_big_endian_big_endian [simp]: "from_big_endian (big_endian w) = w"
  by (simp add: from_big_endian_value)

lemma big_endian_less: "bytes_less (big_endian v) (big_endian w) \<longleftrightarrow> unat v < unat w"
  by (subst bytes_less_be_value) simp_all

lemma big_endian_from_big_endian: "length s = 8 \<Longrightarrow> big_endian (from_big_endian s) = s"
proof -
  assume l: "length s = 8"
  have "be_value s < 2 ^ 64" using be_value_bound [of s] l by simp
  then have "unat (word_of_nat (be_value s) :: 64 word) = be_value s"
    by (simp add: unat_of_nat take_bit_nat_eq_self)
  then show ?thesis by (simp add: from_big_endian_value l big_endian_bytes be_bytes_value)
qed

section \<open>The sign bit\<close>

lemma unat_sign_bit: "unat sign_bit = 2 ^ 63"
  by (simp add: sign_bit_def)

lemma bit_sign_bit: "bit sign_bit n \<longleftrightarrow> n = 63"
  by (auto simp only: sign_bit_def bit_push_bit_iff bit_1_iff possible_bit_word) simp_all

lemma bit_63: "bit w 63 \<longleftrightarrow> 2 ^ 63 \<le> unat w" for w :: "64 word"
proof -
  have u: "unat w < 2 ^ 64" using unat_64 [of w] by simp
  have "bit w 63 \<longleftrightarrow> bit (unat w) 63" by (simp add: bit_unsigned_iff)
  also have "\<dots> \<longleftrightarrow> odd (unat w div 2 ^ 63)" by (rule bit_iff_odd)
  also have "\<dots> \<longleftrightarrow> 2 ^ 63 \<le> unat w"
  proof (cases "2 ^ 63 \<le> unat w")
    case True
    then have "unat w div 2 ^ 63 = 1" using u by (intro div_nat_eqI) simp_all
    with True show ?thesis by simp
  qed simp
  finally show ?thesis .
qed

lemma drop_bit_63: "drop_bit 63 w \<noteq> 0 \<longleftrightarrow> 2 ^ 63 \<le> unat w" for w :: "64 word"
proof -
  have "drop_bit 63 w = 0 \<longleftrightarrow> unat (drop_bit 63 w) = 0" by (rule unsigned_eq_0_iff [symmetric])
  also have "\<dots> \<longleftrightarrow> unat w div 2 ^ 63 = 0"
    by (simp only: unsigned_drop_bit_eq take_bit_word_unat) (simp only: drop_bit_eq_div)
  finally show ?thesis by (auto simp: div_eq_0_iff)
qed

lemma unat_xor_sign: "unat (w XOR sign_bit) = (if 2 ^ 63 \<le> unat w then unat w - 2 ^ 63 else unat w + 2 ^ 63)"
proof (cases "bit w 63")
  case True
  have "(w XOR sign_bit) + sign_bit = (w XOR sign_bit) OR sign_bit"
    by (rule disjunctive_add) (use True in \<open>auto simp: bit_xor_iff bit_sign_bit\<close>)
  also have "\<dots> = w"
    by (rule bit_word_eqI) (use True in \<open>auto simp: bit_xor_iff bit_or_iff bit_sign_bit\<close>)
  finally have w: "w XOR sign_bit = w - sign_bit" by (metis add_diff_cancel_right')
  have "sign_bit \<le> w" using True by (simp add: word_le_nat_alt unat_sign_bit bit_63)
  then have "unat (w XOR sign_bit) = unat w - 2 ^ 63" by (simp only: w unat_sub unat_sign_bit)
  with True show ?thesis by (simp add: bit_63)
next
  case False
  have "w + sign_bit = w OR sign_bit"
    by (rule disjunctive_add) (use False in \<open>auto simp: bit_sign_bit\<close>)
  also have "\<dots> = w XOR sign_bit"
    by (rule bit_word_eqI) (use False in \<open>auto simp: bit_xor_iff bit_or_iff bit_sign_bit\<close>)
  finally have w: "w XOR sign_bit = w + sign_bit" by simp
  have "unat w + unat sign_bit < 2 ^ 64" using False by (simp add: bit_63 unat_sign_bit)
  then have "unat (w XOR sign_bit) = unat w + 2 ^ 63"
    unfolding w by (subst unat_word_ariths) (simp add: unat_sign_bit)
  with False show ?thesis by (simp add: bit_63)
qed

lemma unat_or_sign: "unat w < 2 ^ 63 \<Longrightarrow> unat (w OR sign_bit) = unat w + 2 ^ 63"
proof -
  assume a: "unat w < 2 ^ 63"
  then have b: "\<not> bit w 63" by (simp add: bit_63)
  have "w OR sign_bit = w XOR sign_bit"
    by (rule bit_word_eqI) (use b in \<open>auto simp: bit_xor_iff bit_or_iff bit_sign_bit\<close>)
  with a show ?thesis by (simp add: unat_xor_sign)
qed

lemma unat_not: "unat (NOT w) = 2 ^ 64 - 1 - unat w" for w :: "64 word"
proof -
  have "w + NOT w = - 1" by (simp add: not_eq_complement)
  have "NOT w = - 1 - w" by (simp add: not_eq_complement)
  then have "unat (NOT w) = unat (- 1 - w)" by simp
  also have "\<dots> = unat (- 1 :: 64 word) - unat w"
    by (rule unat_sub) simp
  also have "unat (- 1 :: 64 word) = 2 ^ 64 - 1"
    by (simp only: unsigned_minus_1_eq_mask) (simp add: mask_eq_exp_minus_1)
  finally show ?thesis .
qed

section \<open>The payloads\<close>

lemma length_encode_int [simp]: "length (encode_int n) = 8"
  by (simp add: encode_int_def)

lemma length_encode_double [simp]: "length (encode_double d) = 8"
  by (simp add: encode_double_def)

lemma xor_sign_twice [simp]: "(n XOR sign_bit) XOR sign_bit = n"
  by (simp add: xor.assoc)

lemma decode_encode_int [simp]: "decode_int (encode_int n) = n"
  by (simp add: decode_int_def encode_int_def)

text \<open>The payload of an integer key, read under the length check of decode_id.\<close>

definition int_payload :: "string \<Rightarrow> int64 option" where
  "int_payload p = (if length p = 8 then Some (decode_int p) else None)"

interpretation int_key: canonical_codec encode_int int_payload "\<lambda>_. True"
  by unfold_locales
    (auto simp: int_payload_def encode_int_def decode_int_def big_endian_from_big_endian xor.assoc
      split: if_splits)

lemma encode_int_inject [simp]: "encode_int m = encode_int n \<longleftrightarrow> m = n"
  by (rule int_key.enc_inject) simp_all

lemma encode_int_less: "bytes_less (encode_int m) (encode_int n) \<longleftrightarrow> sint m < sint n"
proof -
  have "(if h \<le> a then a - h else a + h) < (if h \<le> b then b - h else b + h)
      \<longleftrightarrow> (if h \<le> a then int a - 2 * int h else int a) < (if h \<le> b then int b - 2 * int h else int b)"
    if "a < 2 * h" "b < 2 * h" for a b h :: nat
    using that by auto
  from this [of "unat m" "2 ^ 63" "unat n"] show ?thesis
    unfolding encode_int_def big_endian_less unat_xor_sign sint_unat
    using unat_64 [of m] unat_64 [of n] by simp
qed

definition double_word :: "double \<Rightarrow> 64 word" where
  "double_word bits = (if drop_bit 63 bits \<noteq> 0 then NOT bits else bits OR sign_bit)"

lemma unat_double_word: "int (unat (double_word d)) = (if d_neg d then 2 ^ 63 - 1 else 2 ^ 63) + d_key d"
proof (cases "d_neg d")
  case True
  then have d: "2 ^ 63 \<le> unat d" by (simp only: d_neg_def)
  have "unat (double_word d) = 2 ^ 64 - 1 - unat d"
    using d by (simp only: double_word_def drop_bit_63 if_True unat_not)
  then have "int (unat (double_word d)) = int (2 ^ 64 - 1 - unat d)" by (simp only:)
  moreover have "unat d = 2 ^ 63 + d_low d" using True unat_split [of d] by (simp only: if_True)
  ultimately have "int (unat (double_word d)) = int (2 ^ 63 - 1 - d_low d)" by simp
  also have "\<dots> = 2 ^ 63 - 1 - int (d_low d)"
  proof -
    have "int (h - 1 - n) = int h - 1 - int n" if "n < h" for n h :: nat using that by auto
    from this [OF d_low_bound [of d]] show ?thesis by simp
  qed
  finally show ?thesis using True by (simp add: d_key_def)
next
  case False
  then have d: "unat d < 2 ^ 63" by (simp only: d_neg_def not_le)
  have "unat (double_word d) = unat d + 2 ^ 63"
    unfolding double_word_def drop_bit_63 using unat_or_sign [OF d] d by simp
  then have "int (unat (double_word d)) = int (unat d + 2 ^ 63)" by (simp only:)
  with False show ?thesis using unat_split [of d] by (simp add: d_key_def)
qed

lemma decode_encode_double [simp]: "decode_double (encode_double d) = d"
proof -
  have w: "from_big_endian (encode_double d) = double_word d"
    by (simp add: encode_double_def double_word_def)
  show ?thesis
  proof (cases "d_neg d")
    case True
    then have d: "drop_bit 63 d \<noteq> 0" by (simp only: drop_bit_63 d_neg_def)
    then have e: "double_word d = NOT d" by (simp add: double_word_def)
    have "unat (NOT d) < 2 ^ 63" using True by (simp add: unat_not d_neg_def)
    then have "\<not> drop_bit 63 (NOT d) \<noteq> 0" by (simp only: drop_bit_63 not_le)
    then show ?thesis by (simp only: decode_double_def w e Let_def if_False bit.double_compl)
  next
    case False
    then have d: "\<not> drop_bit 63 d \<noteq> 0" and u: "unat d < 2 ^ 63"
      by (simp_all add: drop_bit_63 d_neg_def)
    from d have e: "double_word d = d OR sign_bit" by (simp only: double_word_def if_False)
    have "drop_bit 63 (d OR sign_bit) \<noteq> 0" using unat_or_sign [OF u] drop_bit_63 [of "d OR sign_bit"] by simp
    moreover have "(d OR sign_bit) AND NOT sign_bit = d"
      by (rule bit_word_eqI)
        (use u in \<open>auto simp: bit_and_iff bit_or_iff bit_not_iff bit_sign_bit bit_63\<close>)
    ultimately show ?thesis by (simp add: decode_double_def w e)
  qed
qed

lemma encode_double_inject [simp]: "encode_double d = encode_double e \<longleftrightarrow> d = e"
  by (metis decode_encode_double)

lemma d_neg_key: "d_key d \<noteq> 0 \<Longrightarrow> d_neg d \<longleftrightarrow> d_key d < 0"
  by (auto simp: d_key_def split: if_splits)

lemma encode_double_less: "d_val d \<noteq> 0 \<Longrightarrow> d_val e \<noteq> 0 \<Longrightarrow>
    bytes_less (encode_double d) (encode_double e) \<longleftrightarrow> d_val d < d_val e"
proof -
  assume "d_val d \<noteq> 0" "d_val e \<noteq> 0"
  then have k: "d_key d \<noteq> 0" "d_key e \<noteq> 0"
    by (auto simp: d_key_def d_val_def split: if_splits)
  have "bytes_less (encode_double d) (encode_double e)
      \<longleftrightarrow> int (unat (double_word d)) < int (unat (double_word e))"
    by (simp only: encode_double_def double_word_def [symmetric] big_endian_less of_nat_less_iff)
  also have "\<dots> \<longleftrightarrow> d_key d < d_key e"
    unfolding unat_double_word using k by (auto simp: d_neg_key)
  finally show ?thesis by (simp only: d_val_less_iff)
qed

section \<open>Integral doubles share the integers' keys\<close>

definition d_unit :: int where "d_unit = 2 ^ 1074"

lemma d_unit_pos: "0 < d_unit"
  by (simp only: d_unit_def zero_less_power zero_less_numeral)

lemma d_val_end: "d_val d_end_int64 = 2 ^ 63 * d_unit"
proof -
  have n: "\<not> d_neg d_end_int64" by code_simp
  have l: "d_low d_end_int64 = 1086 * 2 ^ 52" by code_simp
  have "mag_of (1086 * 2 ^ 52) = 2 ^ 52 * 2 ^ 1085"
  proof -
    have "Suc 1085 * 2 ^ 52 + 0 = (1086 * 2 ^ 52 :: nat)" by simp
    then show ?thesis using mag_of_fields [of 0 1085] by (simp only: add_0_right) simp
  qed
  then have "d_val d_end_int64 = int (2 ^ 52 * 2 ^ 1085)"
    by (simp only: d_val_def n l if_False)
  also have "\<dots> = 2 ^ (52 + 1085)" by (simp only: of_nat_mult of_nat_power of_nat_numeral power_add)
  also have "\<dots> = 2 ^ (63 + 1074)" by (rule arg_cong [of _ _ "\<lambda>n. 2 ^ n"]) simp
  finally show ?thesis by (simp only: power_add d_unit_def)
qed

lemma d_trunc_unit: "d_integral d \<Longrightarrow> d_trunc d * d_unit = d_val d"
  unfolding d_unit_def by (rule d_trunc_integral)

lemma d_trunc_val: "d_integral d \<Longrightarrow> d_to_int64 d = Some n \<Longrightarrow> sint n * d_unit = d_val d"
proof -
  assume i: "d_integral d" and n: "d_to_int64 d = Some n"
  from n have r: "- (2 ^ 63) \<le> d_trunc d" "d_trunc d < 2 ^ 63" and "n = word_of_int (d_trunc d)"
    by (auto simp: d_to_int64_def split: if_splits)
  then have "sint n = d_trunc d" by (simp add: signed_of_int signed_take_bit_int_eq_self)
  then show ?thesis using d_trunc_unit [OF i] by simp
qed

lemma d_val_min: "d_val d_min_int64 = - (2 ^ 63 * d_unit)"
proof -
  have n: "d_neg d_min_int64" and n': "\<not> d_neg d_end_int64" by code_simp+
  have l: "d_low d_min_int64 = d_low d_end_int64" by code_simp
  show ?thesis unfolding d_val_end [symmetric] d_val_def l using n n' by simp
qed

lemma literals_not_nan: "\<not> d_nan d_min_int64" "\<not> d_nan d_end_int64"
  by code_simp+

text \<open>The range test of encode_id is the range of \<open>int64_t\<close>, exactly.\<close>

definition int_keyed :: "double \<Rightarrow> bool" where
  "int_keyed d \<longleftrightarrow> d_finite d \<and> d_integral d \<and> d_ge d d_min_int64 \<and> d_less d d_end_int64"

lemma d_range_iff: "\<not> d_nan d \<Longrightarrow> d_ge d d_min_int64 \<and> d_less d d_end_int64 \<longleftrightarrow>
    - (2 ^ 63 * d_unit) \<le> d_val d \<and> d_val d < 2 ^ 63 * d_unit"
  unfolding d_ge_def d_less_def d_eq_def d_val_end d_val_min using literals_not_nan by auto

lemma finite_in_range: "\<not> d_nan d \<Longrightarrow> d_ge d d_min_int64 \<Longrightarrow> d_less d d_end_int64 \<Longrightarrow> d_finite d"
proof (rule ccontr)
  assume nan: "\<not> d_nan d" and r: "d_ge d d_min_int64" "d_less d d_end_int64" and "\<not> d_finite d"
  then have l: "d_low d = inf_low" by (auto simp: d_nan_def d_finite_def)
  have k: "d_key d_end_int64 = int (1086 * 2 ^ 52)" "d_key d_min_int64 = - int (1086 * 2 ^ 52)"
    by code_simp+
  from r have "d_key d_min_int64 \<le> d_key d" "d_key d < d_key d_end_int64"
    by (auto simp: d_ge_def d_less_key d_eq_key)
  with l show False unfolding k by (auto simp: d_key_def split: if_splits)
qed

lemma scale_less: "0 < u \<Longrightarrow> a * u < b * u \<longleftrightarrow> a < b" "0 < u \<Longrightarrow> a * u \<le> b * u \<longleftrightarrow> a \<le> b"
  for a b u :: int
  by simp_all

lemma int_keyed_to_int64: "int_keyed d \<Longrightarrow> \<exists>n. d_to_int64 d = Some n"
proof -
  assume k: "int_keyed d"
  then have f: "d_finite d" and i: "d_integral d" and nan: "\<not> d_nan d"
    by (auto simp: int_keyed_def d_finite_def d_nan_def)
  have "- (2 ^ 63) * d_unit \<le> d_trunc d * d_unit" "d_trunc d * d_unit < 2 ^ 63 * d_unit"
    using k d_range_iff [OF nan] unfolding d_trunc_unit [OF i] int_keyed_def minus_mult_left
    by blast+
  then have "- (2 ^ 63) \<le> d_trunc d" "d_trunc d < 2 ^ 63"
    by (simp_all only: scale_less [OF d_unit_pos])
  then show ?thesis using f by (simp only: d_to_int64_def) simp
qed

lemma int_value_keyed: "\<not> d_nan d \<Longrightarrow> d_val d = sint n * d_unit \<Longrightarrow> int_keyed d" for n :: int64
proof -
  assume nan: "\<not> d_nan d" and v: "d_val d = sint n * d_unit"
  have "- (2 ^ 63) \<le> sint n" "sint n < 2 ^ 63"
    using sint_ge [of n] sint_lt [of n] by simp_all
  then have "- (2 ^ 63) * d_unit \<le> d_val d" "d_val d < 2 ^ 63 * d_unit"
    unfolding v by (simp_all only: scale_less [OF d_unit_pos])
  then have r: "d_ge d d_min_int64 \<and> d_less d d_end_int64"
    unfolding d_range_iff [OF nan] minus_mult_left by blast
  moreover have "d_integral d" unfolding d_integral_def v d_unit_def by (rule dvd_triv_right)
  ultimately show ?thesis using finite_in_range [OF nan] by (simp add: int_keyed_def)
qed

text \<open>The exact value of a numeric id, in units of 2^-1074; None on a NaN and on other types.\<close>

fun id_number :: "bson \<Rightarrow> int option" where
  "id_number (BInt32 n) = Some (sint n * d_unit)"
| "id_number (BInt64 n) = Some (sint n * d_unit)"
| "id_number (BDouble d) = (if d_nan d then None else Some (d_val d))"
| "id_number _ = None"

lemma sint_scast_32: "sint (scast n :: int64) = sint n" for n :: int32
proof -
  have "- (2 ^ 31) \<le> sint n" "sint n < 2 ^ 31" using sint_ge [of n] sint_lt [of n] by simp_all
  then have "- (2 ^ 63) \<le> sint n" "sint n < 2 ^ 63" by simp_all
  then show ?thesis unfolding scast_eq signed_of_int by (simp add: signed_take_bit_int_eq_self)
qed

lemma number_key_cases:
  assumes "id_number v = Some x"
  obtains (Int) n where "encode_id v = Inr (kTagInt # encode_int n)" "x = sint n * d_unit"
    | (Double) d where "encode_id v = Inr (kTagDouble # encode_double d)" "x = d_val d"
        "\<nexists>n :: int64. x = sint n * d_unit"
proof (cases v)
  case (BDouble d)
  with assms have nan: "\<not> d_nan d" and x: "x = d_val d" by (auto split: if_splits)
  show ?thesis
  proof (cases "int_keyed d")
    case True
    then obtain n where n: "d_to_int64 d = Some n" using int_keyed_to_int64 by blast
    then have "encode_id v = Inr (kTagInt # encode_int n)"
      using True by (simp add: BDouble int_keyed_def)
    moreover have "x = sint n * d_unit"
      using True n d_trunc_val [of d n] x by (simp only: int_keyed_def)
    ultimately show ?thesis by (rule Int)
  next
    case False
    then have "encode_id v = Inr (kTagDouble # encode_double d)"
      unfolding BDouble encode_id.simps int_keyed_def by (simp only: if_False)
    moreover have "\<nexists>n :: int64. x = sint n * d_unit"
      using False int_value_keyed [OF nan] x by metis
    ultimately show ?thesis using x by (intro Double)
  qed
next
  case (BInt32 n)
  have "sint (scast n :: int64) = sint n" by (rule sint_scast_32)
  with assms BInt32 show ?thesis by (intro Int [of "scast n"]) simp_all
next
  case (BInt64 n)
  with assms show ?thesis by (intro Int [of n]) simp_all
qed (use assms in simp_all)

lemma units_eq: "a * d_unit = b * d_unit \<longleftrightarrow> a = b"
  using d_unit_pos by simp

lemma sint_eq_iff: "m = n \<longleftrightarrow> sint m = sint n" for m n :: int64
  by (auto intro: signed_word_eqI)

lemma tags_differ: "kTagDouble \<noteq> kTagInt"
  by (simp add: kTagDouble_def kTagInt_def)

lemma non_int_val: "\<nexists>n :: int64. x = sint n * d_unit \<Longrightarrow> x \<noteq> 0"
  by (metis mult_zero_left signed_0)

section \<open>Properties\<close>

text \<open>What decode_id gives back for an id: every integral number as an int64.\<close>

fun decoded_form :: "bson \<Rightarrow> bson" where
  "decoded_form (BInt32 n) = BInt64 (scast n)"
| "decoded_form (BDouble d) = (if int_keyed d then BInt64 (word_of_int (d_trunc d)) else BDouble d)"
| "decoded_form v = v"

text \<open>
  C18. A key decodes back to the id it was made from, an integral number coming back as the
  int64 of the same value.
\<close>

theorem decode_encode_id:
  assumes "encode_id v = Inr k" and "\<And>b. v = BOid b \<Longrightarrow> length b = 12"
  shows "decode_id k = Inr (decoded_form v)"
proof (cases v)
  case (BDouble d)
  show ?thesis
  proof (cases "int_keyed d")
    case True
    then obtain n where n: "d_to_int64 d = Some n" using int_keyed_to_int64 by blast
    then have "n = word_of_int (d_trunc d)" by (auto simp: d_to_int64_def split: if_splits)
    then show ?thesis
      using assms(1) True n BDouble
      by (auto simp: int_keyed_def decode_id_def kTagInt_def kTagOid_def kTagString_def)
  next
    case False
    then have "k = kTagDouble # encode_double d"
      using assms(1) unfolding BDouble encode_id.simps int_keyed_def by (simp only: if_False) simp
    with False BDouble show ?thesis
      by (simp add: decode_id_def kTagDouble_def kTagInt_def kTagOid_def kTagString_def)
  qed
qed (use assms in \<open>auto simp: decode_id_def kTagInt_def kTagOid_def kTagString_def\<close>)

theorem decode_encode_id_witness:
  "decode_id (kTagInt # encode_int 7) = Inr (decoded_form (BInt32 7))"
  by (rule decode_encode_id) simp_all

text \<open>
  C19. Two numbers have the same key exactly when they are the same number: 1, NumberLong(1) and
  1.0 are one id, and no two different values collide, whatever their types.
\<close>

theorem number_keys_equal_iff:
  assumes "id_number v = Some x" and "id_number w = Some y"
  shows "encode_id v = encode_id w \<longleftrightarrow> x = y"
  using assms(1)
proof (cases rule: number_key_cases)
  case v: (Int m)
  show ?thesis using assms(2)
  proof (cases rule: number_key_cases)
    case (Int n)
    with v show ?thesis by (simp only: units_eq sum.inject list.inject encode_int_inject sint_eq_iff) simp
  next
    case (Double e)
    then have "x \<noteq> y" using v(2) by metis
    with v(1) Double(1) tags_differ show ?thesis by simp
  qed
next
  case v: (Double d)
  show ?thesis using assms(2)
  proof (cases rule: number_key_cases)
    case (Int n)
    with v show ?thesis using tags_differ by auto
  next
    case (Double e)
    have "x = y \<Longrightarrow> d = e" using v Double d_val_bits [of d e] non_int_val [OF v(3)] by auto
    with v Double show ?thesis by auto
  qed
qed

theorem number_keys_equal_iff_witness:
  "encode_id (BInt32 1) = encode_id (BInt64 1) \<longleftrightarrow> sint (1 :: int32) * d_unit = sint (1 :: int64) * d_unit"
  by (rule number_keys_equal_iff) simp_all

text \<open>
  Among the keys of one tag, the byte order InnoDB sorts by is the numeric order of the
  values, negative ones included.
\<close>

theorem number_keys_order:
  assumes "id_number v = Some x" and "id_number w = Some y"
    and "encode_id v = Inr (tag # p)" and "encode_id w = Inr (tag # q)"
  shows "bytes_less (tag # p) (tag # q) \<longleftrightarrow> x < y"
  using assms(1)
proof (cases rule: number_key_cases)
  case v: (Int m)
  show ?thesis using assms(2)
  proof (cases rule: number_key_cases)
    case (Int n)
    have "bytes_less p q \<longleftrightarrow> sint m < sint n" using v Int assms(3,4) by (simp add: encode_int_less)
    then show ?thesis
      unfolding v(2) Int(2) scale_less(1) [OF d_unit_pos] by simp
  qed (use v assms tags_differ in auto)
next
  case v: (Double d)
  show ?thesis using assms(2)
  proof (cases rule: number_key_cases)
    case (Double e)
    have "d_val d \<noteq> 0" "d_val e \<noteq> 0"
      using non_int_val [OF v(3)] non_int_val [OF Double(3)] v(2) Double(2) by auto
    then have "bytes_less p q \<longleftrightarrow> d_val d < d_val e"
      using v Double assms(3,4) by (simp add: encode_double_less)
    then show ?thesis by (simp add: v(2) Double(2))
  qed (use v assms tags_differ in auto)
qed

theorem number_keys_order_witness:
  "bytes_less (kTagInt # encode_int (- 5)) (kTagInt # encode_int 3)
    \<longleftrightarrow> sint (- 5 :: int64) * d_unit < sint (3 :: int64) * d_unit"
  by (rule number_keys_order [of "BInt64 (- 5)" _ "BInt64 3"]) simp_all

text \<open>
  encode_id never runs into undefined behaviour (the cast of a double is reached in range
  only), and it rejects exactly the ids that are no ObjectId, string or number, with TypeMismatch.
\<close>

theorem encode_id_total:
  "encode_id v = (case v of
       BOid b \<Rightarrow> Inr (kTagOid # b)
     | BUtf8 s \<Rightarrow> Inr (kTagString # s)
     | BInt32 n \<Rightarrow> Inr (kTagInt # encode_int (scast n))
     | BInt64 n \<Rightarrow> Inr (kTagInt # encode_int n)
     | BDouble d \<Rightarrow> Inr (if int_keyed d then kTagInt # encode_int (word_of_int (d_trunc d))
                     else kTagDouble # encode_double d)
     | _ \<Rightarrow> Inl (type_mismatch (''unsupported _id type '' @ emdash
              @ '' expected ObjectId, string, or number'')))"
proof (cases v)
  case (BDouble d)
  show ?thesis
  proof (cases "int_keyed d")
    case True
    then obtain n where n: "d_to_int64 d = Some n" using int_keyed_to_int64 by blast
    then have "n = word_of_int (d_trunc d)" by (auto simp: d_to_int64_def split: if_splits)
    with n True show ?thesis by (auto simp: BDouble int_keyed_def)
  next
    case False
    then show ?thesis unfolding BDouble encode_id.simps bson.case int_keyed_def by (simp only: if_False)
  qed
qed simp_all

end
