(* ===== verification/Update.thy ===== *)
theory Update
  imports Paths
begin

text \<open>
  Updates (src/chimera/translator/src/update.cpp): a replacement document, or operators applied
  one field at a time to a copy of the document. The result is the new document with the list
  of dotted paths it touched. \<open>raw\<close> is libbson's buffer of a document, which \<open>value_equal\<close>
  compares.
\<close>

section \<open>The code\<close>

definition apostrophe :: string where
  "apostrophe = [CHR 0x27]"

definition current_array :: "document \<Rightarrow> path \<Rightarrow> string \<Rightarrow> bson list outcome" where
  "current_array doc path opname = (case path_get doc path of
       None \<Rightarrow> Inr []
     | Some v \<Rightarrow>
         if \<not> is_array v
         then Inl (type_mismatch (opname @ '' requires an array at '' @ apostrophe
                     @ to_json_path path @ apostrophe))
         else array_values v)"

definition each_values :: "bson \<Rightarrow> bson list outcome" where
  "each_values spec = (case spec of
       BDocument view \<Rightarrow> (case find_field view ''$each'' of
           Some v \<Rightarrow> array_values v
         | None \<Rightarrow> (case find (\<lambda>f. starts_char (CHR ''$'') (fst f)) view of
             Some f \<Rightarrow> Inl (failed_to_parse (''Unknown modifier: '' @ fst f))
           | None \<Rightarrow> Inr [spec]))
     | _ \<Rightarrow> Inr [spec])"

definition set_array :: "document \<Rightarrow> path \<Rightarrow> bson list \<Rightarrow> document outcome" where
  "set_array doc path elements = path_set doc path (BArray (make_array elements))"

text \<open>The operators.\<close>

definition increment :: "document \<Rightarrow> path \<Rightarrow> bson \<Rightarrow> document outcome" where
  "increment doc path arg =
     (if \<not> value_is_numeric arg then Inl (type_mismatch ''$inc requires a numeric argument'')
      else let existing = path_get doc path in
        and_then (case existing of
            None \<Rightarrow> Inr (d_of_int 0)
          | Some v \<Rightarrow>
              if \<not> value_is_numeric v
              then Inl (type_mismatch (''$inc target '' @ apostrophe @ to_json_path path @ apostrophe
                          @ '' is not a number''))
              else value_as_double v) (\<lambda>base.
        and_then (value_as_double arg) (\<lambda>amount.
          let total = d_add base amount;
              integral = (case existing of None \<Rightarrow> True | Some v \<Rightarrow> bson_type v \<noteq> 0x01)
                           \<and> bson_type arg \<noteq> 0x01
          in if integral
             then (case d_to_int64 total of
                     None \<Rightarrow> Inl Undefined
                   | Some n \<Rightarrow> path_set doc path (BInt64 n))
             else path_set doc path (BDouble total))))"

definition add_missing :: "(document \<Rightarrow> string) \<Rightarrow> bson \<Rightarrow> bson list \<Rightarrow> bson list" where
  "add_missing raw candidate elements =
     (if list_ex (\<lambda>e. value_equal raw e candidate) elements then elements
      else elements @ [candidate])"

definition apply_one ::
  "(document \<Rightarrow> string) \<Rightarrow> string \<Rightarrow> path \<Rightarrow> bson \<Rightarrow> document \<Rightarrow> document outcome" where
  "apply_one raw op path arg doc =
     (if op = ''$set'' then path_set doc path arg
      else if op = ''$unset'' then path_unset doc path
      else if op = ''$inc'' then increment doc path arg
      else if op = ''$push'' then
        and_then (current_array doc path ''$push'') (\<lambda>elements.
        and_then (each_values arg) (\<lambda>more. set_array doc path (elements @ more)))
      else if op = ''$addToSet'' then
        and_then (current_array doc path ''$addToSet'') (\<lambda>elements.
        and_then (each_values arg) (\<lambda>more. set_array doc path (fold (add_missing raw) more elements)))
      else if op = ''$pull'' then
        (if is_document arg
         then Inl (not_implemented ''$pull with a condition document is not supported yet'')
         else and_then (current_array doc path ''$pull'') (\<lambda>elements.
           set_array doc path (filter (\<lambda>e. \<not> value_equal raw e arg) elements)))
      else if op = ''$pop'' then
        and_then (current_array doc path ''$pop'') (\<lambda>elements.
          if elements = [] then Inr doc
          else if value_is_numeric arg \<and> d_less (as_double arg) (d_of_int 0)
          then set_array doc path (tl elements)
          else set_array doc path (butlast elements))
      else Inl (failed_to_parse (''Unknown modifier: '' @ op)))"

record update_result =
  doc :: document
  changed :: "string list"

definition apply_field ::
  "(document \<Rightarrow> string) \<Rightarrow> string \<Rightarrow> string \<times> bson \<Rightarrow> update_result \<Rightarrow> update_result outcome" where
  "apply_field raw op field u = (case field of (name, arg) \<Rightarrow>
     and_then (split_path name) (\<lambda>path.
       if ''$'' \<in> set path
       then Inl (not_implemented (''the positional '' @ apostrophe @ ''$'' @ apostrophe
                   @ '' operator is not supported yet''))
       else and_then (apply_one raw op path arg (doc u)) (\<lambda>d.
         Inr (u\<lparr>doc := d, changed := changed u @ [name]\<rparr>))))"

definition apply_operator ::
  "(document \<Rightarrow> string) \<Rightarrow> string \<Rightarrow> document \<Rightarrow> update_result \<Rightarrow> update_result outcome" where
  "apply_operator raw op spec = fold_res (apply_field raw op) spec"

definition is_operator :: "string \<times> bson \<Rightarrow> bool" where
  "is_operator field = starts_char (CHR ''$'') (fst field)"

text \<open>The loop over the top-level fields; the flag of the first field is not compared.\<close>

fun scan_operators :: "bool \<Rightarrow> bool \<Rightarrow> document \<Rightarrow> bool outcome" where
  "scan_operators front has_operators [] = Inr has_operators"
| "scan_operators front has_operators (field # rest) =
     (if is_operator field \<noteq> has_operators \<and> \<not> front
      then Inl (failed_to_parse ''update document mixes operators with replacement fields'')
      else scan_operators False (is_operator field) rest)"

definition replacement :: "document \<Rightarrow> document \<Rightarrow> update_result" where
  "replacement old new_fields =
     (let id = path_get old [''_id''] in
      \<lparr>doc = (case id of Some v \<Rightarrow> [(''_id'', v)] | None \<Rightarrow> [])
              @ filter (\<lambda>f. \<not> (id \<noteq> None \<and> fst f = ''_id'')) new_fields,
       changed = map fst new_fields\<rparr>)"

definition apply_operator_field ::
  "(document \<Rightarrow> string) \<Rightarrow> string \<times> bson \<Rightarrow> update_result \<Rightarrow> update_result outcome" where
  "apply_operator_field raw field u = (case snd field of
       BDocument view \<Rightarrow> apply_operator raw (fst field) view u
     | _ \<Rightarrow> Inl (failed_to_parse (''update operator '' @ apostrophe @ fst field @ apostrophe
                   @ '' expects a document'')))"

definition apply_update :: "(document \<Rightarrow> string) \<Rightarrow> document \<Rightarrow> document \<Rightarrow> update_result outcome" where
  "apply_update raw old update =
     and_then (scan_operators True False update) (\<lambda>has_operators.
       if \<not> has_operators then Inr (replacement old update)
       else fold_res (apply_operator_field raw) update \<lparr>doc = old, changed = []\<rparr>)"

section \<open>What an operator can touch\<close>

text \<open>Every operator writes at its path or nowhere.\<close>

definition writes_at :: "path \<Rightarrow> document \<Rightarrow> document \<Rightarrow> bool" where
  "writes_at p d d' \<longleftrightarrow> d' = d \<or> (\<exists>v. d' = set_in d p v) \<or> d' = unset_in d p"

lemma writes_at_self [simp]: "writes_at p d d" "writes_at p d (unset_in d p)"
  by (auto simp: writes_at_def)

lemma path_set_writes: "path_set d p v = Inr d' \<Longrightarrow> writes_at p d d'"
  by (auto simp: path_set_def writes_at_def split: if_splits)

lemma set_array_writes: "set_array d p vs = Inr d' \<Longrightarrow> writes_at p d d'"
  unfolding set_array_def by (rule path_set_writes)

lemma increment_writes: "increment d p arg = Inr d' \<Longrightarrow> writes_at p d d'"
  by (auto simp: increment_def Let_def and_then_Inr_iff path_set_writes split: if_splits option.splits)

lemma apply_one_writes: "apply_one raw op p arg d = Inr d' \<Longrightarrow> writes_at p d d'"
  by (auto simp: apply_one_def and_then_Inr_iff path_set_writes set_array_writes increment_writes
      path_unset_def split: if_splits)

lemma writes_at_frame:
  "writes_at p d d' \<Longrightarrow> valid_path p \<Longrightarrow> valid_path q \<Longrightarrow> apart p q \<Longrightarrow> path_get d' q = path_get d q"
  by (auto simp: writes_at_def doc_store.get_put_sep doc_store.get_del_sep)

lemma apply_field_step:
  "apply_field raw op (name, arg) u = Inr u' \<longleftrightarrow>
     (\<exists>p d'. split_path name = Inr p \<and> ''$'' \<notin> set p \<and> apply_one raw op p arg (doc u) = Inr d'
        \<and> u' = u\<lparr>doc := d', changed := changed u @ [name]\<rparr>)"
  by (auto simp: apply_field_def and_then_Inr_iff split: if_splits)

text \<open>The paths an operator document names, in order.\<close>

fun named_paths :: "document \<Rightarrow> string list" where
  "named_paths [] = []"
| "named_paths ((op, BDocument view) # rest) = map fst view @ named_paths rest"
| "named_paths (_ # rest) = named_paths rest"

definition untouched :: "string list \<Rightarrow> path \<Rightarrow> bool" where
  "untouched names q \<longleftrightarrow>
     (\<forall>name \<in> set names. \<forall>p. split_path name = Inr p \<longrightarrow> valid_path p \<and> apart p q)"

lemma untouched_simps [simp]:
  "untouched [] q"
  "untouched (a @ b) q \<longleftrightarrow> untouched a q \<and> untouched b q"
  by (auto simp: untouched_def)

lemma apply_operator_frame:
  "apply_operator raw op view u = Inr u' \<Longrightarrow>
    changed u' = changed u @ map fst view
    \<and> (\<forall>q. valid_path q \<and> untouched (map fst view) q \<longrightarrow> path_get (doc u') q = path_get (doc u) q)"
proof (induction view arbitrary: u)
  case Nil
  then show ?case by (simp add: apply_operator_def)
next
  case (Cons f view)
  obtain name arg where f: "f = (name, arg)" by (cases f)
  from Cons.prems obtain v where v: "apply_field raw op f u = Inr v" "apply_operator raw op view v = Inr u'"
    by (auto simp: apply_operator_def and_then_Inr_iff)
  from v(1) obtain p d' where p: "split_path name = Inr p" "apply_one raw op p arg (doc u) = Inr d'"
    and v': "v = u\<lparr>doc := d', changed := changed u @ [name]\<rparr>"
    by (auto simp: f apply_field_step)
  have "path_get (doc v) q = path_get (doc u) q" if "valid_path q" "untouched (map fst (f # view)) q" for q
    using that p v' writes_at_frame [OF apply_one_writes [OF p(2)]] f by (auto simp: untouched_def)
  with Cons.IH [OF v(2)] v' f show ?case by (auto simp: untouched_def)
qed

lemma apply_operator_field_document [simp]:
  "apply_operator_field raw (op, BDocument view) u = apply_operator raw op view u"
  by (simp add: apply_operator_field_def)

lemma apply_operators_frame:
  "fold_res (apply_operator_field raw) update u = Inr u' \<Longrightarrow>
    changed u' = changed u @ named_paths update
    \<and> (\<forall>q. valid_path q \<and> untouched (named_paths update) q \<longrightarrow> path_get (doc u') q = path_get (doc u) q)"
proof (induction update arbitrary: u rule: named_paths.induct)
  case (2 op view rest)
  then obtain v where v: "apply_operator raw op view u = Inr v"
      "fold_res (apply_operator_field raw) rest v = Inr u'"
    by (auto simp: and_then_Inr_iff)
  from apply_operator_frame [OF v(1)] "2.IH" [OF v(2)] show ?case by auto
qed (auto simp: and_then_Inr_iff apply_operator_field_def)

lemma scan_operators_uniform:
  "scan_operators False b fs = Inr h \<longleftrightarrow> list_all (\<lambda>f. is_operator f = b) fs \<and> h = b"
  by (induction fs arbitrary: b) auto

lemma scan_operators_iff:
  "scan_operators True False fs = Inr h \<longleftrightarrow>
     (fs \<noteq> [] \<longrightarrow> list_all (\<lambda>f. is_operator f = h) fs) \<and> (fs = [] \<longrightarrow> \<not> h)"
  by (cases fs) (auto simp: scan_operators_uniform)

section \<open>Arrays\<close>

text \<open>\<open>$addToSet\<close> as a specification: each value is added unless an equal one is there already.\<close>

definition represented :: "(document \<Rightarrow> string) \<Rightarrow> bson list \<Rightarrow> bson \<Rightarrow> bool" where
  "represented raw es v \<longleftrightarrow> list_ex (\<lambda>e. value_equal raw e v) es"

lemma add_missing_prefix: "prefix es (fold (add_missing raw) vs es)"
proof (induction vs arbitrary: es)
  case (Cons v vs)
  have "prefix es (add_missing raw v es)" by (simp add: add_missing_def)
  with Cons [of "add_missing raw v es"] show ?case by (auto intro: prefix_order.trans)
qed simp

lemma represented_prefix: "prefix es es' \<Longrightarrow> represented raw es v \<Longrightarrow> represented raw es' v"
  by (auto simp: represented_def prefix_def)

lemma add_missing_represented:
  "v \<in> set vs \<Longrightarrow> self_equal v \<Longrightarrow> represented raw (fold (add_missing raw) vs es) v"
proof (induction vs arbitrary: es)
  case (Cons w vs)
  show ?case
  proof (cases "v \<in> set vs")
    case True
    with Cons show ?thesis by simp
  next
    case False
    then have "represented raw (add_missing raw v es) v"
      using Cons.prems(2) by (auto simp: represented_def add_missing_def value_equal_refl)
    then show ?thesis using Cons.prems False represented_prefix add_missing_prefix by fastforce
  qed
qed simp

text \<open>
  A value that equals nothing, itself included (a Decimal128, a regular expression, a NaN), is not
  recognised either: it is added each time it is given.
\<close>

lemma add_missing_kept:
  "v \<in> set vs \<Longrightarrow> v \<in> set (fold (add_missing raw) vs es) \<or> represented raw (fold (add_missing raw) vs es) v"
proof (induction vs arbitrary: es)
  case (Cons w vs)
  show ?case
  proof (cases "v \<in> set vs")
    case False
    then have "v \<in> set (add_missing raw v es) \<or> represented raw (add_missing raw v es) v"
      by (auto simp: represented_def add_missing_def)
    moreover have "prefix (add_missing raw v es) (fold (add_missing raw) (w # vs) es)"
      using Cons.prems False add_missing_prefix by simp
    ultimately show ?thesis using represented_prefix set_mono_prefix by blast
  qed (use Cons in simp)
qed simp

lemma add_missing_unequal:
  "(\<And>e. e \<in> set (es @ vs) \<Longrightarrow> \<not> value_equal raw e v) \<Longrightarrow>
    count_list (fold (add_missing raw) vs es) v = count_list es v + count_list vs v"
proof (induction vs arbitrary: es)
  case (Cons w vs)
  have "count_list (fold (add_missing raw) vs (add_missing raw w es)) v
      = count_list (add_missing raw w es) v + count_list vs v"
    using Cons.prems by (intro Cons.IH) (auto simp: add_missing_def split: if_splits)
  moreover have "count_list (add_missing raw w es) v = count_list es v + (if w = v then 1 else 0)"
    using Cons.prems by (auto simp: add_missing_def list_ex_iff)
  ultimately show ?case by simp
qed simp

lemma add_missing_subseq: "\<exists>added. fold (add_missing raw) vs es = es @ added \<and> subseq added vs"
proof (induction vs arbitrary: es)
  case (Cons v vs)
  show ?case
  proof (cases "list_ex (\<lambda>e. value_equal raw e v) es")
    case True
    with Cons [of es] show ?thesis by (auto simp: add_missing_def)
  next
    case False
    then have "add_missing raw v es = es @ [v]" by (simp add: add_missing_def)
    moreover obtain added where "fold (add_missing raw) vs (es @ [v]) = (es @ [v]) @ added" "subseq added vs"
      using Cons by blast
    ultimately show ?thesis by (intro exI [of _ "v # added"]) simp
  qed
qed simp

text \<open>No element that was added equals an earlier one.\<close>

definition no_repeats_after :: "(document \<Rightarrow> string) \<Rightarrow> nat \<Rightarrow> bson list \<Rightarrow> bool" where
  "no_repeats_after raw n es \<longleftrightarrow> (\<forall>j < length es. n \<le> j \<longrightarrow> (\<forall>i < j. \<not> value_equal raw (es ! i) (es ! j)))"

lemma add_missing_no_repeats:
  "no_repeats_after raw n es \<Longrightarrow> n \<le> length es \<Longrightarrow> no_repeats_after raw n (fold (add_missing raw) vs es)"
proof (induction vs arbitrary: es)
  case (Cons v vs)
  have "no_repeats_after raw n (add_missing raw v es)"
    using Cons.prems(1)
    by (auto simp: no_repeats_after_def add_missing_def nth_append less_Suc_eq list_ex_iff)
  moreover have "n \<le> length (add_missing raw v es)" using Cons.prems(2) by (simp add: add_missing_def)
  ultimately show ?case using Cons.IH by simp
qed simp

lemma is_array_cases: "is_array v \<longleftrightarrow> (\<exists>d. v = BArray d)"
  by (cases v) auto

lemma current_array_array: "path_get d p = Some (BArray (make_array vs)) \<Longrightarrow> current_array d p s = Inr vs"
  by (simp add: current_array_def array_values_make_array)

section \<open>Increments\<close>

fun int_of_bson :: "bson \<Rightarrow> int option" where
  "int_of_bson (BInt32 n) = Some (sint n)"
| "int_of_bson (BInt64 n) = Some (sint n)"
| "int_of_bson _ = None"

lemma int_of_bson_numeric:
  "int_of_bson v = Some n \<Longrightarrow> value_is_numeric v \<and> as_double v = d_of_int n \<and> bson_type v \<noteq> 1"
  by (cases v) auto

lemma increment_exact:
  assumes "case path_get d p of None \<Rightarrow> n = 0 | Some v \<Rightarrow> int_of_bson v = Some n"
    and "int_of_bson arg = Some m" and "safe_int n" and "safe_int m" and "safe_int (n + m)"
  shows "increment d p arg = path_set d p (BInt64 (word_of_int (n + m)))"
proof -
  have t: "d_to_int64 (d_add (d_of_int n) (d_of_int m)) = Some (word_of_int (n + m))"
    using assms(3-5) by (simp add: d_add_of_int d_to_int64_of_int)
  have arg: "value_is_numeric arg" "as_double arg = d_of_int m" "bson_type arg \<noteq> 1"
    using int_of_bson_numeric [OF assms(2)] by auto
  show ?thesis
  proof (cases "path_get d p")
    case None
    with assms(1) t arg show ?thesis by (simp add: increment_def Let_def)
  next
    case (Some v)
    with assms(1) int_of_bson_numeric [of v n]
    have "value_is_numeric v" "as_double v = d_of_int n" "bson_type v \<noteq> 1" by auto
    with Some t arg show ?thesis by (simp add: increment_def Let_def)
  qed
qed

text \<open>Two sums beyond 2^53, evaluated.\<close>

lemma double_1: "d_of_int 1 = 0x3FF0000000000000" by code_simp

lemma double_2_53: "d_of_int (2 ^ 53) = 0x4340000000000000" by code_simp

lemma double_max: "d_of_int 0x7FFFFFFFFFFFFFFF = 0x43E0000000000000" by code_simp

lemma to_int64_2_53: "d_to_int64 0x4340000000000000 = Some (2 ^ 53)" by code_simp

lemma to_int64_max: "d_to_int64 0x43E0000000000000 = None" by code_simp

lemma fields_1:
  "\<not> d_nan 0x3FF0000000000000" "\<not> d_inf 0x3FF0000000000000"
  "d_sig 0x3FF0000000000000 = 4503599627370496" "d_shift 0x3FF0000000000000 = 1022"
  by code_simp+

lemma fields_2_53:
  "\<not> d_nan 0x4340000000000000" "\<not> d_inf 0x4340000000000000"
  "d_sig 0x4340000000000000 = 4503599627370496" "d_shift 0x4340000000000000 = 1075"
  by code_simp+

lemma fields_max:
  "\<not> d_nan 0x43E0000000000000" "\<not> d_inf 0x43E0000000000000"
  "d_sig 0x43E0000000000000 = 4503599627370496" "d_shift 0x43E0000000000000 = 1085"
  by code_simp+

lemma add_2_53: "d_add 0x4340000000000000 0x3FF0000000000000 = 0x4340000000000000"
proof -
  have "bitlen 40564819207303345351494129942528 = 106" by (simp add: bitlen.simps)
  then have "round_low 40564819207303345351494129942528 1022 = 0x4340000000000000"
    by (simp add: round_low_def round_half_even_def)
  moreover have "mk_double False 0x4340000000000000 = 0x4340000000000000" by code_simp
  ultimately show ?thesis by (simp add: d_add_def fields_1 fields_2_53)
qed

lemma add_max: "d_add 0x43E0000000000000 0x3FF0000000000000 = 0x43E0000000000000"
proof -
  have "bitlen 41538374868278621032747570261131264 = 116" by (simp add: bitlen.simps)
  then have "round_low 41538374868278621032747570261131264 1022 = 0x43E0000000000000"
    by (simp add: round_low_def round_half_even_def)
  moreover have "mk_double False 0x43E0000000000000 = 0x43E0000000000000" by code_simp
  ultimately show ?thesis by (simp add: d_add_def fields_1 fields_max)
qed

section \<open>Properties\<close>

text \<open>
  C20. An update that succeeds either has operators only or none. With operators it reports
  exactly the paths it names, in order, and every path apart from all of those reads as before:
  an update touches what it says it touches.
\<close>

theorem update_touches_what_it_names:
  assumes "apply_update raw old update = Inr u" and "\<exists>f \<in> set update. is_operator f"
  shows "list_all is_operator update \<and> changed u = named_paths update
    \<and> (\<forall>q. valid_path q \<and> untouched (changed u) q \<longrightarrow> path_get (doc u) q = path_get old q)"
proof -
  obtain h where h: "scan_operators True False update = Inr h"
    and run: "(if \<not> h then Inr (replacement old update)
       else fold_res (apply_operator_field raw) update \<lparr>doc = old, changed = []\<rparr>) = Inr u"
    using assms(1) by (auto simp: apply_update_def and_then_Inr_iff)
  have all: "list_all (\<lambda>f. is_operator f = h) update" using h assms(2) by (auto simp: scan_operators_iff)
  with assms(2) have "h" by (auto simp: list_all_iff)
  with run apply_operators_frame [of raw update "\<lparr>doc = old, changed = []\<rparr>" u] all show ?thesis by simp
qed

definition touch_old :: document where
  "touch_old = [(''a'', BInt32 1), (''b'', BDocument [(''c'', BBool True)])]"

definition touch_update :: document where
  "touch_update = [(''$set'', BDocument [(''a'', BNull)]), (''$unset'', BDocument [(''b.d'', BNull)])]"

theorem update_touches_what_it_names_witness:
  "\<exists>u. apply_update (\<lambda>_. []) touch_old touch_update = Inr u \<and> list_all is_operator touch_update
    \<and> changed u = [''a'', ''b.d'']
    \<and> path_get (doc u) [''b'', ''c''] = path_get touch_old [''b'', ''c'']
    \<and> path_get touch_old [''b'', ''c''] = Some (BBool True)"
proof -
  obtain u where u: "apply_update (\<lambda>_. []) touch_old touch_update = Inr u"
    by (cases "apply_update (\<lambda>_. []) touch_old touch_update")
      (simp_all add: apply_update_def touch_old_def touch_update_def is_operator_def apply_operator_field_def
        apply_operator_def apply_field_def split_path_def apply_one_def path_set_def path_unset_def set_in.simps)
  have op: "\<exists>f \<in> set touch_update. is_operator f" by (simp add: touch_update_def is_operator_def)
  have names: "named_paths touch_update = [''a'', ''b.d'']" by (simp add: touch_update_def)
  have "untouched (changed u) [''b'', ''c'']" and "valid_path [''b'', ''c'']"
    using update_touches_what_it_names [OF u op] names
    by (simp_all add: untouched_def split_path_def valid_path_def nul_def apart_def)
  moreover have "path_get touch_old [''b'', ''c''] = Some (BBool True)"
    by (simp add: touch_old_def path_get_deep nul_def)
  ultimately show ?thesis using u names update_touches_what_it_names [OF u op] by auto
qed

text \<open>
  A replacement keeps the id of the document, as its first field, and takes every other
  field from the update in order; an update that mixes operators with fields is refused with
  FailedToParse.
\<close>

theorem replacement_keeps_id:
  "(list_all (\<lambda>f. \<not> is_operator f) update \<longrightarrow>
     apply_update raw old update = Inr \<lparr>
       doc = (case path_get old [''_id''] of
                Some v \<Rightarrow> (''_id'', v) # filter (\<lambda>f. fst f \<noteq> ''_id'') update
              | None \<Rightarrow> update),
       changed = map fst update\<rparr>)
   \<and> ((\<exists>f \<in> set update. is_operator f) \<and> (\<exists>f \<in> set update. \<not> is_operator f) \<longrightarrow>
     is_raise 9 (apply_update raw old update))"
proof (intro conjI impI)
  assume *: "list_all (\<lambda>f. \<not> is_operator f) update"
  then have "scan_operators True False update = Inr False" by (cases update) (auto simp: scan_operators_uniform)
  then show "apply_update raw old update = Inr \<lparr>
       doc = (case path_get old [''_id''] of
                Some v \<Rightarrow> (''_id'', v) # filter (\<lambda>f. fst f \<noteq> ''_id'') update
              | None \<Rightarrow> update),
       changed = map fst update\<rparr>"
    by (auto simp: apply_update_def replacement_def Let_def split: option.splits)
next
  assume *: "(\<exists>f \<in> set update. is_operator f) \<and> (\<exists>f \<in> set update. \<not> is_operator f)"
  have err: "scan_operators b h fs = Inl e \<Longrightarrow>
      e = failed_to_parse ''update document mixes operators with replacement fields'' " for b h fs e
    by (induction b h fs rule: scan_operators.induct) (auto split: if_splits)
  have "scan_operators True False update \<noteq> Inr h" for h
    using * by (auto simp: scan_operators_iff list_all_iff)
  then obtain e where "scan_operators True False update = Inl e" by (cases "scan_operators True False update") auto
  with err [OF this] show "is_raise 9 (apply_update raw old update)"
    by (simp add: apply_update_def error_simps)
qed

theorem replacement_keeps_id_witness:
  "apply_update (\<lambda>_. []) [(''_id'', BInt32 1), (''a'', BNull)] [(''b'', BNull), (''_id'', BInt32 2)]
     = Inr \<lparr>doc = [(''_id'', BInt32 1), (''b'', BNull)], changed = [''b'', ''_id'']\<rparr>"
  using replacement_keeps_id [of "[(''b'', BNull), (''_id'', BInt32 2)]" "\<lambda>_. []"
    "[(''_id'', BInt32 1), (''a'', BNull)]"]
  by (simp add: is_operator_def find_field_def nul_def)

text \<open>
  C21. \<open>$addToSet\<close> keeps the array in front and appends some of the values it was given, in their
  order. Every given value is then an element or equal to one; a value that equals itself is
  always equal to one. Nothing is appended that equals an earlier element. A value that equals no
  element and no given value, itself included (\<open>value_equal\<close> holds for no Decimal128, regular expression
  or NaN), is appended as often as it is given.
\<close>

theorem add_to_set_correct:
  assumes "path_get d p = Some (BArray (make_array es))" and "each_values arg = Inr vs" and "valid_path p"
  shows "\<exists>d' added. apply_one raw ''$addToSet'' p arg d = Inr d'
    \<and> path_get d' p = Some (BArray (make_array (es @ added))) \<and> subseq added vs
    \<and> (\<forall>v \<in> set vs. v \<in> set (es @ added) \<or> represented raw (es @ added) v)
    \<and> (\<forall>v \<in> set vs. self_equal v \<longrightarrow> represented raw (es @ added) v)
    \<and> (\<forall>v. (\<forall>e \<in> set (es @ vs). \<not> value_equal raw e v) \<longrightarrow> count_list added v = count_list vs v)
    \<and> no_repeats_after raw (length es) (es @ added)"
proof -
  let ?es = "fold (add_missing raw) vs es"
  obtain added where added: "?es = es @ added" "subseq added vs" using add_missing_subseq by blast
  have "p \<noteq> []" using assms(3) by auto
  then have "apply_one raw ''$addToSet'' p arg d = Inr (set_in d p (BArray (make_array ?es)))"
    using assms(1,2) by (simp add: apply_one_def current_array_array set_array_def path_set_def)
  moreover have "path_get (set_in d p (BArray (make_array ?es))) p = Some (BArray (make_array ?es))"
    using assms(3) by (rule doc_store.get_put)
  moreover have "no_repeats_after raw (length es) ?es"
    by (rule add_missing_no_repeats) (auto simp: no_repeats_after_def)
  moreover have "count_list added v = count_list vs v" if "\<forall>e \<in> set (es @ vs). \<not> value_equal raw e v" for v
    using add_missing_unequal [of es vs raw v] that added(1) by simp
  ultimately show ?thesis
    using added add_missing_kept [of _ vs raw es] add_missing_represented [of _ vs raw es] by auto
qed

theorem add_to_set_correct_witness:
  "\<exists>d' added. apply_one (\<lambda>_. []) ''$addToSet'' [''a''] (BInt64 1) [(''a'', BArray (make_array [BInt32 1]))] = Inr d'
    \<and> path_get d' [''a''] = Some (BArray (make_array ([BInt32 1] @ added))) \<and> subseq added [BInt64 1]
    \<and> (\<forall>v \<in> set [BInt64 1]. v \<in> set ([BInt32 1] @ added) \<or> represented (\<lambda>_. []) ([BInt32 1] @ added) v)
    \<and> (\<forall>v \<in> set [BInt64 1]. self_equal v \<longrightarrow> represented (\<lambda>_. []) ([BInt32 1] @ added) v)
    \<and> (\<forall>v. (\<forall>e \<in> set ([BInt32 1] @ [BInt64 1]). \<not> value_equal (\<lambda>_. []) e v) \<longrightarrow>
        count_list added v = count_list [BInt64 1] v)
    \<and> no_repeats_after (\<lambda>_. []) (length [BInt32 1]) ([BInt32 1] @ added)"
  by (rule add_to_set_correct) (simp_all add: find_field_def nul_def each_values_def)

text \<open>
  \<open>$inc\<close> adds exactly while the numbers stay within 2^53: the new value is the int64 of the
  sum, and an absent field counts as zero.
\<close>

theorem increment_adds:
  assumes "case path_get d p of None \<Rightarrow> n = 0 | Some v \<Rightarrow> int_of_bson v = Some n"
    and "int_of_bson arg = Some m" and "safe_int n" and "safe_int m" and "safe_int (n + m)"
    and "valid_path p"
  shows "\<exists>d'. apply_one raw ''$inc'' p arg d = Inr d' \<and> path_get d' p = Some (BInt64 (word_of_int (n + m)))"
proof -
  have "p \<noteq> []" using assms(6) by auto
  then show ?thesis using increment_exact [OF assms(1-5)] doc_store.get_put [OF assms(6)]
    by (simp add: apply_one_def path_set_def)
qed

theorem increment_adds_witness:
  "\<exists>d'. apply_one (\<lambda>_. []) ''$inc'' [''a''] (BInt32 2) [(''a'', BInt64 40)] = Inr d'
    \<and> path_get d' [''a''] = Some (BInt64 (word_of_int (40 + 2)))"
  by (rule increment_adds) (simp_all add: find_field_def nul_def safe_int_def)

text \<open>
  \<open>$pull\<close> of a value removes exactly the elements that equal it and keeps the rest in order.
\<close>

theorem pull_removes:
  assumes "path_get d p = Some (BArray (make_array es))" and "\<not> is_document arg" and "valid_path p"
  shows "\<exists>d'. apply_one raw ''$pull'' p arg d = Inr d'
    \<and> path_get d' p = Some (BArray (make_array (filter (\<lambda>e. \<not> value_equal raw e arg) es)))"
proof -
  have "p \<noteq> []" using assms(3) by auto
  then show ?thesis using assms doc_store.get_put [OF assms(3)]
    by (simp add: apply_one_def current_array_array set_array_def path_set_def)
qed

theorem pull_removes_witness:
  "\<exists>d'. apply_one (\<lambda>_. []) ''$pull'' [''a''] (BBool True) [(''a'', BArray (make_array [BBool True, BNull]))] = Inr d'
    \<and> path_get d' [''a''] = Some (BArray (make_array (filter (\<lambda>e. \<not> value_equal (\<lambda>_. []) e (BBool True)) [BBool True, BNull])))"
  by (rule pull_removes) (simp_all add: find_field_def nul_def)

text \<open>
  An operator may rewrite the id: \<open>$set\<close> of \<open>_id\<close> goes through, although a replacement keeps
  the id as immutable.
\<close>

theorem set_rewrites_id:
  "apply_update raw [(''_id'', BInt32 1)] [(''$set'', BDocument [(''_id'', BInt32 2)])]
     = Inr \<lparr>doc = [(''_id'', BInt32 2)], changed = [''_id'']\<rparr>"
  by (simp add: apply_update_def is_operator_def apply_operator_def apply_field_def split_path_def
      apply_one_def path_set_def set_in.simps)

text \<open>
  \<open>$inc\<close> goes through a double even when both numbers are int64: adding 1 to 2^53 leaves
  2^53, and adding 1 to the largest int64 casts a double that does not fit, which is undefined.
\<close>

theorem increment_through_double:
  "apply_one raw ''$inc'' [''n''] (BInt64 1) [(''n'', BInt64 (2 ^ 53))] = Inr [(''n'', BInt64 (2 ^ 53))]
   \<and> apply_one raw ''$inc'' [''n''] (BInt64 1) [(''n'', BInt64 0x7FFFFFFFFFFFFFFF)] = Inl Undefined"
proof -
  have "increment [(''n'', BInt64 (2 ^ 53))] [''n''] (BInt64 1)
      = path_set [(''n'', BInt64 (2 ^ 53))] [''n''] (BInt64 (2 ^ 53))"
    unfolding increment_def Let_def
    by (simp add: find_field_def nul_def double_1 double_2_53 [simplified] add_2_53
        to_int64_2_53 [simplified])
  moreover have "increment [(''n'', BInt64 0x7FFFFFFFFFFFFFFF)] [''n''] (BInt64 1) = Inl Undefined"
    unfolding increment_def Let_def
    by (simp add: find_field_def nul_def double_1 double_max add_max to_int64_max)
  ultimately show ?thesis by (simp add: apply_one_def path_set_def set_in.simps)
qed

end
