(* ===== verification/Collections.thy ===== *)
theory Collections
  imports ChangeStreams Ids Update "HOL-Library.AList"
begin

text \<open>
  Collections (src/chimera/plugin/chimera_mongo/collection.cc): one table per namespace, its rows in
  the order of their keys, and the catalog in \<open>chimera_meta\<close>. An SQL statement is a
  function on this state. A write returns what it throws or its result together with the state it
  leaves; \<open>run_atomically\<close> (commands.cc) undoes what a failed one has done.

  Parameters: libbson and MariaDB as before, the raw bytes of a document, what the server answers
  about unique indexes and to an \<open>ALTER TABLE\<close>, the text of its errors, and, for every sequence
  number the oplog hands out, the second at which that happens and the ObjectId generated then.
  Names in the catalog compare as bytes, as under a binary collation.
\<close>

section \<open>The state\<close>

record index_row =
  index_name :: string
  key_spec :: string
  is_unique :: bool

record coll_table =
  table_rows :: "(string \<times> string) list"
  mirrored :: bool

record server =
  tables :: "(namespace \<times> coll_table) list"
  catalog :: "namespace list"
  index_rows :: "(namespace \<times> index_row) list"
  oplog :: "oplog_store option"

record env =
  bson_lib :: libbson
  sql_db :: mariadb
  raw_bytes :: "document \<Rightarrow> string"
  unique_ok :: "index_row list \<Rightarrow> string list \<Rightarrow> string \<Rightarrow> bool"
  alter_ok :: "coll_table \<Rightarrow> string \<Rightarrow> bool"
  server_text :: string
  times :: "nat \<Rightarrow> nat"
  oids :: "nat \<Rightarrow> string"

type_synonym 'a action = "server \<Rightarrow> 'a outcome \<times> server"

definition bind_action ::
  "'a outcome \<times> 's \<Rightarrow> ('a \<Rightarrow> 's \<Rightarrow> 'b outcome \<times> 's) \<Rightarrow> 'b outcome \<times> 's" where
  "bind_action m f = (case m of (Inl e, s) \<Rightarrow> (Inl e, s) | (Inr x, s) \<Rightarrow> f x s)"

lemma bind_action_simps [simp]:
  "bind_action (Inl e, s) f = (Inl e, s)" "bind_action (Inr x, s) f = f x s"
  by (simp_all add: bind_action_def)

lemma bind_action_cong [fundef_cong]:
  "m = m' \<Longrightarrow> (\<And>x s. m' = (Inr x, s) \<Longrightarrow> f x s = g x s) \<Longrightarrow> bind_action m f = bind_action m' g"
  by (auto simp: bind_action_def split: prod.split sum.split)

section \<open>Statements\<close>

definition table_of :: "namespace \<Rightarrow> server \<Rightarrow> coll_table option" where
  "table_of ns s = map_of (tables s) ns"

definition put_table :: "namespace \<Rightarrow> coll_table \<Rightarrow> server \<Rightarrow> server" where
  "put_table ns t s = s\<lparr>tables := AList.update ns t (tables s)\<rparr>"

definition position :: "server \<Rightarrow> nat" where
  "position s = (case oplog s of None \<Rightarrow> 0 | Some db \<Rightarrow> next_seq db)"

definition fire :: "env \<Rightarrow> namespace \<Rightarrow> change \<Rightarrow> server \<Rightarrow> server" where
  "fire env ns ch s = s\<lparr>oplog := map_option
     (trigger (id_object (sql_db env)) (times env (position s)) (ns_text ns) ch) (oplog s)\<rparr>"

definition fire_if :: "bool \<Rightarrow> env \<Rightarrow> namespace \<Rightarrow> change \<Rightarrow> server \<Rightarrow> server" where
  "fire_if on env ns ch s = (if on then fire env ns ch s else s)"

definition indexes_of :: "namespace \<Rightarrow> server \<Rightarrow> index_row list" where
  "indexes_of ns s = map snd (filter (\<lambda>p. fst p = ns) (index_rows s))"

text \<open>
  A table is clustered by its primary key, whose bytes are compared as they are (\<open>VARBINARY\<close>): the scan
  of a table, which is what a \<open>SELECT\<close> without \<open>ORDER BY\<close> is read as, meets its rows by key, and a new row
  goes before the first with a larger key.
\<close>

definition insert_row :: "string \<Rightarrow> string \<Rightarrow> (string \<times> string) list \<Rightarrow> (string \<times> string) list" where
  "insert_row key json rs = takeWhile (\<lambda>r. bytes_less (fst r) key) rs
     @ (key, json) # dropWhile (\<lambda>r. bytes_less (fst r) key) rs"

text \<open>\<open>VARBINARY(255)\<close>, the primary key, the unique indexes, the trigger.\<close>

definition sql_insert :: "env \<Rightarrow> namespace \<Rightarrow> string \<Rightarrow> string \<Rightarrow> unit action" where
  "sql_insert env ns key json s = (case table_of ns s of
       None \<Rightarrow> (Inl (namespace_not_found (server_text env)), s)
     | Some t \<Rightarrow>
         if 255 < length key then (Inl (internal_error (server_text env)), s)
         else if key \<in> fst ` set (table_rows t)
           \<or> \<not> unique_ok env (indexes_of ns s) (map snd (table_rows t)) json
         then (Inl (duplicate_key (server_text env)), s)
         else (Inr (), fire_if (mirrored t) env ns (Inserted json)
           (put_table ns (t\<lparr>table_rows := insert_row key json (table_rows t)\<rparr>) s)))"

definition set_row :: "string \<Rightarrow> string \<Rightarrow> (string \<times> string) list \<Rightarrow> (string \<times> string) list" where
  "set_row key json rs = map (\<lambda>(k, j). if k = key then (k, json) else (k, j)) rs"

definition sql_update :: "env \<Rightarrow> namespace \<Rightarrow> string \<Rightarrow> string \<Rightarrow> unit action" where
  "sql_update env ns key json s = (case table_of ns s of
       None \<Rightarrow> (Inl (namespace_not_found (server_text env)), s)
     | Some t \<Rightarrow>
         if key \<notin> fst ` set (table_rows t) then (Inr (), s)
         else if \<not> unique_ok env (indexes_of ns s)
           (map snd (filter (\<lambda>r. fst r \<noteq> key) (table_rows t))) json
         then (Inl (duplicate_key (server_text env)), s)
         else (Inr (), fire_if (mirrored t) env ns (Updated json)
           (put_table ns (t\<lparr>table_rows := set_row key json (table_rows t)\<rparr>) s)))"

definition sql_delete :: "env \<Rightarrow> namespace \<Rightarrow> (string \<times> string \<Rightarrow> bool) \<Rightarrow> nat action" where
  "sql_delete env ns doomed s = (case table_of ns s of
       None \<Rightarrow> (Inl (namespace_not_found (server_text env)), s)
     | Some t \<Rightarrow>
         let gone = filter doomed (table_rows t)
         in (Inr (length gone), fold (\<lambda>r. fire_if (mirrored t) env ns (Deleted (snd r))) gone
              (put_table ns (t\<lparr>table_rows := filter (\<lambda>r. \<not> doomed r) (table_rows t)\<rparr>) s)))"

section \<open>The code\<close>

definition coll_exists :: "namespace \<Rightarrow> server \<Rightarrow> bool" where
  "coll_exists ns s \<longleftrightarrow> table_of ns s \<noteq> None"

definition require_exists :: "namespace \<Rightarrow> server \<Rightarrow> unit outcome" where
  "require_exists ns s = throw_if (\<not> coll_exists ns s) (namespace_not_found (''ns not found: '' @ ns_text ns))"

definition where_clause :: "env \<Rightarrow> document \<Rightarrow> string outcome" where
  "where_clause env flt = and_then (compile_filter (bson_lib env) flt ''doc'')
     (\<lambda>(sql, params). render_sql (printer (sql_db env)) sql params)"

text \<open>
  \<open>chimera_adopt_table\<close>: the characters both names must consist of; a table it refuses stays, but
  without triggers.
\<close>

definition adoptable_char :: "char \<Rightarrow> bool" where
  "adoptable_char c \<longleftrightarrow> (let n = of_char c :: nat in
     65 \<le> n \<and> n \<le> 90 \<or> 97 \<le> n \<and> n \<le> 122 \<or> 48 \<le> n \<and> n \<le> 57) \<or> c \<in> set ''_$.-''"

definition adoptable :: "string \<Rightarrow> bool" where
  "adoptable name \<longleftrightarrow> name \<noteq> [] \<and> list_all adoptable_char name"

definition adopt_table :: "env \<Rightarrow> namespace \<Rightarrow> unit action" where
  "adopt_table env ns s =
     (if \<not> adoptable (ns_db ns) \<or> \<not> adoptable (ns_collection ns)
      then (Inl (internal_error (server_text env)), s)
      else (Inr (), (case table_of ns s of None \<Rightarrow> s | Some t \<Rightarrow> put_table ns (t\<lparr>mirrored := True\<rparr>) s)
              \<lparr>catalog := List.insert ns (catalog s)\<rparr>))"

definition install_oplog_triggers :: "env \<Rightarrow> namespace \<Rightarrow> unit action" where
  "install_oplog_triggers env ns s = (case install_oplog_schema False (oplog s) of
       Inl e \<Rightarrow> (Inl e, s)
     | Inr db \<Rightarrow> adopt_table env ns (s\<lparr>oplog := Some db\<rparr>))"

definition create :: "env \<Rightarrow> bool \<Rightarrow> namespace \<Rightarrow> unit action" where
  "create env error_if_exists ns s =
     (if coll_exists ns s
      then (throw_if error_if_exists (namespace_exists (''collection already exists: '' @ ns_text ns)), s)
      else install_oplog_triggers env ns (put_table ns \<lparr>table_rows = [], mirrored = False\<rparr> s))"

definition drop_collection :: "namespace \<Rightarrow> server \<Rightarrow> server" where
  "drop_collection ns s =
     (if \<not> coll_exists ns s then s
      else s\<lparr>tables := AList.delete ns (tables s), catalog := filter (\<lambda>n. n \<noteq> ns) (catalog s),
             index_rows := filter (\<lambda>p. fst p \<noteq> ns) (index_rows s)\<rparr>)"

definition id_path :: path where
  "id_path = [''_id'']"

text \<open>A document without an \<open>_id\<close> gets one in front.\<close>

definition with_id :: "string \<Rightarrow> document \<Rightarrow> document" where
  "with_id oid document = (case path_get document id_path of
       None \<Rightarrow> (''_id'', BOid oid) # document
     | Some _ \<Rightarrow> document)"

definition insert_document :: "env \<Rightarrow> namespace \<Rightarrow> document \<Rightarrow> bson action" where
  "insert_document env ns document s =
     (let stored = with_id (oids env (position s)) document
      in case path_get stored id_path of
           None \<Rightarrow> (Inl Undefined, s)
         | Some i \<Rightarrow>
             bind_action (encode_id i, s) (\<lambda>key s.
             bind_action (to_extjson (bson_lib env) stored, s) (\<lambda>json s.
             bind_action (sql_insert env ns key json s) (\<lambda>_ s. (Inr i, s)))))"

text \<open>The rows a \<open>SELECT\<close> with this condition returns.\<close>

definition selected :: "env \<Rightarrow> namespace \<Rightarrow> string \<Rightarrow> server \<Rightarrow> (string \<times> string) list" where
  "selected env ns condition s = (case table_of ns s of
       None \<Rightarrow> []
     | Some t \<Rightarrow> filter (\<lambda>r. holds (sql_db env) condition (snd r)) (table_rows t))"

definition load :: "env \<Rightarrow> namespace \<Rightarrow> document \<Rightarrow> server \<Rightarrow> document list outcome" where
  "load env ns flt s =
     and_then (require_exists ns s) (\<lambda>_.
     and_then (where_clause env flt) (\<lambda>condition.
       map_res (\<lambda>r. from_extjson (sql_db env) (snd r)) (selected env ns condition s)))"

definition count_documents :: "env \<Rightarrow> namespace \<Rightarrow> document \<Rightarrow> server \<Rightarrow> nat outcome" where
  "count_documents env ns flt s =
     (if \<not> coll_exists ns s then Inr 0
      else and_then (where_clause env flt) (\<lambda>condition. Inr (length (selected env ns condition s))))"

record update_outcome =
  matched :: nat
  modified :: nat
  upserted_id :: "bson option"

fun update_each ::
  "env \<Rightarrow> namespace \<Rightarrow> document \<Rightarrow> document list \<Rightarrow> update_outcome \<Rightarrow> update_outcome action" where
  "update_each env ns update [] out s = (Inr out, s)"
| "update_each env ns update (d # ds) out s = (case path_get d id_path of
       None \<Rightarrow> (Inl (internal_error (''stored document has no _id: '' @ ns_text ns)), s)
     | Some i \<Rightarrow>
         bind_action (apply_update (raw_bytes env) d update, s) (\<lambda>u s.
         bind_action (to_extjson (bson_lib env) (doc u), s) (\<lambda>new s.
         bind_action (to_extjson (bson_lib env) d, s) (\<lambda>old s.
           if new = old
           then update_each env ns update ds (out\<lparr>matched := matched out + 1\<rparr>) s
           else
             bind_action (encode_id i, s) (\<lambda>key s.
             bind_action (sql_update env ns key new s) (\<lambda>_ s.
               update_each env ns update ds
                 (out\<lparr>matched := matched out + 1, modified := modified out + 1\<rparr>) s))))))"

definition upsert_seed :: "document \<Rightarrow> document" where
  "upsert_seed flt = filter (\<lambda>(name, v). \<not> starts_char (CHR ''$'') name
     \<and> (case v of BDocument _ \<Rightarrow> False | _ \<Rightarrow> True)) flt"

definition update_documents ::
  "env \<Rightarrow> namespace \<Rightarrow> document \<Rightarrow> document \<Rightarrow> bool \<Rightarrow> bool \<Rightarrow> update_outcome action" where
  "update_documents env ns flt upd multi upsert s =
     bind_action (load env ns flt s, s) (\<lambda>found s.
     let matches = (if \<not> multi \<and> 1 < length found then take 1 found else found) in
     bind_action (update_each env ns upd matches \<lparr>matched = 0, modified = 0, upserted_id = None\<rparr> s)
       (\<lambda>out s.
       if matched out = 0 \<and> upsert
       then
         bind_action (apply_update (raw_bytes env) (upsert_seed flt) upd, s) (\<lambda>u s.
         bind_action (insert_document env ns (doc u) s) (\<lambda>i s. (Inr (out\<lparr>upserted_id := Some i\<rparr>), s)))
       else (Inr out, s)))"

definition remove_documents :: "env \<Rightarrow> namespace \<Rightarrow> document \<Rightarrow> bool \<Rightarrow> nat action" where
  "remove_documents env ns flt just_one s =
     bind_action (require_exists ns s, s) (\<lambda>_ s.
     bind_action (where_clause env flt, s) (\<lambda>condition s.
       if \<not> just_one then sql_delete env ns (\<lambda>r. holds (sql_db env) condition (snd r)) s
       else case selected env ns condition s of
           [] \<Rightarrow> (Inr 0, s)
         | (key, _) # _ \<Rightarrow> sql_delete env ns (\<lambda>r. fst r = key) s))"


end
