(* ===== verification/Mirror.thy ===== *)
theory Mirror
  imports Collections Machines
begin

text \<open>
  What the writes of a collection keep. An SQL statement obeys a law, and \<open>write_law\<close> carries it to
  every operation and every run; its interpretations are the mirror (a table is the replay of its
  events), the clock (a write's reading is its own), the types of the stored state, and tables
  without triggers. The last sections state the contracts of each operation.
\<close>
section \<open>One write\<close>

text \<open>
  \<open>run_atomically\<close>: what the body did is undone when it or the reading of the clock throws; else
  the reading, made before the commit, is the stamp of the write.
\<close>

definition run_atomically :: "'a action \<Rightarrow> ('a \<times> optime) action" where
  "run_atomically body s = (case body s of
       (Inl e, _) \<Rightarrow> (Inl e, s)
     | (Inr x, s') \<Rightarrow> (case current_operation_time (oplog s') of
         Inl e \<Rightarrow> (Inl e, s) | Inr stamp \<Rightarrow> (Inr (x, stamp), s')))"

datatype coll_write =
    W_insert document
  | W_update document document bool bool
  | W_remove document bool

datatype write_result = R_inserted bson | R_updated update_outcome | R_removed nat

definition map_action :: "('a \<Rightarrow> 'b) \<Rightarrow> 'a outcome \<times> 's \<Rightarrow> 'b outcome \<times> 's" where
  "map_action f m = bind_action m (\<lambda>x s. (Inr (f x), s))"

fun write_body :: "env \<Rightarrow> namespace \<Rightarrow> coll_write \<Rightarrow> write_result action" where
  "write_body env ns (W_insert d) s = map_action R_inserted (insert_document env ns d s)"
| "write_body env ns (W_update flt upd multi upsert) s =
     map_action R_updated (update_documents env ns flt upd multi upsert s)"
| "write_body env ns (W_remove flt just_one) s =
     map_action R_removed (remove_documents env ns flt just_one s)"

definition write_step ::
  "env \<Rightarrow> namespace \<Rightarrow> coll_write \<Rightarrow> server \<Rightarrow> (write_result \<times> optime) outcome \<times> server" where
  "write_step env ns w = run_atomically (write_body env ns w)"

section \<open>The mirror\<close>

definition events :: "server \<Rightarrow> oplog_row list" where
  "events s = (case oplog s of None \<Rightarrow> [] | Some db \<Rightarrow> rows db)"

definition docs_of :: "namespace \<Rightarrow> server \<Rightarrow> (string \<times> string) list" where
  "docs_of ns s = (case table_of ns s of None \<Rightarrow> [] | Some t \<Rightarrow> table_rows t)"

text \<open>The key a reader of the oplog works out from the text of a document.\<close>

definition key_of :: "env \<Rightarrow> string \<Rightarrow> string option" where
  "key_of env json = (case parse_json (sql_db env) json of
       Inl _ \<Rightarrow> None
     | Inr d \<Rightarrow> (case path_get d id_path of
         None \<Rightarrow> None
       | Some i \<Rightarrow> (case encode_id i of Inl _ \<Rightarrow> None | Inr key \<Rightarrow> Some key)))"

definition replay_row :: "env \<Rightarrow> oplog_row \<Rightarrow> (string \<times> string) list \<Rightarrow> (string \<times> string) list" where
  "replay_row env r rs = (case key_of env (o_json r) of
       None \<Rightarrow> rs
     | Some key \<Rightarrow> (case op_kind r of
         Op_insert \<Rightarrow> insert_row key (o_json r) rs
       | Op_update \<Rightarrow> set_row key (o_json r) rs
       | Op_delete \<Rightarrow> filter (\<lambda>x. fst x \<noteq> key) rs))"

definition replay :: "env \<Rightarrow> namespace \<Rightarrow> oplog_row list \<Rightarrow> (string \<times> string) list \<Rightarrow> (string \<times> string) list" where
  "replay env ns evs = fold (replay_row env) (filter (\<lambda>r. row_ns r = ns_text ns) evs)"

definition follows :: "env \<Rightarrow> namespace \<Rightarrow> server \<Rightarrow> server \<Rightarrow> bool" where
  "follows env ns s s' \<longleftrightarrow> (\<exists>new. events s' = events s @ new
     \<and> docs_of ns s' = replay env ns new (docs_of ns s))"

text \<open>
  What the mirror rests on. Of MariaDB: the \<open>_id\<close> its \<open>JSON_OBJECT\<close> puts in the event of a deletion is that
  of the document. Of libbson, for a document that is written and no other: the text it is printed as
  reads back with the same \<open>_id\<close>. (Extended JSON cannot tell some sub-documents, such as one with the
  key \<open>$numberInt\<close>, from values; of those nothing is assumed.)
\<close>

definition ids_extracted :: "env \<Rightarrow> bool" where
  "ids_extracted env \<longleftrightarrow>
     (\<forall>json. key_of env json \<noteq> None \<longrightarrow> key_of env (id_object (sql_db env) json) = key_of env json)"

definition survives :: "env \<Rightarrow> document \<Rightarrow> bool" where
  "survives env d \<longleftrightarrow> (\<forall>json. to_extjson (bson_lib env) d = Inr json \<longrightarrow>
     (\<exists>d'. parse_json (sql_db env) json = Inr d' \<and> path_get d' id_path = path_get d id_path))"

definition clocked :: "server \<Rightarrow> bool" where
  "clocked s \<longleftrightarrow> (\<forall>db. oplog s = Some db \<longrightarrow> clock db \<noteq> None)"

definition table_ok :: "env \<Rightarrow> server \<Rightarrow> coll_table \<Rightarrow> bool" where
  "table_ok env s t \<longleftrightarrow> mirrored t \<and> oplog s \<noteq> None \<and> distinct (map fst (table_rows t))
     \<and> (\<forall>r \<in> set (table_rows t). key_of env (snd r) = Some (fst r))"

definition mirror_ok :: "env \<Rightarrow> namespace \<Rightarrow> server \<Rightarrow> bool" where
  "mirror_ok env ns s \<longleftrightarrow> clocked s \<and> (\<forall>t. table_of ns s = Some t \<longrightarrow> table_ok env s t)"

lemma follows_refl: "follows env ns s s"
  by (simp add: follows_def replay_def)

lemma follows_trans: "follows env ns s t \<Longrightarrow> follows env ns t u \<Longrightarrow> follows env ns s u"
proof -
  assume "follows env ns s t" "follows env ns t u"
  then obtain new newa where "events t = events s @ new" "docs_of ns t = replay env ns new (docs_of ns s)"
      "events u = events t @ newa" "docs_of ns u = replay env ns newa (docs_of ns t)"
    by (auto simp: follows_def)
  then have "events u = events s @ (new @ newa)" "docs_of ns u = replay env ns (new @ newa) (docs_of ns s)"
    by (simp_all add: replay_def)
  then show ?thesis unfolding follows_def by blast
qed

lemma table_of_put [simp]: "table_of ns' (put_table ns t s) = (if ns' = ns then Some t else table_of ns' s)"
  by (simp add: table_of_def put_table_def update_conv')

lemma put_table_oplog [simp]: "oplog (put_table ns t s) = oplog s"
  by (simp add: put_table_def)

lemma fire_table [simp]: "table_of n (fire env ns ch s) = table_of n s"
  by (simp add: fire_def table_of_def)

lemma index_rows_simps [simp]: "index_rows (put_table ns t s) = index_rows s"
  by (simp add: put_table_def)

fun event_kind :: "change \<Rightarrow> oplog_kind" where
  "event_kind (Inserted _) = Op_insert" | "event_kind (Updated _) = Op_update"
| "event_kind (Deleted _) = Op_delete"

fun event_doc :: "env \<Rightarrow> change \<Rightarrow> string" where
  "event_doc env (Inserted j) = j" | "event_doc env (Updated j) = j"
| "event_doc env (Deleted j) = id_object (sql_db env) j"

lemma fire_appends:
  assumes "clocked s" and "oplog s \<noteq> None"
  shows "\<exists>r. events (fire env ns ch s) = events s @ [r] \<and> row_ns r = ns_text ns
    \<and> op_kind r = event_kind ch \<and> o_json r = event_doc env ch"
    and "clocked (fire env ns ch s)" and "oplog (fire env ns ch s) \<noteq> None"
proof -
  from assms obtain db c where db: "oplog s = Some db" "clock db = Some c"
    by (auto simp: clocked_def)
  show "\<exists>r. events (fire env ns ch s) = events s @ [r] \<and> row_ns r = ns_text ns
      \<and> op_kind r = event_kind ch \<and> o_json r = event_doc env ch"
    using db by (cases ch) (simp_all add: events_def fire_def oplog_append_def Let_def)
  show "clocked (fire env ns ch s)" "oplog (fire env ns ch s) \<noteq> None"
    using db by (cases ch; simp add: clocked_def fire_def oplog_append_def Let_def)+
qed

text \<open>A statement that changes one row of a mirrored table.\<close>

lemma fire_follows:
  assumes "clocked s" and "oplog s \<noteq> None" and "table_of ns s = Some t"
    and k: "key_of env (event_doc env ch) = Some key"
    and rs: "rs = (case event_kind ch of
         Op_insert \<Rightarrow> insert_row key (event_doc env ch) (table_rows t)
       | Op_update \<Rightarrow> set_row key (event_doc env ch) (table_rows t)
       | Op_delete \<Rightarrow> filter (\<lambda>x. fst x \<noteq> key) (table_rows t))"
  shows "follows env ns s (fire env ns ch (put_table ns (t\<lparr>table_rows := rs\<rparr>) s))"
proof -
  let ?s = "put_table ns (t\<lparr>table_rows := rs\<rparr>) s"
  have s: "clocked ?s" "oplog ?s \<noteq> None" "events ?s = events s"
    using assms(1,2) by (simp_all add: clocked_def events_def)
  from fire_appends(1) [OF s(1,2), of env ns ch] obtain r where r:
    "events (fire env ns ch ?s) = events s @ [r]" "row_ns r = ns_text ns"
    "op_kind r = event_kind ch" "o_json r = event_doc env ch" using s(3) by auto
  have "docs_of ns (fire env ns ch ?s) = replay env ns [r] (docs_of ns s)"
    using r k assms(3) rs
    by (cases "event_kind ch") (simp_all add: docs_of_def replay_def replay_row_def)
  with r(1) show ?thesis unfolding follows_def by blast
qed

text \<open>What every write of a mirrored namespace does.\<close>

definition stays :: "env \<Rightarrow> namespace \<Rightarrow> server \<Rightarrow> server \<Rightarrow> bool" where
  "stays env ns s s' \<longleftrightarrow> mirror_ok env ns s' \<and> follows env ns s s'"

lemma stays_refl: "mirror_ok env ns s \<Longrightarrow> stays env ns s s"
  by (simp add: stays_def follows_refl)

lemma stays_trans: "stays env ns s t \<Longrightarrow> stays env ns t u \<Longrightarrow> stays env ns s u"
  by (auto simp: stays_def intro: follows_trans)

lemma stays_ok: "stays env ns s s' \<Longrightarrow> mirror_ok env ns s'"
  by (simp add: stays_def)

lemma mirror_table:
  assumes "mirror_ok env ns s" and "table_of ns s = Some t"
  shows "clocked s" "oplog s \<noteq> None" "mirrored t" "distinct (map fst (table_rows t))"
    and "r \<in> set (table_rows t) \<Longrightarrow> key_of env (snd r) = Some (fst r)"
  using assms by (auto simp: mirror_ok_def table_ok_def)

lemma put_mirror_ok:
  assumes "mirror_ok env ns s" and "table_of ns s = Some t" and "distinct (map fst rs)"
    and "\<And>r. r \<in> set rs \<Longrightarrow> key_of env (snd r) = Some (fst r)"
  shows "mirror_ok env ns (put_table ns (t\<lparr>table_rows := rs\<rparr>) s)"
  using assms mirror_table(1-3) [OF assms(1,2)] by (simp add: mirror_ok_def table_ok_def clocked_def)

lemma fire_mirror_ok:
  assumes "mirror_ok env ns s" and "table_of ns s = Some t"
  shows "mirror_ok env ns (fire env ns ch s)"
  using assms fire_appends(2,3) [OF mirror_table(1,2) [OF assms], of env ns ch]
  by (simp add: mirror_ok_def table_ok_def)

lemma set_row_keys [simp]: "map fst (set_row key json rs) = map fst rs"
  by (induction rs) (auto simp: set_row_def)

lemma set_row_in: "r \<in> set (set_row key json rs) \<Longrightarrow> r = (key, json) \<or> r \<in> set rs"
  by (auto simp: set_row_def split: if_splits)

section \<open>Rows by key\<close>

lemma insert_row_mset: "mset (insert_row key json rs) = add_mset (key, json) (mset rs)"
proof -
  have "mset (takeWhile P rs) + mset (dropWhile P rs) = mset rs" for P :: "string \<times> string \<Rightarrow> bool"
    by (metis mset_append takeWhile_dropWhile_id)
  then show ?thesis by (simp add: insert_row_def)
qed

lemma insert_row_set [simp]: "set (insert_row key json rs) = insert (key, json) (set rs)"
  by (metis insert_row_mset set_mset_add_mset_insert set_mset_mset)

lemma insert_row_length [simp]: "length (insert_row key json rs) = Suc (length rs)"
  by (metis insert_row_mset size_add_mset size_mset)

lemma insert_row_distinct:
  "distinct (map fst (insert_row key json rs)) \<longleftrightarrow> key \<notin> fst ` set rs \<and> distinct (map fst rs)"
proof -
  have "mset (map fst (insert_row key json rs)) = mset (key # map fst rs)"
    by (simp only: mset_map insert_row_mset) simp
  then show ?thesis by (metis distinct.simps(2) list.set_map mset_eq_imp_distinct_iff)
qed

abbreviation key_sorted :: "(string \<times> string) list \<Rightarrow> bool" where
  "key_sorted rs \<equiv> sorted_wrt bytes_less (map fst rs)"

lemma key_sorted_drop:
  assumes "key_sorted rs" and "key \<notin> fst ` set rs" and "r \<in> set (dropWhile (\<lambda>r. bytes_less (fst r) key) rs)"
  shows "bytes_less key (fst r)"
  using assms
proof (induction rs)
  case (Cons x rs)
  show ?case
  proof (cases "bytes_less (fst x) key")
    case False
    with Cons.prems(2) have "bytes_less key (fst x)" using bytes_less_linear by fastforce
    moreover have "r = x \<or> bytes_less (fst x) (fst r)" using Cons.prems(1,3) False by auto
    ultimately show ?thesis using bytes_less_trans by blast
  qed (use Cons in auto)
qed simp

lemma key_sorted_between:
  "key_sorted a \<Longrightarrow> key_sorted b \<Longrightarrow> (\<And>x. x \<in> set a \<Longrightarrow> bytes_less (fst x) (fst r)) \<Longrightarrow>
    (\<And>y. y \<in> set b \<Longrightarrow> bytes_less (fst r) (fst y)) \<Longrightarrow> key_sorted (a @ r # b)"
  unfolding sorted_wrt_map sorted_wrt_append sorted_wrt.simps using bytes_less_trans by fastforce

lemma insert_row_sorted:
  assumes "key_sorted rs" and "key \<notin> fst ` set rs"
  shows "key_sorted (insert_row key json rs)"
proof -
  let ?P = "\<lambda>r. bytes_less (fst r) key"
  have "sorted_wrt bytes_less (map fst (takeWhile ?P rs) @ map fst (dropWhile ?P rs))"
    using assms(1) by (simp only: map_append [symmetric] takeWhile_dropWhile_id)
  then have "key_sorted (takeWhile ?P rs)" "key_sorted (dropWhile ?P rs)"
    by (simp_all only: sorted_wrt_append)
  then show ?thesis
    unfolding insert_row_def using key_sorted_drop [OF assms] set_takeWhileD [of _ ?P rs]
    by (intro key_sorted_between) simp_all
qed

lemma sql_insert_stays:
  assumes ok: "mirror_ok env ns s" and key: "key_of env json = Some key"
    and step: "sql_insert env ns key json s = (res, s')"
  shows "stays env ns s s'"
proof (cases "res = Inr ()")
  case True
  with step obtain t where t: "table_of ns s = Some t" "key \<notin> fst ` set (table_rows t)"
    and s': "s' = fire_if (mirrored t) env ns (Inserted json)
      (put_table ns (t\<lparr>table_rows := insert_row key json (table_rows t)\<rparr>) s)"
    by (auto simp: sql_insert_def split: option.splits if_splits)
  note m = mirror_table [OF ok t(1)]
  have "mirror_ok env ns (put_table ns (t\<lparr>table_rows := insert_row key json (table_rows t)\<rparr>) s)"
    using m(4,5) t(2) key by (intro put_mirror_ok [OF ok t(1)]) (auto simp: insert_row_distinct)
  then have "mirror_ok env ns s'" unfolding s' fire_if_def using m(3) by (auto intro: fire_mirror_ok)
  moreover have "follows env ns s s'"
    unfolding s' fire_if_def using m(3) key by (simp add: fire_follows [OF m(1,2) t(1)])
  ultimately show ?thesis by (simp add: stays_def)
next
  case False
  with step have "s' = s" by (auto simp: sql_insert_def split: option.splits if_splits)
  then show ?thesis using ok by (simp add: stays_refl)
qed

lemma sql_update_stays:
  assumes ok: "mirror_ok env ns s" and key: "key_of env json = Some key"
    and step: "sql_update env ns key json s = (res, s')"
  shows "stays env ns s s'"
proof (cases "s' = s")
  case True
  then show ?thesis using ok by (simp add: stays_refl)
next
  case False
  with step obtain t where t: "table_of ns s = Some t"
    and s': "s' = fire_if (mirrored t) env ns (Updated json)
      (put_table ns (t\<lparr>table_rows := set_row key json (table_rows t)\<rparr>) s)"
    by (auto simp: sql_update_def split: option.splits if_splits)
  note m = mirror_table [OF ok t(1)]
  have "mirror_ok env ns (put_table ns (t\<lparr>table_rows := set_row key json (table_rows t)\<rparr>) s)"
    using m(4,5) key by (intro put_mirror_ok [OF ok t(1)]) (auto dest: set_row_in)
  then have "mirror_ok env ns s'" unfolding s' fire_if_def using m(3) by (auto intro: fire_mirror_ok)
  moreover have "follows env ns s s'"
    unfolding s' fire_if_def using m(3) key by (simp add: fire_follows [OF m(1,2) t(1)])
  ultimately show ?thesis by (simp add: stays_def)
qed

lemma fire_deletes:
  assumes "mirror_ok env ns s" and "table_of ns s = Some t" and env: "ids_extracted env"
    and "\<And>r. r \<in> set gone \<Longrightarrow> key_of env (snd r) = Some (fst r)"
  shows "mirror_ok env ns (fold (\<lambda>r. fire env ns (Deleted (snd r))) gone s)
    \<and> table_of ns (fold (\<lambda>r. fire env ns (Deleted (snd r))) gone s) = Some t
    \<and> (\<exists>new. events (fold (\<lambda>r. fire env ns (Deleted (snd r))) gone s) = events s @ new
      \<and> (\<forall>rs. replay env ns new rs = filter (\<lambda>x. fst x \<notin> set (map fst gone)) rs))"
  using assms(1,2,4)
proof (induction gone arbitrary: s)
  case Nil
  then show ?case by (simp add: replay_def)
next
  case (Cons r gone)
  let ?s = "fire env ns (Deleted (snd r)) s"
  have ok: "mirror_ok env ns ?s" "table_of ns ?s = Some t"
    using Cons.prems fire_mirror_ok by auto
  from fire_appends(1) [OF mirror_table(1,2) [OF Cons.prems(1,2)], of env ns "Deleted (snd r)"]
  obtain x where x: "events ?s = events s @ [x]" "row_ns x = ns_text ns" "op_kind x = Op_delete"
      "o_json x = id_object (sql_db env) (snd r)" by auto
  have k: "key_of env (o_json x) = Some (fst r)"
    using env Cons.prems(3) x(4) by (simp add: ids_extracted_def)
  from Cons.IH [OF ok] Cons.prems(3) obtain new where
    new: "events (fold (\<lambda>r. fire env ns (Deleted (snd r))) gone ?s) = events ?s @ new"
    "\<And>rs. replay env ns new rs = filter (\<lambda>x. fst x \<notin> set (map fst gone)) rs"
    and rest: "mirror_ok env ns (fold (\<lambda>r. fire env ns (Deleted (snd r))) gone ?s)"
      "table_of ns (fold (\<lambda>r. fire env ns (Deleted (snd r))) gone ?s) = Some t" by auto
  have "replay env ns (x # new) rs = filter (\<lambda>y. fst y \<notin> set (map fst (r # gone))) rs" for rs
  proof -
    have "replay env ns (x # new) rs = replay env ns new (replay_row env x rs)"
      using x(2) by (simp add: replay_def)
    then show ?thesis using x(3) k by (auto simp: new(2) replay_row_def intro!: filter_cong)
  qed
  then show ?case using new(1) x(1) rest by auto
qed

lemma distinct_keys_inj: "distinct (map fst rs) \<Longrightarrow> r \<in> set rs \<Longrightarrow> r' \<in> set rs \<Longrightarrow> fst r = fst r' \<Longrightarrow> r = r'"
  by (induction rs) (auto simp: image_iff)

lemma fire_if_simps [simp]: "fire_if True env ns = fire env ns" "fire_if False env ns = (\<lambda>_ s. s)"
  by (simp_all add: fire_if_def fun_eq_iff)

lemma sql_delete_stays:
  assumes ok: "mirror_ok env ns s" and env: "ids_extracted env"
    and step: "sql_delete env ns doomed s = (res, s')"
  shows "stays env ns s s'"
proof (cases "table_of ns s")
  case None
  with step have "s' = s" by (simp add: sql_delete_def)
  then show ?thesis using ok by (simp add: stays_refl)
next
  case (Some t)
  note m = mirror_table [OF ok Some]
  let ?gone = "filter doomed (table_rows t)" and ?rs = "filter (\<lambda>r. \<not> doomed r) (table_rows t)"
  let ?s = "put_table ns (t\<lparr>table_rows := ?rs\<rparr>) s"
  have s': "s' = fold (\<lambda>r. fire env ns (Deleted (snd r))) ?gone ?s"
    using step Some m(3) by (simp add: sql_delete_def Let_def)
  have oks: "mirror_ok env ns ?s"
    using m(4,5) by (intro put_mirror_ok [OF ok Some]) (auto simp: distinct_map_filter)
  from fire_deletes [OF oks _ env, of "t\<lparr>table_rows := ?rs\<rparr>" ?gone] m(5)
  obtain new where new: "events s' = events ?s @ new"
      "\<And>rs. replay env ns new rs = filter (\<lambda>x. fst x \<notin> set (map fst ?gone)) rs"
    and fin: "mirror_ok env ns s'" "table_of ns s' = Some (t\<lparr>table_rows := ?rs\<rparr>)"
    unfolding s' by auto
  have "filter (\<lambda>x. fst x \<notin> set (map fst ?gone)) (table_rows t) = ?rs"
  proof (intro filter_cong refl)
    fix x assume x: "x \<in> set (table_rows t)"
    have "r = x" if "r \<in> set ?gone" "fst r = fst x" for r
      using distinct_keys_inj [OF m(4) _ x] that by simp
    moreover have "fst x \<in> set (map fst ?gone) \<longleftrightarrow> (\<exists>r \<in> set ?gone. fst r = fst x)"
      unfolding set_map image_iff by metis
    ultimately show "(fst x \<notin> set (map fst ?gone)) = (\<not> doomed x)" using x by fastforce
  qed
  then have "docs_of ns s' = replay env ns new (docs_of ns s)"
    using fin(2) Some by (simp add: docs_of_def new(2))
  moreover have "events ?s = events s" by (simp add: events_def)
  ultimately show ?thesis using new(1) fin(1) by (auto simp: stays_def follows_def)
qed

section \<open>Laws of every write\<close>

lemma bind_actionE:
  assumes "bind_action m f = (res, s')"
  obtains (Fail) e where "m = (Inl e, s')" "res = Inl e"
    | (Done) x s where "m = (Inr x, s)" "f x s = (res, s')"
  using assms by (auto simp: bind_action_def split: prod.splits sum.splits)

lemma bind_value:
  "bind_action (m, s) f = (res, s') \<Longrightarrow> s' \<noteq> s \<Longrightarrow> \<exists>x. m = Inr x \<and> f x s = (res, s')"
  by (cases m) auto

lemma id_path_facts [simp]: "valid_path id_path" "path_get d id_path = map_of d ''_id''"
  by (simp_all add: id_path_def valid_path_def nul_def)

lemma with_id_has: "\<exists>i. path_get (with_id oid d) id_path = Some i"
  by (cases "map_of d ''_id''") (simp_all add: with_id_def)

text \<open>
  What the statements of a collection are allowed to do to the state, every operation built from
  them does. \<open>keyed\<close> is what is known of a row that is written, \<open>fits\<close> of a document that is inserted,
  \<open>good\<close> of the filter and the changes of an update.
\<close>

fun update_ok :: "(document \<Rightarrow> bool) \<Rightarrow> (document \<Rightarrow> document \<Rightarrow> bool) \<Rightarrow> coll_write \<Rightarrow> bool" where
  "update_ok fits good (W_insert d) = fits d"
| "update_ok fits good (W_update flt upd multi upsert) = good flt upd"
| "update_ok fits good (W_remove flt just_one) = True"

locale write_law =
  fixes env :: env and ns :: namespace and ok :: "server \<Rightarrow> bool"
    and R :: "server \<Rightarrow> server \<Rightarrow> bool" and keyed :: "string \<Rightarrow> string \<Rightarrow> bool"
    and fits :: "document \<Rightarrow> bool" and good :: "document \<Rightarrow> document \<Rightarrow> bool"
  assumes R_refl: "ok s \<Longrightarrow> R s s"
    and R_trans: "R s t \<Longrightarrow> R t u \<Longrightarrow> R s u"
    and R_ok: "ok s \<Longrightarrow> R s t \<Longrightarrow> ok t"
    and insert_R: "ok s \<Longrightarrow> keyed key json \<Longrightarrow> sql_insert env ns key json s = (res, t) \<Longrightarrow> R s t"
    and update_R: "ok s \<Longrightarrow> keyed key json \<Longrightarrow> sql_update env ns key json s = (res, t) \<Longrightarrow> R s t"
    and delete_R: "ok s \<Longrightarrow> sql_delete env ns doomed s = (num, t) \<Longrightarrow> R s t"
    and printed: "fits d \<Longrightarrow> to_extjson (bson_lib env) (with_id oid d) = Inr json \<Longrightarrow>
      path_get (with_id oid d) id_path = Some i \<Longrightarrow> encode_id i = Inr key \<Longrightarrow> keyed key json"
    and good_keeps: "good flt upd \<Longrightarrow> from_extjson (sql_db env) held = Inr d \<Longrightarrow>
      apply_update (raw_bytes env) d upd = Inr r \<Longrightarrow> path_get d id_path = Some i \<Longrightarrow> encode_id i = Inr key \<Longrightarrow>
      to_extjson (bson_lib env) (doc r) = Inr json \<Longrightarrow> keyed key json"
    and good_seed: "good flt upd \<Longrightarrow> apply_update (raw_bytes env) (upsert_seed flt) upd = Inr r \<Longrightarrow> fits (doc r)"
begin

lemma insert_document_R:
  assumes ok: "ok s" and d: "fits d" and step: "insert_document env ns d s = (res, s')"
  shows "R s s'"
proof (cases "s' = s")
  case True
  then show ?thesis using R_refl [OF ok] by simp
next
  case False
  let ?stored = "with_id (oids env (position s)) d"
  obtain i where i: "path_get ?stored id_path = Some i"
    using with_id_has by blast
  have "bind_action (encode_id i, s) (\<lambda>key s.
      bind_action (to_extjson (bson_lib env) ?stored, s) (\<lambda>json s.
      bind_action (sql_insert env ns key json s) (\<lambda>_ s. (Inr i, s)))) = (res, s')"
    using step i unfolding insert_document_def Let_def by simp
  then obtain key json where kj: "encode_id i = Inr key" "to_extjson (bson_lib env) ?stored = Inr json"
    and "bind_action (sql_insert env ns key json s) (\<lambda>_ s. (Inr i, s)) = (res, s')"
    using False by (blast dest: bind_value)
  then obtain res1 where "sql_insert env ns key json s = (res1, s')"
    by (auto elim!: bind_actionE)
  then show ?thesis by (rule insert_R [OF ok printed [OF d kj(2) i kj(1)]])
qed

lemma update_each_R:
  "ok s \<Longrightarrow> good flt upd \<Longrightarrow> update_each env ns upd ds out s = (res, s') \<Longrightarrow>
    (\<And>d. d \<in> set ds \<Longrightarrow> \<exists>held. from_extjson (sql_db env) held = Inr d) \<Longrightarrow> R s s'"
proof (induction ds arbitrary: out s)
  case Nil
  then show ?case by (simp add: R_refl)
next
  case (Cons d ds)
  show ?case
  proof (cases "s' = s")
    case True
    then show ?thesis using R_refl [OF Cons.prems(1)] by simp
  next
    case False
    with Cons.prems(3) obtain i where i: "path_get d id_path = Some i"
      and run: "bind_action (apply_update (raw_bytes env) d upd, s) (\<lambda>u s.
         bind_action (to_extjson (bson_lib env) (doc u), s) (\<lambda>new s.
         bind_action (to_extjson (bson_lib env) d, s) (\<lambda>old s.
           if new = old
           then update_each env ns upd ds (out\<lparr>matched := matched out + 1\<rparr>) s
           else
             bind_action (encode_id i, s) (\<lambda>key s.
             bind_action (sql_update env ns key new s) (\<lambda>_ s.
               update_each env ns upd ds
                 (out\<lparr>matched := matched out + 1, modified := modified out + 1\<rparr>) s))))) = (res, s')"
      by (cases "path_get d id_path") simp_all
    then obtain u new old where u: "apply_update (raw_bytes env) d upd = Inr u"
      and new: "to_extjson (bson_lib env) (doc u) = Inr new"
      and rest: "(if new = old
           then update_each env ns upd ds (out\<lparr>matched := matched out + 1\<rparr>) s
           else
             bind_action (encode_id i, s) (\<lambda>key s.
             bind_action (sql_update env ns key new s) (\<lambda>_ s.
               update_each env ns upd ds
                 (out\<lparr>matched := matched out + 1, modified := modified out + 1\<rparr>) s))) = (res, s')"
      using False by (blast dest: bind_value)
    show ?thesis
    proof (cases "new = old")
      case True
      with rest Cons.IH [OF Cons.prems(1,2)] Cons.prems(4) show ?thesis by simp
    next
      case diff: False
      with rest False obtain key where key: "encode_id i = Inr key"
        and rest: "bind_action (sql_update env ns key new s) (\<lambda>_ s. update_each env ns upd ds
               (out\<lparr>matched := matched out + 1, modified := modified out + 1\<rparr>) s) = (res, s')"
        by (auto elim!: bind_actionE)
      from Cons.prems(4) obtain held where held: "from_extjson (sql_db env) held = Inr d" by auto
      note up = update_R [OF Cons.prems(1) good_keeps [OF Cons.prems(2) held u i key new]]
      from rest show ?thesis
      proof (cases rule: bind_actionE)
        case (Fail e)
        then show ?thesis using up by blast
      next
        case (Done x s1)
        then have "R s s1" using up by blast
        moreover have "R s1 s'"
          using Cons.IH [OF R_ok [OF Cons.prems(1) \<open>R s s1\<close>] Cons.prems(2) Done(2)] Cons.prems(4) by simp
        ultimately show ?thesis by (rule R_trans)
      qed
    qed
  qed
qed

lemma update_documents_R:
  assumes ok: "ok s" and upd: "good flt upd"
    and step: "update_documents env ns flt upd multi upsert s = (res, s')"
  shows "R s s'"
proof (cases "s' = s")
  case True
  then show ?thesis using R_refl [OF ok] by simp
next
  case False
  with step obtain found where found: "load env ns flt s = Inr found" and run: "bind_action
      (update_each env ns upd (if \<not> multi \<and> 1 < length found then take 1 found else found)
        \<lparr>matched = 0, modified = 0, upserted_id = None\<rparr> s) (\<lambda>out s.
       if matched out = 0 \<and> upsert
       then
         bind_action (apply_update (raw_bytes env) (upsert_seed flt) upd, s) (\<lambda>u s.
         bind_action (insert_document env ns (doc u) s) (\<lambda>i s. (Inr (out\<lparr>upserted_id := Some i\<rparr>), s)))
       else (Inr out, s)) = (res, s')" (is "bind_action (update_each env ns upd ?ds _ s) _ = _")
    unfolding update_documents_def Let_def by (blast dest: bind_value)
  have held: "\<exists>held. from_extjson (sql_db env) held = Inr d" if "d \<in> set ?ds" for d
  proof -
    have "d \<in> set found" using that by (auto split: if_splits dest: in_set_takeD)
    with found show ?thesis
      by (auto simp: load_def and_then_Inr_iff map_res_Inr_iff list_all2_conv_all_nth in_set_conv_nth)
  qed
  note each = update_each_R [OF ok upd _ held]
  from run
  show ?thesis
  proof (cases rule: bind_actionE)
    case (Fail e)
    then show ?thesis using each by blast
  next
    case (Done out s2)
    have st: "R s s2" using each [OF Done(1)] .
    show ?thesis
    proof (cases "s' = s2")
      case False
      with Done(2) have need: "matched out = 0 \<and> upsert"
        by (cases "matched out = 0 \<and> upsert") auto
      with Done(2) False obtain u where u: "apply_update (raw_bytes env) (upsert_seed flt) upd = Inr u"
        by (cases "apply_update (raw_bytes env) (upsert_seed flt) upd") auto
      with Done(2) need have "bind_action (insert_document env ns (doc u) s2)
          (\<lambda>i s. (Inr (out\<lparr>upserted_id := Some i\<rparr>), s)) = (res, s')" by simp
      then obtain res1 where "insert_document env ns (doc u) s2 = (res1, s')"
        by (cases rule: bind_actionE) auto
      then have "R s2 s'" by (rule insert_document_R [OF R_ok [OF ok st] good_seed [OF upd u]])
      with st show ?thesis by (rule R_trans)
    qed (use st in simp)
  qed
qed

lemma remove_documents_R:
  assumes ok: "ok s" and step: "remove_documents env ns flt just_one s = (res, s')"
  shows "R s s'"
proof (cases "s' = s")
  case True
  then show ?thesis using R_refl [OF ok] by simp
next
  case False
  with step obtain doomed where "sql_delete env ns doomed s = (res, s')"
    by (auto simp: remove_documents_def elim!: bind_actionE split: if_splits list.splits prod.splits)
  then show ?thesis by (rule delete_R [OF ok])
qed

lemma write_body_R:
  assumes "ok s" and "update_ok fits good w" and "write_body env ns w s = (res, s')"
  shows "R s s'"
proof (cases w)
  case (W_insert d)
  with assms(3) obtain r where "insert_document env ns d s = (r, s')"
    by (auto simp: map_action_def elim!: bind_actionE)
  then show ?thesis using assms(2) W_insert by (intro insert_document_R [OF assms(1)]) simp_all
next
  case (W_update flt upd multi upsert)
  with assms(3) obtain r where "update_documents env ns flt upd multi upsert s = (r, s')"
    by (auto simp: map_action_def elim!: bind_actionE)
  moreover have "good flt upd" using assms(2) W_update by simp
  ultimately show ?thesis by (intro update_documents_R [OF assms(1)])
next
  case (W_remove flt just_one)
  with assms(3) obtain r where "remove_documents env ns flt just_one s = (r, s')"
    by (auto simp: map_action_def elim!: bind_actionE)
  then show ?thesis by (rule remove_documents_R [OF assms(1)])
qed

end

lemma atomically:
  assumes "run_atomically body s = (res, s')"
  obtains (Rolled_back) e where "res = Inl e" "s' = s"
    | (Committed) x stamp where "res = Inr (x, stamp)" "body s = (Inr x, s')"
        "current_operation_time (oplog s') = Inr stamp"
  using assms by (auto simp: run_atomically_def split: prod.splits sum.splits)

context write_law begin

lemma write_step_R:
  assumes "ok s" and "update_ok fits good w" and "write_step env ns w s = (res, s')"
  shows "R s s'"
  using assms(3) unfolding write_step_def
proof (cases rule: atomically)
  case (Rolled_back e)
  then show ?thesis using R_refl [OF assms(1)] by simp
next
  case (Committed x stamp)
  then show ?thesis using write_body_R [OF assms(1,2)] by blast
qed

lemma writes_R:
  "ok s \<Longrightarrow> list_all (update_ok fits good) ws \<Longrightarrow> R s (final_state (write_step env ns) ws s)"
proof (induction ws arbitrary: s)
  case (Cons w ws)
  have R1: "R s (snd (write_step env ns w s))"
    using write_step_R [OF Cons.prems(1), of w] Cons.prems(2) by (simp add: prod_eq_iff)
  then have "R (snd (write_step env ns w s))
      (final_state (write_step env ns) ws (snd (write_step env ns w s)))"
    using Cons.prems R_ok by (intro Cons.IH) auto
  with R1 show ?case by (simp add: R_trans)
qed (simp add: R_refl)

end

section \<open>The three contracts of a write\<close>

text \<open>Updates that leave \<open>_id\<close> alone: replacements, and operators whose paths are apart from it.\<close>

definition leaves_id :: "document \<Rightarrow> bool" where
  "leaves_id upd \<longleftrightarrow> (list_ex is_operator upd \<longrightarrow> untouched (named_paths upd) id_path)"

lemma leaves_id_keeps:
  assumes "leaves_id upd" and "apply_update raw d upd = Inr u" and "path_get d id_path = Some i"
  shows "path_get (doc u) id_path = Some i"
proof -
  obtain h where h: "scan_operators True False upd = Inr h"
    and run: "(if \<not> h then Inr (replacement d upd)
       else fold_res (apply_operator_field raw) upd \<lparr>doc = d, changed = []\<rparr>) = Inr u"
    using assms(2) by (auto simp: apply_update_def and_then_Inr_iff)
  show ?thesis
  proof (cases h)
    case True
    with h have "list_ex is_operator upd"
      by (cases upd) (simp_all add: scan_operators_uniform)
    with assms(1) have "untouched (named_paths upd) id_path" by (simp add: leaves_id_def)
    moreover have "fold_res (apply_operator_field raw) upd \<lparr>doc = d, changed = []\<rparr> = Inr u"
      using run True by simp
    ultimately have "path_get (doc u) id_path = path_get d id_path"
      using apply_operators_frame id_path_facts(1) by fastforce
    with assms(3) show ?thesis by simp
  next
    case False
    with run assms(3) show ?thesis by (auto simp: replacement_def Let_def id_path_def nul_def)
  qed
qed

text \<open>Documents that are inserted, and updates, whose documents libbson reads back.\<close>

definition reads_back :: "env \<Rightarrow> document \<Rightarrow> bool" where
  "reads_back env d \<longleftrightarrow> (\<forall>oid. survives env (with_id oid d))"

definition keeps_ids :: "env \<Rightarrow> document \<Rightarrow> document \<Rightarrow> bool" where
  "keeps_ids env flt upd \<longleftrightarrow> leaves_id upd
     \<and> (\<forall>held d u. from_extjson (sql_db env) held = Inr d \<longrightarrow> apply_update (raw_bytes env) d upd = Inr u \<longrightarrow>
          survives env (doc u))
     \<and> (\<forall>u. apply_update (raw_bytes env) (upsert_seed flt) upd = Inr u \<longrightarrow> reads_back env (doc u))"

lemma key_printed:
  "survives env d \<Longrightarrow> to_extjson (bson_lib env) d = Inr json \<Longrightarrow> path_get d id_path = Some i \<Longrightarrow>
    encode_id i = Inr key \<Longrightarrow> key_of env json = Some key"
  by (auto simp: survives_def key_of_def simp del: id_path_facts)

interpretation mirror: write_law env ns "\<lambda>s. ids_extracted env \<and> mirror_ok env ns s" "stays env ns"
    "\<lambda>key json. key_of env json = Some key" "reads_back env" "keeps_ids env"
  for env ns
proof
  fix s key json res t
  assume "ids_extracted env \<and> mirror_ok env ns s" "key_of env json = Some key"
  then show "stays env ns s t" if "sql_insert env ns key json s = (res, t)"
    using sql_insert_stays that by blast
next
  fix s key json res t
  assume "ids_extracted env \<and> mirror_ok env ns s" "key_of env json = Some key"
  then show "stays env ns s t" if "sql_update env ns key json s = (res, t)"
    using sql_update_stays that by blast
next
  fix flt upd held d r i key json
  assume "keeps_ids env flt upd" "from_extjson (sql_db env) held = Inr d"
    "apply_update (raw_bytes env) d upd = Inr r" "path_get d id_path = Some i"
    "encode_id i = Inr key" "to_extjson (bson_lib env) (doc r) = Inr json"
  then show "key_of env json = Some key"
    unfolding keeps_ids_def using key_printed leaves_id_keeps by blast
next
  fix d oid json i key
  assume "reads_back env d" "to_extjson (bson_lib env) (with_id oid d) = Inr json"
    "path_get (with_id oid d) id_path = Some i" "encode_id i = Inr key"
  then show "key_of env json = Some key" unfolding reads_back_def using key_printed by blast
qed (use sql_delete_stays in \<open>auto simp: stays_refl stays_ok keeps_ids_def intro: stays_trans\<close>)

text \<open>What the clock shows afterwards is the stamp of the last event, and the events are of this namespace.\<close>

definition moves :: "namespace \<Rightarrow> server \<Rightarrow> server \<Rightarrow> bool" where
  "moves ns s t \<longleftrightarrow> (\<exists>new. events t = events s @ new \<and> (\<forall>r \<in> set new. row_ns r = ns_text ns)
     \<and> current_operation_time (oplog t) =
       (if new = [] then current_operation_time (oplog s) else Inr (ts (last new))))"

lemma moves_refl: "moves ns s s"
  by (simp add: moves_def)

lemma moves_trans: "moves ns s t \<Longrightarrow> moves ns t u \<Longrightarrow> moves ns s u"
  unfolding moves_def
proof (elim exE conjE)
  fix new newa
  assume "events t = events s @ new" "\<forall>r \<in> set new. row_ns r = ns_text ns"
    "current_operation_time (oplog t) =
       (if new = [] then current_operation_time (oplog s) else Inr (ts (last new)))"
    "events u = events t @ newa" "\<forall>r \<in> set newa. row_ns r = ns_text ns"
    "current_operation_time (oplog u) =
       (if newa = [] then current_operation_time (oplog t) else Inr (ts (last newa)))"
  then show "\<exists>new. events u = events s @ new \<and> (\<forall>r \<in> set new. row_ns r = ns_text ns)
     \<and> current_operation_time (oplog u) =
       (if new = [] then current_operation_time (oplog s) else Inr (ts (last new)))"
    by (intro exI [of _ "new @ newa"]) auto
qed

lemma fire_moves:
  assumes "clocked s"
  shows "moves ns s (fire env ns ch s) \<and> clocked (fire env ns ch s)"
proof (cases "oplog s")
  case None
  then show ?thesis by (simp add: moves_def fire_def events_def clocked_def)
next
  case (Some db)
  with assms obtain c where "clock db = Some c" by (auto simp: clocked_def)
  with Some show ?thesis
    by (cases ch) (simp_all add: moves_def fire_def events_def clocked_def oplog_append_def Let_def
        current_operation_time_def)
qed

lemma same_oplog_moves: "oplog t = oplog s \<Longrightarrow> moves ns s t"
  by (simp add: moves_def events_def)

lemma fires_move:
  "clocked s \<Longrightarrow> moves ns s (fold (\<lambda>r. fire_if b env ns (f r)) rs s)
    \<and> clocked (fold (\<lambda>r. fire_if b env ns (f r)) rs s)"
proof (induction rs arbitrary: s)
  case (Cons r rs)
  have "moves ns s (fire_if b env ns (f r) s) \<and> clocked (fire_if b env ns (f r) s)"
    using fire_moves [OF Cons.prems] Cons.prems by (simp add: fire_if_def moves_refl)
  with Cons.IH [of "fire_if b env ns (f r) s"] show ?case by (auto intro: moves_trans)
qed (simp add: moves_refl)

lemma put_fires_move:
  assumes "clocked s"
  shows "moves ns s (fold (\<lambda>r. fire_if b env ns (f r)) rs (put_table ns t s))
    \<and> clocked (fold (\<lambda>r. fire_if b env ns (f r)) rs (put_table ns t s))"
proof -
  have "clocked (put_table ns t s)" using assms by (simp add: clocked_def)
  from fires_move [OF this, of ns b env f rs] show ?thesis
    by (auto intro: moves_trans [OF same_oplog_moves [OF put_table_oplog]])
qed

lemma put_fire_moves:
  "clocked s \<Longrightarrow> moves ns s (fire_if b env ns ch (put_table ns t s))
    \<and> clocked (fire_if b env ns ch (put_table ns t s))"
  using put_fires_move [of s ns b env "\<lambda>_. ch" "[()]" t] by simp

interpretation stamp: write_law env ns clocked "\<lambda>s t. clocked s \<longrightarrow> moves ns s t \<and> clocked t"
    "\<lambda>_ _. True" "\<lambda>_. True" "\<lambda>_ _. True"
  for env ns
  by unfold_locales
    (auto simp: moves_refl sql_insert_def sql_update_def sql_delete_def Let_def put_fire_moves put_fires_move
      intro: moves_trans split: option.splits if_splits)

text \<open>
  The types of what is stored: keys are unique, fit their column and order the rows, an oplog has its clock and its
  history, and a table is mirrored exactly when its names can be adopted.
\<close>

definition rows_ok :: "coll_table \<Rightarrow> bool" where
  "rows_ok t \<longleftrightarrow> distinct (map fst (table_rows t)) \<and> key_sorted (table_rows t)
     \<and> list_all (\<lambda>key. length key \<le> 255) (map fst (table_rows t))"

definition adopts :: "namespace \<Rightarrow> bool" where
  "adopts ns \<longleftrightarrow> adoptable (ns_db ns) \<and> adoptable (ns_collection ns)"

definition oplog_ready :: "oplog_store option \<Rightarrow> bool" where
  "oplog_ready lg = (case lg of None \<Rightarrow> True | Some db \<Rightarrow> clock db \<noteq> None \<and> history db \<noteq> None)"

definition server_ok :: "server \<Rightarrow> bool" where
  "server_ok s \<longleftrightarrow> oplog_ready (oplog s) \<and> (\<forall>ns t. table_of ns s = Some t \<longrightarrow>
     rows_ok t \<and> (mirrored t \<longleftrightarrow> adopts ns) \<and> (mirrored t \<longrightarrow> oplog s \<noteq> None))"

text \<open>A write leaves every other collection, the catalog and the indexes as they are.\<close>

definition within_ns :: "namespace \<Rightarrow> server \<Rightarrow> server \<Rightarrow> bool" where
  "within_ns ns s t \<longleftrightarrow> (server_ok s \<longrightarrow> server_ok t) \<and> (\<forall>n. n \<noteq> ns \<longrightarrow> table_of n t = table_of n s)
     \<and> catalog t = catalog s \<and> index_rows t = index_rows s"

lemma within_refl: "within_ns ns s s"
  by (simp add: within_ns_def)

lemma within_trans: "within_ns ns s t \<Longrightarrow> within_ns ns t u \<Longrightarrow> within_ns ns s u"
  by (simp add: within_ns_def)

lemma fire_within: "within_ns ns s (fire env n ch s)"
proof -
  have "oplog_ready (oplog s) \<Longrightarrow> oplog_ready (oplog (fire env n ch s))
      \<and> (oplog s \<noteq> None \<longrightarrow> oplog (fire env n ch s) \<noteq> None)"
    by (cases "oplog s"; cases ch)
      (auto simp: fire_def oplog_ready_def oplog_append_def Let_def split: option.splits)
  then show ?thesis by (auto simp: within_ns_def server_ok_def) (auto simp: fire_def)
qed

lemma fires_within: "within_ns ns s (fold (\<lambda>r. fire_if b env n (f r)) rs s)"
proof (induction rs arbitrary: s)
  case (Cons r rs)
  have "within_ns ns s (fire_if b env n (f r) s)" by (simp add: fire_if_def fire_within within_refl)
  then show ?case using Cons.IH by (auto intro: within_trans)
qed (simp add: within_refl)

lemma put_within:
  "table_of ns s = Some t \<Longrightarrow> (rows_ok t \<Longrightarrow> rows_ok (t\<lparr>table_rows := rs\<rparr>)) \<Longrightarrow>
    within_ns ns s (put_table ns (t\<lparr>table_rows := rs\<rparr>) s)"
  by (auto simp: within_ns_def server_ok_def) (simp_all add: put_table_def)

lemma put_fires_within:
  "table_of ns s = Some t \<Longrightarrow> (rows_ok t \<Longrightarrow> rows_ok (t\<lparr>table_rows := rs\<rparr>)) \<Longrightarrow>
    within_ns ns s (fold (\<lambda>r. fire_if b env ns (f r)) gone (put_table ns (t\<lparr>table_rows := rs\<rparr>) s))"
  by (rule within_trans [OF put_within fires_within])

lemma put_fire_within:
  "table_of ns s = Some t \<Longrightarrow> (rows_ok t \<Longrightarrow> rows_ok (t\<lparr>table_rows := rs\<rparr>)) \<Longrightarrow>
    within_ns ns s (fire_if b env ns ch (put_table ns (t\<lparr>table_rows := rs\<rparr>) s))"
  using put_fires_within [of ns s t rs b env "\<lambda>_. ch" "[()]"] by simp

lemma set_row_rows_ok: "rows_ok t \<Longrightarrow> rows_ok (t\<lparr>table_rows := set_row key json (table_rows t)\<rparr>)"
  using set_row_keys [of key json "table_rows t"] by (auto simp: rows_ok_def list.pred_map [symmetric] simp del: list.pred_map)

lemma filter_rows_ok: "rows_ok t \<Longrightarrow> rows_ok (t\<lparr>table_rows := filter P (table_rows t)\<rparr>)"
  by (auto simp: rows_ok_def distinct_map_filter list_all_iff sorted_wrt_map sorted_wrt_filter)

lemma insert_rows_ok:
  "rows_ok t \<Longrightarrow> key \<notin> fst ` set (table_rows t) \<Longrightarrow> length key \<le> 255 \<Longrightarrow>
    rows_ok (t\<lparr>table_rows := insert_row key json (table_rows t)\<rparr>)"
  by (auto simp: rows_ok_def insert_row_distinct insert_row_sorted list_all_iff)

interpretation typed: write_law env ns "\<lambda>_. True" "within_ns ns" "\<lambda>_ _. True" "\<lambda>_. True" "\<lambda>_ _. True"
  for env ns
proof
  fix s key json res t
  show "within_ns ns s t" if "sql_insert env ns key json s = (res, t)"
    using that by (auto simp: sql_insert_def within_refl intro!: put_fire_within insert_rows_ok
        split: option.splits if_splits)
next
  fix s key json res t
  show "within_ns ns s t" if "sql_update env ns key json s = (res, t)"
    using that by (auto simp: sql_update_def within_refl intro!: put_fire_within set_row_rows_ok
        split: option.splits if_splits)
next
  fix s doomed num t
  show "within_ns ns s t" if "sql_delete env ns doomed s = (num, t)"
    using that by (auto simp: sql_delete_def within_refl Let_def intro!: put_fires_within filter_rows_ok
        split: option.splits)
qed (auto simp: within_refl intro: within_trans)

text \<open>A table without triggers: its writes leave the oplog alone.\<close>

lemma fold_nothing: "fold (\<lambda>r s. s) xs s = s"
  by (induction xs) simp_all

interpretation silent: write_law env ns "\<lambda>s. \<forall>t. table_of ns s = Some t \<longrightarrow> \<not> mirrored t"
    "\<lambda>s s'. (\<forall>t. table_of ns s' = Some t \<longrightarrow> \<not> mirrored t) \<and> oplog s' = oplog s" "\<lambda>_ _. True" "\<lambda>_. True" "\<lambda>_ _. True"
  for env ns
  by unfold_locales
    (auto simp: sql_insert_def sql_update_def sql_delete_def Let_def fire_if_def fold_nothing
      split: option.splits if_splits)

text \<open>No write makes a table go away.\<close>

interpretation keeps_table: write_law env ns "coll_exists ns" "\<lambda>_. coll_exists ns" "\<lambda>_ _. True" "\<lambda>_. True" "\<lambda>_ _. True"
  for env ns
proof
  have fires: "coll_exists ns (fold (\<lambda>r. fire_if b env n (f r)) rs s) = coll_exists ns s" for b n f rs s
    by (induction rs arbitrary: s) (simp_all add: coll_exists_def fire_if_def)
  show "coll_exists ns t" if "coll_exists ns s" "sql_delete env ns doomed s = (num, t)" for s doomed num t
    using that by (auto simp: sql_delete_def Let_def fires split: option.splits) (simp add: coll_exists_def)
qed (auto simp: sql_insert_def sql_update_def coll_exists_def fire_if_def split: option.splits if_splits)

section \<open>The collections of a server\<close>

datatype server_op = S_create namespace | S_drop namespace | S_write namespace coll_write

fun server_step :: "env \<Rightarrow> server_op \<Rightarrow> unit action" where
  "server_step env (S_create ns) s = create env False ns s"
| "server_step env (S_drop ns) s = (Inr (), drop_collection ns s)"
| "server_step env (S_write ns w) s = map_action (\<lambda>_. ()) (write_step env ns w s)"

definition fresh_server :: server where
  "fresh_server = \<lparr>tables = [], catalog = [], index_rows = [], oplog = None\<rparr>"

lemma install_ready:
  assumes "oplog_ready lg"
  shows "\<exists>db. install_oplog_schema False lg = Inr db \<and> oplog_ready (Some db)"
proof (cases lg)
  case None
  then show ?thesis
    by (simp add: install_oplog_schema_def oplog_ready_def seed_history_def empty_store_def Let_def)
next
  case (Some db)
  with assms have "history db \<noteq> None" by (simp add: oplog_ready_def)
  with Some have "install_oplog_schema False lg = Inr db"
    by (simp add: install_oplog_schema_def split: option.splits)
  with assms Some show ?thesis by blast
qed

definition made :: "namespace \<Rightarrow> oplog_store \<Rightarrow> server \<Rightarrow> server" where
  "made ns db s = (put_table ns \<lparr>table_rows = [], mirrored = False\<rparr> s)\<lparr>oplog := Some db\<rparr>"

lemma table_of_oplog [simp]: "table_of n (s\<lparr>oplog := x\<rparr>) = table_of n s"
  "table_of n (s\<lparr>catalog := y\<rparr>) = table_of n s"
  by (simp_all add: table_of_def)

lemma create_new:
  assumes "oplog_ready (oplog s)" and "\<not> coll_exists ns s"
  obtains db where "oplog_ready (Some db)"
    "create env e ns s = (if adopts ns
       then (Inr (), (put_table ns \<lparr>table_rows = [], mirrored = True\<rparr> (made ns db s))
               \<lparr>catalog := List.insert ns (catalog s)\<rparr>)
       else (Inl (internal_error (server_text env)), made ns db s))"
proof -
  obtain db where db: "install_oplog_schema False (oplog s) = Inr db" "oplog_ready (Some db)"
    using install_ready [OF assms(1)] by blast
  show ?thesis
  proof (rule that [OF db(2)])
    have "catalog (put_table ns x s) = catalog s" for x by (simp add: put_table_def)
    then show "create env e ns s = (if adopts ns
       then (Inr (), (put_table ns \<lparr>table_rows = [], mirrored = True\<rparr> (made ns db s))
               \<lparr>catalog := List.insert ns (catalog s)\<rparr>)
       else (Inl (internal_error (server_text env)), made ns db s))"
      using assms(2) db(1)
      by (auto simp: create_def install_oplog_triggers_def adopt_table_def made_def adopts_def)
  qed
qed

lemma created_ok: "server_ok s \<Longrightarrow> server_ok (snd (create env e ns s))"
proof (cases "coll_exists ns s")
  case False
  assume ok: "server_ok s"
  then have "oplog_ready (oplog s)" by (simp add: server_ok_def)
  then obtain db where "oplog_ready (Some db)"
    "create env e ns s = (if adopts ns
       then (Inr (), (put_table ns \<lparr>table_rows = [], mirrored = True\<rparr> (made ns db s))
               \<lparr>catalog := List.insert ns (catalog s)\<rparr>)
       else (Inl (internal_error (server_text env)), made ns db s))"
    using False by (rule create_new)
  with ok show ?thesis
    by (auto simp: server_ok_def made_def rows_ok_def)
qed (simp add: create_def)

lemma dropped_ok: "server_ok s \<Longrightarrow> server_ok (drop_collection ns s)"
proof -
  have "table_of n (drop_collection ns s) = Some t \<Longrightarrow> table_of n s = Some t" for n t
    by (simp add: drop_collection_def table_of_def delete_conv' split: if_splits)
  moreover have "oplog (drop_collection ns s) = oplog s" by (simp add: drop_collection_def)
  ultimately show "server_ok s \<Longrightarrow> ?thesis" unfolding server_ok_def by metis
qed

lemma map_action_state [simp]: "snd (map_action f m) = snd m"
  by (cases m; cases "fst m") (auto simp: map_action_def)

lemma any_update [simp]: "update_ok (\<lambda>_. True) (\<lambda>_ _. True) w"
  by (cases w) simp_all

interpretation server_machine: machine "server_step env" server_ok for env
proof
  fix s op
  assume "server_ok s"
  then show "server_ok (snd (server_step env op s))"
  proof (cases op)
    case (S_write ns w)
    have "within_ns ns s (snd (write_step env ns w s))"
      by (rule typed.write_step_R [OF TrueI any_update prod.collapse [symmetric]])
    with \<open>server_ok s\<close> S_write show ?thesis by (simp add: within_ns_def)
  qed (simp_all add: created_ok dropped_ok)
qed

section \<open>A collection among others\<close>

text \<open>
  What the other clients may do: anything to a collection whose name in the oplog is another one;
  with this collection, create it again or write to it documents that libbson reads back.
\<close>

fun beside :: "env \<Rightarrow> namespace \<Rightarrow> server_op \<Rightarrow> bool" where
  "beside env ns (S_create n) \<longleftrightarrow> True"
| "beside env ns (S_drop n) \<longleftrightarrow> n \<noteq> ns"
| "beside env ns (S_write n w) \<longleftrightarrow> (if n = ns then update_ok (reads_back env) (keeps_ids env) w else ns_text n \<noteq> ns_text ns)"

lemma ready_clocked: "server_ok s \<Longrightarrow> clocked s"
  by (auto simp: server_ok_def oplog_ready_def clocked_def)

text \<open>Events of another name and tables of another namespace do not show.\<close>

lemma elsewhere_follows:
  assumes tab: "table_of ns t = table_of ns s"
    and ev: "events t = events s @ new" "\<forall>r \<in> set new. row_ns r \<noteq> ns_text ns"
  shows "follows env ns s t"
proof -
  have "filter (\<lambda>r. row_ns r = ns_text ns) new = []" using ev(2) by (simp add: filter_empty_conv)
  then have "docs_of ns t = replay env ns new (docs_of ns s)"
    using tab by (simp add: docs_of_def replay_def)
  with ev(1) show ?thesis unfolding follows_def by blast
qed

lemma elsewhere_stays:
  assumes ok: "mirror_ok env ns s" and "clocked t" and tab: "table_of ns t = table_of ns s"
    and log: "oplog s \<noteq> None \<Longrightarrow> oplog t \<noteq> None"
    and ev: "events t = events s @ new" "\<forall>r \<in> set new. row_ns r \<noteq> ns_text ns"
  shows "stays env ns s t"
  using ok \<open>clocked t\<close> tab log elsewhere_follows [OF tab ev]
  by (auto simp: stays_def mirror_ok_def table_ok_def)

lemma install_keeps_events:
  assumes "oplog_ready lg" and "install_oplog_schema False lg = Inr db"
  shows "(case lg of None \<Rightarrow> rows db = [] | Some old \<Rightarrow> db = old)"
  using assms
  by (cases lg) (auto simp: install_oplog_schema_def oplog_ready_def seed_history_def empty_store_def Let_def
      split: if_splits)

lemma create_events:
  assumes "oplog_ready (oplog s)"
  shows "events (snd (create env e n s)) = events s" "oplog s \<noteq> None \<longrightarrow> oplog (snd (create env e n s)) \<noteq> None"
    "n' \<noteq> n \<or> coll_exists n' s \<longrightarrow> table_of n' (snd (create env e n s)) = table_of n' s"
proof -
  obtain db where db: "install_oplog_schema False (oplog s) = Inr db"
    using install_ready [OF assms] by blast
  from install_keeps_events [OF assms db] have ev: "rows db = events s"
    by (auto simp: events_def split: option.splits)
  have "events x = events s" if "oplog x = Some db" for x using that ev by (simp add: events_def)
  then show "events (snd (create env e n s)) = events s"
    using db by (auto simp: create_def install_oplog_triggers_def adopt_table_def split: option.splits)
  show "oplog s \<noteq> None \<longrightarrow> oplog (snd (create env e n s)) \<noteq> None"
    using db by (auto simp: create_def install_oplog_triggers_def adopt_table_def split: option.splits)
  show "n' \<noteq> n \<or> coll_exists n' s \<longrightarrow> table_of n' (snd (create env e n s)) = table_of n' s"
    using db by (auto simp: create_def install_oplog_triggers_def adopt_table_def coll_exists_def
        split: option.splits)
qed

lemma write_elsewhere_stays:
  assumes ok: "server_ok s" "mirror_ok env ns s" and n: "n \<noteq> ns" "ns_text n \<noteq> ns_text ns"
  shows "stays env ns s (snd (write_step env n w s))" (is "stays env ns s ?t")
proof -
  have w: "within_ns n s ?t"
    by (rule typed.write_step_R [OF TrueI any_update prod.collapse [symmetric]])
  have "moves n s ?t" and ct: "clocked ?t"
    using stamp.write_step_R [OF ready_clocked [OF ok(1)] any_update prod.collapse [symmetric]]
      ready_clocked [OF ok(1)] by auto
  then obtain new where ev: "events ?t = events s @ new" "\<forall>r \<in> set new. row_ns r = ns_text n"
    by (auto simp: moves_def)
  have tab: "table_of ns ?t = table_of ns s" using w n(1) by (simp add: within_ns_def)
  show ?thesis
  proof (cases "table_of ns s")
    case None
    have "follows env ns s ?t" using n(2) ev(2) by (intro elsewhere_follows [OF tab ev(1)]) auto
    moreover have "mirror_ok env ns ?t" using None tab ct by (simp add: mirror_ok_def)
    ultimately show ?thesis by (simp add: stays_def)
  next
    case (Some t)
    with ok(2) have "mirrored t" by (auto simp: mirror_ok_def table_ok_def)
    moreover have "server_ok ?t" using w ok(1) by (simp add: within_ns_def)
    ultimately have "oplog ?t \<noteq> None" using Some tab unfolding server_ok_def by metis
    then show ?thesis using n(2) ev(2) by (intro elsewhere_stays [OF ok(2) ct tab _ ev(1)]) auto
  qed
qed

lemma op_stays:
  assumes env: "ids_extracted env" and ok: "server_ok s" "mirror_ok env ns s" and ex: "coll_exists ns s"
    and op: "beside env ns op"
  shows "stays env ns s (snd (server_step env op s)) \<and> coll_exists ns (snd (server_step env op s))"
proof (cases op)
  case (S_create n)
  have ready: "oplog_ready (oplog s)" using ok(1) by (simp add: server_ok_def)
  have tab: "table_of ns (snd (create env False n s)) = table_of ns s"
    using create_events(3) [OF ready] ex by blast
  have "clocked (snd (create env False n s))" using created_ok [OF ok(1)] by (rule ready_clocked)
  then have "stays env ns s (snd (create env False n s))"
    by (rule elsewhere_stays [OF ok(2) _ tab, where new = "[]"])
      (use create_events(1,2) [OF ready] in auto)
  then show ?thesis using S_create tab ex by (simp add: coll_exists_def)
next
  case (S_drop n)
  then have n: "n \<noteq> ns" using op by simp
  have tab: "table_of ns (drop_collection n s) = table_of ns s"
    using n by (simp add: drop_collection_def table_of_def delete_conv')
  have "oplog (drop_collection n s) = oplog s" by (simp add: drop_collection_def)
  then have "stays env ns s (drop_collection n s)"
    using ready_clocked [OF ok(1)]
    by (intro elsewhere_stays [OF ok(2) _ tab, where new = "[]"]) (simp_all add: clocked_def events_def)
  then show ?thesis using S_drop tab ex by (simp add: coll_exists_def)
next
  case (S_write n w)
  show ?thesis
  proof (cases "n = ns")
    case True
    have st: "stays env ns s (snd (write_step env ns w s))"
      using mirror.write_step_R [of env ns s w] env ok(2) op S_write True by (simp add: prod_eq_iff)
    moreover have "coll_exists ns (snd (write_step env ns w s))"
      by (rule keeps_table.write_step_R [OF ex any_update prod.collapse [symmetric]])
    ultimately show ?thesis using S_write True by simp
  next
    case False
    then have "ns_text n \<noteq> ns_text ns" using op S_write by simp
    moreover have "within_ns n s (snd (write_step env n w s))"
      by (rule typed.write_step_R [OF TrueI any_update prod.collapse [symmetric]])
    ultimately show ?thesis
      using write_elsewhere_stays [OF ok False] S_write False ex
      by (simp add: coll_exists_def within_ns_def)
  qed
qed

lemma ops_stay:
  "ids_extracted env \<Longrightarrow> server_ok s \<Longrightarrow> mirror_ok env ns s \<Longrightarrow> coll_exists ns s \<Longrightarrow> list_all (beside env ns) ops \<Longrightarrow>
    stays env ns s (final_state (server_step env) ops s)"
proof (induction ops arbitrary: s)
  case (Cons op ops)
  then have "stays env ns s (snd (server_step env op s)) \<and> coll_exists ns (snd (server_step env op s))"
    by (intro op_stays) simp_all
  moreover have "server_ok (snd (server_step env op s))"
    using server_machine.step_inv Cons.prems(2) .
  ultimately have "stays env ns (snd (server_step env op s))
      (final_state (server_step env) ops (snd (server_step env op s)))"
    using Cons.prems stays_ok by (intro Cons.IH) auto
  with \<open>stays env ns s (snd (server_step env op s)) \<and> _\<close> show ?case by (auto intro: stays_trans)
qed (simp add: stays_refl)

lemma created_mirror:
  assumes "server_ok s" and "table_of ns s = None" and "adopts ns"
  shows "mirror_ok env ns (snd (create env False ns s))" "coll_exists ns (snd (create env False ns s))"
    "docs_of ns (snd (create env False ns s)) = []"
proof -
  have "oplog_ready (oplog s)" "\<not> coll_exists ns s"
    using assms(1,2) by (simp_all add: coll_exists_def server_ok_def)
  then obtain db where "oplog_ready (Some db)" "create env False ns s = (if adopts ns
       then (Inr (), (put_table ns \<lparr>table_rows = [], mirrored = True\<rparr> (made ns db s))
               \<lparr>catalog := List.insert ns (catalog s)\<rparr>)
       else (Inl (internal_error (server_text env)), made ns db s))"
    by (rule create_new)
  then show "mirror_ok env ns (snd (create env False ns s))" "coll_exists ns (snd (create env False ns s))"
    "docs_of ns (snd (create env False ns s)) = []"
    using assms(3) by (auto simp: mirror_ok_def table_ok_def clocked_def made_def coll_exists_def docs_of_def
        oplog_ready_def)
qed

text \<open>
  C3. A collection refines its oplog. Create a collection whose names can be adopted and let any
  clients work on the server, in any order: creating any collection, dropping any other, writing to
  any, with failing writes rolled back. The table is then at every moment what a reader gets by
  replaying, from nothing, the events of the collection's name that were appended since it was made.
  Of the writes to this collection it is asked that libbson reads back the \<open>_id\<close> of each document they
  print and that no update names \<open>_id\<close>, of those to another that its dotted name is another. (A drop of
  the collection itself leaves no event: the statement then holds from its next creation.)
\<close>

theorem collection_refines_oplog:
  assumes "ids_extracted env" and "server_ok s" and "table_of ns s = None" and "adopts ns"
    and "list_all (beside env ns) ops"
  shows "\<exists>new. events (final_state (server_step env) (S_create ns # ops) s) = events s @ new
    \<and> docs_of ns (final_state (server_step env) (S_create ns # ops) s) = replay env ns new []"
proof -
  let ?c = "snd (create env False ns s)"
  have "stays env ns ?c (final_state (server_step env) ops ?c)"
    by (rule ops_stay [OF assms(1) created_ok [OF assms(2)] created_mirror(1,2) [OF assms(2,3,4)] assms(5)])
  moreover have "events ?c = events s" using assms(2) by (simp add: create_events(1) server_ok_def)
  ultimately show ?thesis
    using created_mirror(3) [OF assms(2,3,4)] by (auto simp: stays_def follows_def)
qed

text \<open>
  C4. A write is all or nothing, and the clock reading it reports is its own. One that throws leaves
  the server as it was; of one that succeeds, every event it appended carries the name of its
  collection, and the last of them carries the reported operation time.
\<close>

theorem write_stamp_is_its_own:
  assumes "clocked s"
  shows "case write_step env ns w s of
      (Inl e, s') \<Rightarrow> s' = s
    | (Inr (x, stamp), s') \<Rightarrow> \<exists>new. events s' = events s @ new
        \<and> (\<forall>r \<in> set new. row_ns r = ns_text ns) \<and> (new = [] \<or> ts (last new) = stamp)"
proof -
  obtain res s' where step: "write_step env ns w s = (res, s')" by (cases "write_step env ns w s")
  have mv: "moves ns s s'" using stamp.write_step_R [OF assms any_update step] assms by blast
  from step have "run_atomically (write_body env ns w) s = (res, s')" by (simp add: write_step_def)
  then show ?thesis
  proof (cases rule: atomically)
    case (Rolled_back e)
    then show ?thesis using step by simp
  next
    case (Committed x stamp)
    then show ?thesis using step mv by (auto simp: moves_def split: if_splits)
  qed
qed

text \<open>
  C36. Whatever is done to a new server, each table has its rows in the order of their
  keys, which are unique and of at most 255 bytes, an oplog
  that exists has its clock and history rows, and a table has its triggers exactly when both its
  names consist of the characters \<open>chimera_adopt_table\<close> allows.
\<close>

theorem every_server_is_typed: "server_ok (final_state (server_step env) ops fresh_server)"
  by (rule server_machine.run_inv)
    (simp add: server_ok_def fresh_server_def oplog_ready_def table_of_def)

text \<open>
  A collection whose name cannot be adopted exists without a mirror: the request that creates it
  fails, but the table stays; from then on creating it succeeds, and no write to it appends an event.
\<close>

theorem unadoptable_collection_is_silent:
  assumes "\<not> adopts ns" and "oplog_ready (oplog s)" and "table_of ns s = None"
  shows "\<exists>s1. create env False ns s = (Inl (internal_error (server_text env)), s1)
    \<and> coll_exists ns s1 \<and> create env False ns s1 = (Inr (), s1)
    \<and> events (final_state (write_step env ns) ws s1) = events s1"
proof -
  have "\<not> coll_exists ns s" using assms(3) by (simp add: coll_exists_def)
  with assms(2) obtain db where "create env False ns s = (if adopts ns
       then (Inr (), (put_table ns \<lparr>table_rows = [], mirrored = True\<rparr> (made ns db s))
               \<lparr>catalog := List.insert ns (catalog s)\<rparr>)
       else (Inl (internal_error (server_text env)), made ns db s))"
    by (rule create_new)
  then have new: "create env False ns s = (Inl (internal_error (server_text env)), made ns db s)"
    using assms(1) by simp
  have tab: "table_of ns (made ns db s) = Some \<lparr>table_rows = [], mirrored = False\<rparr>"
    by (simp add: made_def)
  then have "oplog (final_state (write_step env ns) ws (made ns db s)) = oplog (made ns db s)"
    using silent.writes_R [of ns "made ns db s" ws env] by (simp add: list_all_iff)
  with new tab show ?thesis
    by (intro exI [of _ "made ns db s"]) (simp add: coll_exists_def create_def events_def)
qed

lemma docs_of_fires [simp]: "docs_of ns (fold (\<lambda>r. fire_if b env n (f r)) rs s) = docs_of ns s"
  by (induction rs arbitrary: s) (simp_all add: fire_if_def docs_of_def)

lemma docs_of_put [simp]: "docs_of ns (put_table ns t s) = table_rows t"
  by (simp add: docs_of_def)

lemma docs_of_fire_if [simp]: "docs_of ns (fire_if b env n ch s) = docs_of ns s"
  by (simp add: fire_if_def docs_of_def)

lemma docs_of_table: "table_of ns s = Some t \<Longrightarrow> docs_of ns s = table_rows t"
  by (simp add: docs_of_def)

lemma insert_rows:
  "sql_insert env ns key json s = (Inr (), s') \<Longrightarrow>
    key \<notin> fst ` set (docs_of ns s) \<and> docs_of ns s' = insert_row key json (docs_of ns s)"
  by (auto simp: sql_insert_def docs_of_table split: option.splits if_splits)

lemma stored_document:
  assumes "insert_document env ns d s = (Inr i, s')"
  shows "\<exists>key json stored. stored = with_id (oids env (position s)) d
    \<and> map_of stored ''_id'' = Some i \<and> encode_id i = Inr key \<and> key \<notin> fst ` set (docs_of ns s)
    \<and> to_extjson (bson_lib env) stored = Inr json \<and> docs_of ns s' = insert_row key json (docs_of ns s)"
proof -
  let ?stored = "with_id (oids env (position s)) d"
  obtain i' where i': "path_get ?stored id_path = Some i'" using with_id_has by blast
  have "bind_action (encode_id i', s) (\<lambda>key s.
      bind_action (to_extjson (bson_lib env) ?stored, s) (\<lambda>json s.
      bind_action (sql_insert env ns key json s) (\<lambda>_ s. (Inr i', s)))) = (Inr i, s')"
    using assms i' unfolding insert_document_def Let_def by simp
  then obtain key json where key: "encode_id i' = Inr key"
    and json: "to_extjson (bson_lib env) ?stored = Inr json" and i: "i' = i"
    and ins: "sql_insert env ns key json s = (Inr (), s')"
    by (auto elim!: bind_actionE)
  then show ?thesis using insert_rows [OF ins] i' by auto
qed

text \<open>
  C37. What an insert stores: the document itself, or with an ObjectId in front when it has no
  \<open>_id\<close>, as the JSON libbson prints for it, in one new row under the key of its \<open>_id\<close>, which no row had;
  the other rows stay.
\<close>

theorem insert_stores_the_document:
  assumes "insert_document env ns d s = (Inr i, s')"
  shows "\<exists>key json stored. stored = (if map_of d ''_id'' = None
        then (''_id'', BOid (oids env (position s))) # d else d)
    \<and> map_of stored ''_id'' = Some i \<and> encode_id i = Inr key \<and> key \<notin> fst ` set (docs_of ns s)
    \<and> to_extjson (bson_lib env) stored = Inr json
    \<and> mset (docs_of ns s') = add_mset (key, json) (mset (docs_of ns s))"
  using stored_document [OF assms] by (auto simp: with_id_def insert_row_mset split: option.splits)

lemma bind_InrE:
  assumes "bind_action m f = (Inr y, s')"
  obtains x s where "m = (Inr x, s)" and "f x s = (Inr y, s')"
  using assms by (auto elim!: bind_actionE)

lemma delete_rows:
  "sql_delete env ns doomed s = (Inr num, s') \<Longrightarrow>
    docs_of ns s' = filter (\<lambda>r. \<not> doomed r) (docs_of ns s) \<and> num = length (filter doomed (docs_of ns s))"
  by (auto simp: sql_delete_def Let_def docs_of_table split: option.splits)

lemma filter_one_key:
  "distinct (map fst rs) \<Longrightarrow> (k, j) \<in> set rs \<Longrightarrow>
    filter (\<lambda>r. fst r \<noteq> k) rs = remove1 (k, j) rs \<and> length (filter (\<lambda>r. fst r = k) rs) = 1"
proof (induction rs)
  case (Cons r rs)
  show ?case
  proof (cases "r = (k, j)")
    case True
    with Cons.prems(1) have "k \<notin> fst ` set rs" by simp
    then have "\<forall>x \<in> set rs. fst x \<noteq> k" by force
    then show ?thesis using True by (simp add: filter_id_conv filter_empty_conv)
  next
    case False
    with Cons.prems have "(k, j) \<in> set rs" by simp
    then have "k \<in> fst ` set rs" by force
    with Cons.prems(1) have "fst r \<noteq> k" by auto
    with False Cons show ?thesis by auto
  qed
qed simp

text \<open>
  C39. What a remove takes away: every row that satisfies the compiled filter, or just the first of
  them, no other; and its result is the number of rows gone.
\<close>

theorem remove_takes_the_matches:
  assumes "server_ok s" and "where_clause env flt = Inr condition"
    and "remove_documents env ns flt just_one s = (Inr num, s')"
  shows "case (just_one, filter (\<lambda>r. holds (sql_db env) condition (snd r)) (docs_of ns s)) of
      (False, rs) \<Rightarrow> num = length rs
        \<and> docs_of ns s' = filter (\<lambda>r. \<not> holds (sql_db env) condition (snd r)) (docs_of ns s)
    | (True, []) \<Rightarrow> num = 0 \<and> docs_of ns s' = docs_of ns s
    | (True, r # _) \<Rightarrow> num = 1 \<and> docs_of ns s' = remove1 r (docs_of ns s)"
proof -
  obtain t where t: "table_of ns s = Some t"
    using assms(3) by (cases "table_of ns s")
      (auto simp: remove_documents_def require_exists_def coll_exists_def)
  then have dist: "distinct (map fst (docs_of ns s))"
    using assms(1) by (auto simp: server_ok_def rows_ok_def docs_of_def)
  have run: "(if \<not> just_one then sql_delete env ns (\<lambda>r. holds (sql_db env) condition (snd r)) s
       else case selected env ns condition s of
           [] \<Rightarrow> (Inr 0, s)
         | (key, _) # _ \<Rightarrow> sql_delete env ns (\<lambda>r. fst r = key) s) = (Inr num, s')"
    using assms(3) by (simp add: remove_documents_def require_exists_def coll_exists_def t assms(2))
  show ?thesis
  proof (cases just_one)
    case False
    with run delete_rows show ?thesis by fastforce
  next
    case True
    have m: "selected env ns condition s = filter (\<lambda>r. holds (sql_db env) condition (snd r)) (docs_of ns s)"
      using t by (simp add: selected_def docs_of_def)
    show ?thesis
    proof (cases "selected env ns condition s")
      case Nil
      with True run m show ?thesis by simp
    next
      case (Cons r rs)
      obtain key json where r: "r = (key, json)" by (cases r)
      from Cons r True run have "sql_delete env ns (\<lambda>r. fst r = key) s = (Inr num, s')" by simp
      from delete_rows [OF this] have "docs_of ns s' = filter (\<lambda>r. fst r \<noteq> key) (docs_of ns s)"
        "num = length (filter (\<lambda>r. fst r = key) (docs_of ns s))" by simp_all
      moreover have "(key, json) \<in> set (docs_of ns s)"
        using Cons r m by (metis filter_is_subset list.set_intros(1) subsetD)
      ultimately show ?thesis using filter_one_key [OF dist] Cons r m True by simp
    qed
  qed
qed












section \<open>A small server\<close>

definition demo_ns :: namespace where
  "demo_ns = \<lparr>ns_db = ''app'', ns_collection = ''a''\<rparr>"

definition doc_a :: document where "doc_a = [(''_id'', BUtf8 ''k'')]"
definition doc_b :: document where "doc_b = [(''_id'', BUtf8 ''k''), (''v'', BBool True)]"
definition doc_c :: document where "doc_c = [(''_id'', BUtf8 ''z'')]"

definition demo_env :: env where
  "demo_env = \<lparr>
     bson_lib = \<lparr>canonical_json = (\<lambda>d. if d = doc_a then Some ''A'' else if d = doc_b then Some ''B''
         else if d = doc_c then Some ''C'' else None), oid_string = (\<lambda>b. b)\<rparr>,
     sql_db = demo_db\<lparr>parse_json := (\<lambda>s. if s = ''A'' then Inr doc_a else if s = ''B'' then Inr doc_b
         else if s = ''C'' then Inr doc_c else Inl ''not JSON'')\<rparr>,
     raw_bytes = (\<lambda>_. []), unique_ok = (\<lambda>_ _ _. True), alter_ok = (\<lambda>_ _. True), server_text = ''error'',
     times = (\<lambda>_. 100), oids = (\<lambda>_. replicate 12 (CHR ''x''))\<rparr>"

lemma demo_survives: "survives demo_env d"
  by (auto simp: survives_def demo_env_def demo_db_def to_extjson_def split: if_splits)

lemma demo_ids: "ids_extracted demo_env"
  by (auto simp: ids_extracted_def demo_env_def demo_db_def)

lemma fresh_server_ok: "server_ok fresh_server" "table_of ns fresh_server = None"
  by (simp_all add: server_ok_def fresh_server_def oplog_ready_def table_of_def)

lemma demo_adopts: "adopts demo_ns"
  by code_simp

definition demo_ops :: "server_op list" where
  "demo_ops = [S_write demo_ns (W_insert doc_a),
     S_write demo_ns (W_update [] [(''v'', BBool True)] False False)]"

theorem collection_refines_oplog_witness:
  "\<exists>new. events (final_state (server_step demo_env) (S_create demo_ns # demo_ops) fresh_server)
      = events fresh_server @ new
    \<and> docs_of demo_ns (final_state (server_step demo_env) (S_create demo_ns # demo_ops) fresh_server)
      = replay demo_env demo_ns new []"
  using collection_refines_oplog [OF demo_ids fresh_server_ok demo_adopts, of demo_ops]
  by (simp add: demo_ops_def reads_back_def keeps_ids_def demo_survives leaves_id_def is_operator_def)

lemma demo_docs:
  "map snd (docs_of demo_ns (final_state (server_step demo_env) (S_create demo_ns # demo_ops) fresh_server))
    = [''B'']"
  by code_simp

definition demo_server :: server where
  "demo_server = final_state (server_step demo_env) [S_create demo_ns, S_write demo_ns (W_insert doc_a)] fresh_server"

lemma demo_server_ok: "server_ok demo_server"
  unfolding demo_server_def by (rule server_machine.run_inv [OF fresh_server_ok(1)])

lemma demo_server_docs: "map snd (docs_of demo_ns demo_server) = [''A'']"
  by code_simp

theorem write_stamp_is_its_own_witness:
  "case write_step demo_env demo_ns (W_insert doc_c) demo_server of
      (Inl e, s') \<Rightarrow> s' = demo_server
    | (Inr (x, stamp), s') \<Rightarrow> \<exists>new. events s' = events demo_server @ new
        \<and> (\<forall>r \<in> set new. row_ns r = ns_text demo_ns) \<and> (new = [] \<or> ts (last new) = stamp)"
  by (rule write_stamp_is_its_own [OF ready_clocked [OF demo_server_ok]])

theorem unadoptable_collection_is_silent_witness:
  "\<exists>s1. create demo_env False \<lparr>ns_db = ''app'', ns_collection = ''my list''\<rparr> fresh_server
      = (Inl (internal_error (server_text demo_env)), s1)
    \<and> coll_exists \<lparr>ns_db = ''app'', ns_collection = ''my list''\<rparr> s1
    \<and> create demo_env False \<lparr>ns_db = ''app'', ns_collection = ''my list''\<rparr> s1 = (Inr (), s1)
    \<and> events (final_state (write_step demo_env \<lparr>ns_db = ''app'', ns_collection = ''my list''\<rparr>) [W_insert doc_a] s1)
      = events s1"
proof (rule unadoptable_collection_is_silent)
  show "\<not> adopts \<lparr>ns_db = ''app'', ns_collection = ''my list''\<rparr>" by code_simp
  show "oplog_ready (oplog fresh_server)" by code_simp
qed (rule fresh_server_ok)

text \<open>
  An update that sets \<open>_id\<close> is carried out and breaks the mirror: the row stays under the key
  of the old \<open>_id\<close>, and a reader of the oplog, who finds no document with the new one, keeps the
  old document.
\<close>

theorem changed_id_leaves_the_mirror:
  "let s = snd (write_step demo_env demo_ns
        (W_update [] [(''$set'', BDocument [(''_id'', BUtf8 ''z'')])] False False) demo_server)
   in docs_of demo_ns s = [(kTagString # ''k'', ''C'')]
     \<and> replay demo_env demo_ns (events s) [] = [(kTagString # ''k'', ''A'')]"
  by code_simp

theorem insert_stores_the_document_witness:
  "\<exists>key json stored. stored = (if map_of doc_c ''_id'' = None
        then (''_id'', BOid (oids demo_env (position demo_server))) # doc_c else doc_c)
    \<and> map_of stored ''_id'' = Some (BUtf8 ''z'') \<and> encode_id (BUtf8 ''z'') = Inr key
    \<and> key \<notin> fst ` set (docs_of demo_ns demo_server) \<and> to_extjson (bson_lib demo_env) stored = Inr json
    \<and> mset (docs_of demo_ns (snd (insert_document demo_env demo_ns doc_c demo_server)))
      = add_mset (key, json) (mset (docs_of demo_ns demo_server))"
proof (rule insert_stores_the_document)
  have "fst (insert_document demo_env demo_ns doc_c demo_server) = Inr (BUtf8 ''z'')" by code_simp
  then show "insert_document demo_env demo_ns doc_c demo_server =
      (Inr (BUtf8 ''z''), snd (insert_document demo_env demo_ns doc_c demo_server))"
    by (simp add: prod_eq_iff)
qed

lemma demo_condition: "where_clause demo_env [] = Inr ''1''"
  by code_simp

theorem remove_takes_the_matches_witness:
  "docs_of demo_ns (snd (remove_documents demo_env demo_ns [] True demo_server))
    = remove1 (kTagString # ''k'', ''A'') (docs_of demo_ns demo_server)"
proof -
  have "fst (remove_documents demo_env demo_ns [] True demo_server) = Inr 1" by code_simp
  then have step: "remove_documents demo_env demo_ns [] True demo_server =
      (Inr 1, snd (remove_documents demo_env demo_ns [] True demo_server))" by (simp add: prod_eq_iff)
  have "filter (\<lambda>r. holds (sql_db demo_env) ''1'' (snd r)) (docs_of demo_ns demo_server)
      = [(kTagString # ''k'', ''A'')]" by code_simp
  with remove_takes_the_matches [OF demo_server_ok demo_condition step] show ?thesis by simp
qed


end
