(* ===== verification/Ordering.thy ===== *)
theory Ordering
  imports Bson Bytes
begin

text \<open>
  Ordering of values and of documents (src/chimera/translator/src/sort.cpp).

  \<open>std::stable_sort\<close> has one possible result when the comparison returns on every pair of
  elements and is a strict weak order on them: the stable sorted permutation. Otherwise what
  it does is left open (the order, or whether the throwing pair is ever compared), and the
  model is Undefined.
\<close>

section \<open>The code\<close>

fun type_rank :: "bson \<Rightarrow> int" where
  "type_rank BMinKey = 0"
| "type_rank BUndefined = 1"
| "type_rank BNull = 1"
| "type_rank (BInt32 _) = 2"
| "type_rank (BInt64 _) = 2"
| "type_rank (BDouble _) = 2"
| "type_rank (BDecimal128 _) = 2"
| "type_rank (BUtf8 _) = 3"
| "type_rank (BSymbol _) = 3"
| "type_rank (BDocument _) = 4"
| "type_rank (BArray _) = 5"
| "type_rank (BBinary _ _) = 6"
| "type_rank (BOid _) = 7"
| "type_rank (BBool _) = 8"
| "type_rank (BDateTime _) = 9"
| "type_rank (BTimestamp _ _) = 10"
| "type_rank (BRegex _ _) = 11"
| "type_rank BMaxKey = 12"
| "type_rank _ = 4"

definition sign :: "int \<Rightarrow> int" where
  "sign n = (if n < 0 then - 1 else if n > 0 then 1 else 0)"

text \<open>\<open>memcmp\<close> over the shared length: negative, zero or positive; its sign.\<close>

fun memcmp :: "string \<Rightarrow> string \<Rightarrow> nat \<Rightarrow> int" where
  "memcmp (a # as) (b # bs) (Suc n) =
     (if (of_char a :: nat) < of_char b then - 1
      else if (of_char b :: nat) < of_char a then 1
      else memcmp as bs n)"
| "memcmp _ _ _ = 0"

definition compare_bytes :: "string \<Rightarrow> string \<Rightarrow> int" where
  "compare_bytes a b =
     (let shared = min (length a) (length b); diff = memcmp a b shared
      in if shared > 0 \<and> diff \<noteq> 0 then (if diff < 0 then - 1 else 1)
         else sign (int (length a) - int (length b)))"

text \<open>The text of a string or a symbol: the two share their layout in the union.\<close>

fun text_of :: "bson \<Rightarrow> string" where
  "text_of (BUtf8 s) = s"
| "text_of (BSymbol s) = s"
| "text_of _ = []"

text \<open>\<open>sign(a - b)\<close> on \<open>int64_t\<close>: an overflowing subtraction is undefined.\<close>

definition sign_of_difference :: "int64 \<Rightarrow> int64 \<Rightarrow> int outcome" where
  "sign_of_difference a b =
     (let d = sint a - sint b
      in if - (2 ^ 63) \<le> d \<and> d < 2 ^ 63 then Inr (sign d) else Inl Undefined)"

function compare_values :: "bson \<Rightarrow> bson \<Rightarrow> int outcome"
  and compare_fields :: "bool \<Rightarrow> document \<Rightarrow> document \<Rightarrow> int outcome"
where
  "compare_values left right =
     (if type_rank left \<noteq> type_rank right
      then Inr (if type_rank left < type_rank right then - 1 else 1)
      else if type_rank left = 2 then
        and_then (value_as_double left) (\<lambda>a. and_then (value_as_double right) (\<lambda>b.
          Inr (if d_less a b then - 1 else if d_less b a then 1 else 0)))
      else if type_rank left = 3 then Inr (compare_bytes (text_of left) (text_of right))
      else if type_rank left = 4 then
        and_then (v_doc left) (\<lambda>a. and_then (v_doc right) (\<lambda>b. compare_fields False a b))
      else if type_rank left = 5 then
        and_then (v_doc left) (\<lambda>a. and_then (v_doc right) (\<lambda>b. compare_fields True a b))
      else case (left, right) of
        (BBinary _ a, BBinary _ b) \<Rightarrow> Inr (compare_bytes a b)
      | (BOid a, BOid b) \<Rightarrow> Inr (sign (memcmp a b 12))
      | (BBool a, BBool b) \<Rightarrow> Inr (sign (of_bool a - of_bool b))
      | (BDateTime a, BDateTime b) \<Rightarrow> sign_of_difference a b
      | (BTimestamp t i, BTimestamp u j) \<Rightarrow>
          if t \<noteq> u then Inr (if t < u then - 1 else 1)
          else Inr (sign (int (unat i) - int (unat j)))
      | (BRegex a _, BRegex b _) \<Rightarrow> Inr (if bytes_less (c_str a) (c_str b) then - 1 else 0)
      | _ \<Rightarrow> Inr 0)"
| "compare_fields as_array ((k, x) # ls) ((l, y) # rs) =
     (if \<not> as_array \<and> k \<noteq> l then Inr (if bytes_less k l then - 1 else 1)
      else and_then (compare_values x y) (\<lambda>diff.
        if diff \<noteq> 0 then Inr diff else compare_fields as_array ls rs))"
| "compare_fields as_array [] rs = Inr (sign (0 - int (length rs)))"
| "compare_fields as_array (p # ls) [] = Inr (sign (int (length (p # ls)) - 0))"
  by pat_completeness auto
termination
proof (relation "measure (case_sum (\<lambda>(a, b). 2 * size a)
    (\<lambda>(_, a, b). 2 * size_list (size_prod (\<lambda>_. 0) size) a + 1))", goal_cases)
  case (2 left right a b)
  then show ?case by (cases left) auto
next
  case (3 left right a b)
  then show ?case by (cases left) auto
qed auto

declare compare_values.simps [simp del]

record sort_key =
  key_path :: path
  direction :: int

definition read_sort_key :: "string \<times> bson \<Rightarrow> sort_key outcome" where
  "read_sort_key field = (case field of (name, v) \<Rightarrow>
     let direction = (if value_is_numeric v then as_double v else d_of_int 0)
     in if \<not> d_eq direction (d_of_int 1) \<and> \<not> d_eq direction (d_of_int (- 1))
        then Inl (bad_value (''sort direction for '' @ [CHR 0x27] @ name @ [CHR 0x27]
                   @ '' must be 1 or -1''))
        else and_then (split_path name) (\<lambda>p.
          Inr \<lparr>key_path = p, direction = (if d_less (d_of_int 0) direction then 1 else - 1)\<rparr>))"

text \<open>The value a document is ordered by: an absent field counts as null.\<close>

definition key_value :: "document \<Rightarrow> path \<Rightarrow> bson" where
  "key_value d p = (case path_get d p of Some v \<Rightarrow> v | None \<Rightarrow> BNull)"

text \<open>The comparison handed to \<open>stable_sort\<close>.\<close>

fun document_less :: "sort_key list \<Rightarrow> document \<Rightarrow> document \<Rightarrow> bool outcome" where
  "document_less [] left right = Inr False"
| "document_less (k # ks) left right =
     and_then (compare_values (key_value left (key_path k)) (key_value right (key_path k))) (\<lambda>diff.
       if diff \<noteq> 0 then Inr (if direction k > 0 then diff < 0 else diff > 0)
       else document_less ks left right)"

definition strict_weak_on :: "('a \<Rightarrow> 'a \<Rightarrow> bool) \<Rightarrow> 'a list \<Rightarrow> bool" where
  "strict_weak_on before xs \<longleftrightarrow>
     list_all (\<lambda>a. \<not> before a a) xs \<and>
     list_all (\<lambda>a. list_all (\<lambda>b. list_all (\<lambda>c.
       (before a b \<and> before b c \<longrightarrow> before a c) \<and>
       (\<not> before a b \<and> \<not> before b a \<and> \<not> before b c \<and> \<not> before c b \<longrightarrow> \<not> before a c \<and> \<not> before c a)) xs) xs) xs"

fun stable_insert :: "('a \<Rightarrow> 'a \<Rightarrow> bool) \<Rightarrow> 'a \<Rightarrow> 'a list \<Rightarrow> 'a list" where
  "stable_insert before x [] = [x]"
| "stable_insert before x (y # ys) =
     (if before y x then y # stable_insert before x ys else x # y # ys)"

definition stable_sorted :: "('a \<Rightarrow> 'a \<Rightarrow> bool) \<Rightarrow> 'a list \<Rightarrow> 'a list" where
  "stable_sorted before xs = foldr (stable_insert before) xs []"

definition stable_sort :: "('a \<Rightarrow> 'a \<Rightarrow> bool outcome) \<Rightarrow> 'a list \<Rightarrow> 'a list outcome" where
  "stable_sort before xs =
     (let lt = (\<lambda>a b. before a b = Inr True)
      in if list_all (\<lambda>a. list_all (\<lambda>b. \<not> isl (before a b)) xs) xs \<and> strict_weak_on lt xs \<or> length xs \<le> 1
         then Inr (stable_sorted lt xs) else Inl Undefined)"

definition sort_documents :: "document list \<Rightarrow> document option \<Rightarrow> document list outcome" where
  "sort_documents documents spec = (case spec of
       None \<Rightarrow> Inr documents
     | Some keys \<Rightarrow>
         if keys = [] then Inr documents
         else and_then (map_res read_sort_key keys) (\<lambda>sort_keys.
           stable_sort (document_less sort_keys) documents))"

text \<open>Whatever the relation, the sort rearranges.\<close>

lemma mset_stable_insert: "mset (stable_insert lt x ys) = add_mset x (mset ys)"
  by (induction ys) auto

lemma mset_stable_sorted: "mset (stable_sorted lt xs) = mset xs"
  by (induction xs) (auto simp: stable_sorted_def mset_stable_insert)

section \<open>Comparisons\<close>

text \<open>
  The contract of a three-way comparison on the values it is meant for, and what a stable
  sort by it gives.
\<close>

locale comparator =
  fixes cmp :: "'a \<Rightarrow> 'a \<Rightarrow> int" and ok :: "'a \<Rightarrow> bool"
  assumes flip: "ok a \<Longrightarrow> ok b \<Longrightarrow> cmp b a = - cmp a b"
    and trans: "ok a \<Longrightarrow> ok b \<Longrightarrow> ok c \<Longrightarrow> cmp a b \<le> 0 \<Longrightarrow> cmp b c \<le> 0 \<Longrightarrow> cmp a c \<le> 0"
begin

abbreviation lt :: "'a \<Rightarrow> 'a \<Rightarrow> bool" where "lt a b \<equiv> cmp a b < 0"

lemma refl: "ok a \<Longrightarrow> cmp a a = 0"
  using flip [of a a] by simp

lemma lt_trans: "ok a \<Longrightarrow> ok b \<Longrightarrow> ok c \<Longrightarrow> cmp a b \<le> 0 \<Longrightarrow> lt b c \<Longrightarrow> lt a c"
proof (rule ccontr)
  assume ok: "ok a" "ok b" "ok c" and le: "cmp a b \<le> 0" "lt b c" and "\<not> lt a c"
  then have "cmp c a \<le> 0" using flip [of a c] by simp
  then have "cmp c b \<le> 0" using trans ok le by blast
  then show False using le flip [of b c] ok by simp
qed

lemma strict_weak: "list_all ok xs \<Longrightarrow> strict_weak_on lt xs"
proof -
  assume ok: "list_all ok xs"
  have eq: "cmp a b = 0 \<longleftrightarrow> \<not> lt a b \<and> \<not> lt b a" if "a \<in> set xs" "b \<in> set xs" for a b
    using flip [of a b] ok that by (auto simp: list_all_iff)
  have "cmp a c = 0" if "cmp a b = 0" "cmp b c = 0" "a \<in> set xs" "b \<in> set xs" "c \<in> set xs" for a b c
    using trans [of a b c] trans [of c b a] flip [of a b] flip [of b c] flip [of a c] ok that
    by (auto simp: list_all_iff)
  then show ?thesis
    using ok lt_trans refl eq unfolding strict_weak_on_def list_all_iff by (metis order_less_imp_le less_irrefl)
qed

lemma set_insert: "set (stable_insert lt x ys) = insert x (set ys)"
  by (induction ys) auto

lemma set_sorted [simp]: "set (stable_sorted lt xs) = set xs"
  by (induction xs) (auto simp: stable_sorted_def set_insert)

lemma sorted_insert:
  "ok x \<Longrightarrow> list_all ok ys \<Longrightarrow> sorted_wrt (\<lambda>a b. cmp a b \<le> 0) ys \<Longrightarrow>
    sorted_wrt (\<lambda>a b. cmp a b \<le> 0) (stable_insert lt x ys)"
proof (induction ys)
  case (Cons y ys)
  show ?case
  proof (cases "lt y x")
    case True
    with Cons show ?thesis by (auto simp: set_insert)
  next
    case False
    then have "cmp x y \<le> 0" using flip [of x y] Cons.prems by simp
    with Cons.prems False show ?thesis using trans [of x y] by (auto simp: list_all_iff)
  qed
qed simp

lemma sorted_sorted: "list_all ok xs \<Longrightarrow> sorted_wrt (\<lambda>a b. cmp a b \<le> 0) (stable_sorted lt xs)"
proof (induction xs)
  case (Cons x xs)
  have "list_all ok (stable_sorted lt xs)" using Cons.prems by (simp add: list_all_iff)
  with Cons show ?case using sorted_insert by (simp add: stable_sorted_def)
qed (simp add: stable_sorted_def)

text \<open>Elements that compare equal keep their order.\<close>

lemma filter_insert:
  "ok x \<Longrightarrow> list_all ok ys \<Longrightarrow> ok z \<Longrightarrow>
    filter (\<lambda>y. cmp z y = 0) (stable_insert lt x ys) = filter (\<lambda>y. cmp z y = 0) (x # ys)"
proof (induction ys)
  case (Cons y ys)
  have "\<not> (cmp z x = 0 \<and> cmp z y = 0)" if "lt y x"
    using that trans [of x z y] flip [of z x] flip [of x y] Cons.prems by auto
  with Cons show ?case by auto
qed simp

lemma filter_sorted:
  "list_all ok xs \<Longrightarrow> ok z \<Longrightarrow>
    filter (\<lambda>y. cmp z y = 0) (stable_sorted lt xs) = filter (\<lambda>y. cmp z y = 0) xs"
proof (induction xs)
  case (Cons x xs)
  have "list_all ok (stable_sorted lt xs)" using Cons.prems by (simp add: list_all_iff)
  with Cons show ?case using filter_insert [of x "stable_sorted lt xs" z]
    by (simp add: stable_sorted_def)
qed (simp add: stable_sorted_def)

end

section \<open>Sort keys\<close>

text \<open>
  The order that the comparison implements, written independently of it: every value has a
  key, a list of integers, and values are ordered by the lexicographic order of their keys.
\<close>

fun lex_compare :: "int list \<Rightarrow> int list \<Rightarrow> int" where
  "lex_compare [] [] = 0"
| "lex_compare [] (_ # _) = - 1"
| "lex_compare (_ # _) [] = 1"
| "lex_compare (x # xs) (y # ys) = (if x < y then - 1 else if y < x then 1 else lex_compare xs ys)"

definition bytes_key :: "string \<Rightarrow> int list" where
  "bytes_key s = map (\<lambda>c. int (of_char c) + 1) s @ [0]"

function sort_key_of :: "bson \<Rightarrow> int list" and fields_key :: "bool \<Rightarrow> document \<Rightarrow> int list" where
  "sort_key_of v = type_rank v # (case v of
       BInt32 n \<Rightarrow> [d_key (d_of_int (sint n))]
     | BInt64 n \<Rightarrow> [d_key (d_of_int (sint n))]
     | BDouble d \<Rightarrow> [d_key d]
     | BUtf8 s \<Rightarrow> bytes_key s
     | BSymbol s \<Rightarrow> bytes_key s
     | BDocument d \<Rightarrow> fields_key False d
     | BArray d \<Rightarrow> fields_key True d
     | BBinary _ s \<Rightarrow> bytes_key s
     | BOid s \<Rightarrow> bytes_key s
     | BBool b \<Rightarrow> [of_bool b]
     | BDateTime t \<Rightarrow> [sint t]
     | BTimestamp t i \<Rightarrow> [int (unat t), int (unat i)]
     | _ \<Rightarrow> [])"
| "fields_key as_array [] = [0]"
| "fields_key as_array ((k, v) # fs) =
     1 # (if as_array then [] else bytes_key k) @ sort_key_of v @ fields_key as_array fs"
  by pat_completeness auto
termination
  by (relation "measure (case_sum (\<lambda>a. 2 * size a)
    (\<lambda>(_, a). 2 * size_list (size_prod (\<lambda>_. 0) size) a + 1))") auto

text \<open>
  The values that have a place in that order: no NaN, no Decimal128, no regular expression and
  no code, ObjectIds of 12 bytes, and dates within 2^62 milliseconds of the epoch.
\<close>

function orderable :: "bson \<Rightarrow> bool" where
  "orderable v = (case v of
       BDouble d \<Rightarrow> \<not> d_nan d
     | BDocument d \<Rightarrow> list_all (\<lambda>f. orderable (snd f)) d
     | BArray d \<Rightarrow> list_all (\<lambda>f. orderable (snd f)) d
     | BOid s \<Rightarrow> length s = 12
     | BDateTime t \<Rightarrow> - (2 ^ 62) \<le> sint t \<and> sint t < 2 ^ 62
     | BRegex _ _ \<Rightarrow> False
     | BDbPointer _ _ \<Rightarrow> False
     | BCode _ \<Rightarrow> False
     | BCodeWScope _ _ \<Rightarrow> False
     | BDecimal128 _ \<Rightarrow> False
     | _ \<Rightarrow> True)"
  by pat_completeness auto
termination
proof (relation "measure size", goal_cases)
  case (2 v d f)
  then have "size (snd f) < size_list (size_prod (\<lambda>_. 0) size) d + 1"
    by (induction d arbitrary: v) (auto simp: less_Suc_eq_le split: prod.splits)
  with 2 show ?case by simp
next
  case (3 v d f)
  then have "size (snd f) < size_list (size_prod (\<lambda>_. 0) size) d + 1"
    by (induction d arbitrary: v) (auto simp: less_Suc_eq_le split: prod.splits)
  with 3 show ?case by simp
qed simp

declare orderable.simps [simp del] sort_key_of.simps [simp del]

lemma lex_compare_flip: "lex_compare ys xs = - lex_compare xs ys"
  by (induction ys xs rule: lex_compare.induct) auto

lemma lex_compare_trans: "lex_compare xs ys \<le> 0 \<Longrightarrow> lex_compare ys zs \<le> 0 \<Longrightarrow> lex_compare xs zs \<le> 0"
proof (induction xs ys arbitrary: zs rule: lex_compare.induct)
  case (2 y ys)
  then show ?case by (cases zs) auto
next
  case (4 x xs y ys)
  show ?case
  proof (cases zs)
    case (Cons z zs')
    have "x < y \<or> x = y \<and> lex_compare xs ys \<le> 0" "y < z \<or> y = z \<and> lex_compare ys zs' \<le> 0"
      using 4(2,3) Cons by (simp_all split: if_splits)
    then show ?thesis using 4(1) [of zs'] Cons by (elim disjE) simp_all
  qed (use 4 in simp)
qed simp_all

interpretation keys: comparator lex_compare "\<lambda>_. True"
proof
  show "lex_compare ys xs = - lex_compare xs ys" for xs ys by (rule lex_compare_flip)
qed (rule lex_compare_trans)

text \<open>Comparison of a key that is continued: keys are prefix free, so the key decides first.\<close>

definition decides :: "int \<Rightarrow> int list \<Rightarrow> int list \<Rightarrow> bool" where
  "decides c a b \<longleftrightarrow> (\<forall>x y. lex_compare (a @ x) (b @ y) = (if c \<noteq> 0 then c else lex_compare x y))"

lemma decides_append: "decides c a b \<Longrightarrow> decides e a' b' \<Longrightarrow> decides (if c \<noteq> 0 then c else e) (a @ a') (b @ b')"
  by (simp add: decides_def)

lemma decides_lex: "decides c a b \<Longrightarrow> lex_compare a b = c"
  unfolding decides_def by (metis append_Nil2 lex_compare.simps(1))

lemma decides_Cons: "decides c a b \<Longrightarrow> decides c (x # a) (x # b)"
  by (simp add: decides_def)

lemma decides_sign: "decides (sign (x - y)) [x] [y]"
  by (simp add: decides_def sign_def)

lemma decides_Nil: "decides 0 [] []"
  by (simp add: decides_def)

lemma compare_bytes_Cons:
  "compare_bytes (a # s) (b # t) = (if a < b then - 1 else if b < a then 1 else compare_bytes s t)"
  by (auto simp: compare_bytes_def Let_def sign_def less_char_def)

lemma compare_bytes_Nil: "compare_bytes [] t = (if t = [] then 0 else - 1)" "compare_bytes (a # s) [] = 1"
  by (auto simp: compare_bytes_def Let_def sign_def)

lemma decides_bytes: "decides (compare_bytes s t) (bytes_key s) (bytes_key t)"
proof (induction s t rule: list_induct2')
  case (4 a s b t)
  then show ?case by (auto simp: decides_def bytes_key_def compare_bytes_Cons less_char_def)
qed (auto simp: decides_def bytes_key_def compare_bytes_Nil)

lemma decides_memcmp:
  "length s = n \<Longrightarrow> length t = n \<Longrightarrow> decides (sign (memcmp s t n)) (bytes_key s) (bytes_key t)"
proof -
  assume "length s = n" "length t = n"
  then have "sign (memcmp s t n) = compare_bytes s t"
    by (auto simp: compare_bytes_def Let_def sign_def)
  then show ?thesis by (simp add: decides_bytes)
qed

lemma compare_bytes_less: "compare_bytes s t = (if bytes_less s t then - 1 else if s = t then 0 else 1)"
  by (induction s t rule: bytes_less.induct) (auto simp: compare_bytes_Nil compare_bytes_Cons neq_Nil_conv)

lemma decides_numbers:
  "\<not> d_nan a \<Longrightarrow> \<not> d_nan b \<Longrightarrow>
    decides (if d_less a b then - 1 else if d_less b a then 1 else 0) [d_key a] [d_key b]"
  by (auto simp: d_less_key decides_def)

lemma decides_difference:
  "- (2 ^ 62) \<le> sint a \<Longrightarrow> sint a < 2 ^ 62 \<Longrightarrow> - (2 ^ 62) \<le> sint b \<Longrightarrow> sint b < 2 ^ 62 \<Longrightarrow>
    \<exists>c. sign_of_difference a b = Inr c \<and> decides c [sint a] [sint b]"
  unfolding sign_of_difference_def Let_def using decides_sign [of "sint a" "sint b"] by simp

lemma orderable_numeric:
  assumes "orderable v" and "type_rank v = 2"
  shows "\<exists>d. value_as_double v = Inr d \<and> \<not> d_nan d \<and> sort_key_of v = [2, d_key d]"
  using assms by (cases v) (auto simp: orderable.simps sort_key_of.simps)

lemma orderable_string:
  assumes "orderable v" and "type_rank v = 3"
  shows "sort_key_of v = 3 # bytes_key (text_of v)"
  using assms by (cases v) (auto simp: orderable.simps sort_key_of.simps)

lemma orderable_fields:
  assumes "orderable v" and "type_rank v = (if as_array then 5 else 4)"
  shows "\<exists>d. v_doc v = Inr d \<and> list_all (\<lambda>f. orderable (snd f)) d
    \<and> sort_key_of v = type_rank v # fields_key as_array d"
  using assms by (cases v) (auto simp: orderable.simps sort_key_of.simps split: if_splits)

lemma decides_timestamp:
  "decides (if t \<noteq> u then (if t < u then - 1 else 1) else sign (int (unat i) - int (unat j)))
     [int (unat t), int (unat i)] [int (unat u), int (unat j)]" for t u i j :: uint32
proof -
  have "int (unat t) < int (unat u) \<longleftrightarrow> t < u" "int (unat t) = int (unat u) \<longleftrightarrow> t = u"
    by (simp_all add: word_less_nat_alt word_unat_eq_iff del: of_nat_unat)
  then show ?thesis by (auto simp: decides_def sign_def word_less_nat_alt simp del: of_nat_unat)
qed

lemma compare_scalar:
  assumes "orderable v" "orderable w" "type_rank v = type_rank w" "type_rank v \<notin> {2, 3, 4, 5}"
  shows "\<exists>c. compare_values v w = Inr c \<and> decides c (sort_key_of v) (sort_key_of w)"
proof (cases v)
  case (BBinary t s)
  then obtain t' s' where "w = BBinary t' s'" using assms(3) by (cases w) auto
  with BBinary show ?thesis
    by (simp add: compare_values.simps sort_key_of.simps decides_Cons decides_bytes)
next
  case (BOid s)
  then obtain s' where w: "w = BOid s'" using assms(3) by (cases w) auto
  have "length s = 12" "length s' = 12" using assms BOid w by (simp_all add: orderable.simps)
  with BOid w show ?thesis
    by (simp add: compare_values.simps sort_key_of.simps decides_Cons decides_memcmp)
next
  case (BBool b)
  then obtain b' where "w = BBool b'" using assms(3) by (cases w) auto
  with BBool show ?thesis
    by (simp add: compare_values.simps sort_key_of.simps decides_Cons decides_sign)
next
  case (BDateTime t)
  then obtain t' where w: "w = BDateTime t'" using assms(3) by (cases w) auto
  have "\<exists>c. sign_of_difference t t' = Inr c \<and> decides c [sint t] [sint t']"
    by (rule decides_difference) (use assms BDateTime w in \<open>simp_all add: orderable.simps\<close>)
  with BDateTime w show ?thesis
    by (auto simp: compare_values.simps sort_key_of.simps intro: decides_Cons)
next
  case (BTimestamp t i)
  then obtain u j where "w = BTimestamp u j" using assms(3) by (cases w) auto
  with BTimestamp show ?thesis using decides_timestamp [of t u i j]
    by (auto simp: compare_values.simps sort_key_of.simps intro!: decides_Cons split: if_splits)
qed (use assms in \<open>cases w; simp add: compare_values.simps sort_key_of.simps orderable.simps decides_def\<close>)+

lemma compare_key:
  "orderable v \<Longrightarrow> orderable w \<Longrightarrow>
    \<exists>c. compare_values v w = Inr c \<and> decides c (sort_key_of v) (sort_key_of w)"
  "list_all (\<lambda>f. orderable (snd f)) a \<Longrightarrow> list_all (\<lambda>f. orderable (snd f)) b \<Longrightarrow>
    \<exists>c. compare_fields as_array a b = Inr c \<and> decides c (fields_key as_array a) (fields_key as_array b)"
proof (induction v w and as_array a b rule: compare_values_compare_fields.induct)
  case (1 v w)
  have tail: "\<exists>rest. sort_key_of x = type_rank x # rest" for x by (simp add: sort_key_of.simps)
  consider "type_rank v \<noteq> type_rank w" | "type_rank v = type_rank w" "type_rank v = 2"
    | "type_rank v = type_rank w" "type_rank v = 3" | "type_rank v = type_rank w" "type_rank v = 4"
    | "type_rank v = type_rank w" "type_rank v = 5"
    | "type_rank v = type_rank w" "type_rank v \<notin> {2, 3, 4, 5}" by fastforce
  then show ?case
  proof cases
    case 1
    then show ?thesis using tail [of v] tail [of w]
      by (subst compare_values.simps) (auto simp: decides_def)
  next
    case 2
    obtain a b where a: "value_as_double v = Inr a" "\<not> d_nan a" "sort_key_of v = [2, d_key a]"
      and b: "value_as_double w = Inr b" "\<not> d_nan b" "sort_key_of w = [2, d_key b]"
      using 2 orderable_numeric [OF 1(3)] orderable_numeric [OF 1(4)] by auto
    have "compare_values v w = Inr (if d_less a b then - 1 else if d_less b a then 1 else 0)"
      using 2 a(1) b(1) by (subst compare_values.simps) simp
    then show ?thesis unfolding a(3) b(3)
      using decides_Cons [OF decides_numbers [OF a(2) b(2)]] by auto
  next
    case 3
    then show ?thesis
      using orderable_string [OF 1(3)] orderable_string [OF 1(4)] decides_Cons [OF decides_bytes]
      by (subst compare_values.simps) auto
  next
    case 4
    obtain a b where a: "v_doc v = Inr a" "list_all (\<lambda>f. orderable (snd f)) a"
        "sort_key_of v = 4 # fields_key False a"
      and b: "v_doc w = Inr b" "list_all (\<lambda>f. orderable (snd f)) b"
        "sort_key_of w = 4 # fields_key False b"
      using 4 orderable_fields [OF 1(3), of False] orderable_fields [OF 1(4), of False] by auto
    have "compare_values v w = compare_fields False a b"
      using 4 a b by (subst compare_values.simps) simp
    then show ?thesis unfolding a(3) b(3)
      using 1(1) [of a b] 4 a b decides_Cons by fastforce
  next
    case 5
    obtain a b where a: "v_doc v = Inr a" "list_all (\<lambda>f. orderable (snd f)) a"
        "sort_key_of v = 5 # fields_key True a"
      and b: "v_doc w = Inr b" "list_all (\<lambda>f. orderable (snd f)) b"
        "sort_key_of w = 5 # fields_key True b"
      using 5 orderable_fields [OF 1(3), of True] orderable_fields [OF 1(4), of True] by auto
    have "compare_values v w = compare_fields True a b"
      using 5 a b by (subst compare_values.simps) simp
    then show ?thesis unfolding a(3) b(3)
      using 1(2) [of a b] 5 a b decides_Cons by fastforce
  next
    case 6
    show ?thesis
      by (rule compare_scalar [OF 1(3,4) 6])
  qed
next
  case (2 as_array k x ls l y rs)
  show ?case
  proof (cases "\<not> as_array \<and> k \<noteq> l")
    case True
    then have "compare_bytes k l = (if bytes_less k l then - 1 else 1)"
      by (simp add: compare_bytes_less)
    then have "decides (if bytes_less k l then - 1 else 1) (bytes_key k @ xs) (bytes_key l @ ys)" for xs ys
      using decides_bytes [of k l] by (auto simp: decides_def split: if_splits)
    with True show ?thesis by (auto intro: decides_Cons)
  next
    case False
    obtain c where c: "compare_values x y = Inr c" "decides c (sort_key_of x) (sort_key_of y)"
      using 2(1) [OF False] 2(3,4) by auto
    obtain e where e: "compare_fields as_array ls rs = Inr e"
        "decides e (fields_key as_array ls) (fields_key as_array rs)"
      if "c = 0"
      using 2(2) [OF False c(1)] 2(3,4) by auto
    have "decides (if c \<noteq> 0 then c else e) (sort_key_of x @ fields_key as_array ls)
        (sort_key_of y @ fields_key as_array rs)"
    proof (cases "c = 0")
      case True
      then show ?thesis using decides_append [OF c(2) e(2) [OF True]] by simp
    next
      case c0: False
      then show ?thesis using c(2) by (simp add: decides_def)
    qed
    moreover have "decides 0 (if as_array then [] else bytes_key k) (if as_array then [] else bytes_key l)"
      using False decides_bytes [of k l] by (auto simp: decides_Nil compare_bytes_less)
    ultimately have "decides (if c \<noteq> 0 then c else e) (fields_key as_array ((k, x) # ls))
        (fields_key as_array ((l, y) # rs))"
      using decides_append [of 0] decides_Cons by fastforce
    with False c(1) e(1) show ?thesis by auto
  qed
next
  case (3 as_array rs)
  then show ?case by (cases rs) (auto simp: sign_def decides_def)
next
  case (4 as_array p ls)
  then show ?case by (cases p) (auto simp: sign_def decides_def)
qed

section \<open>Documents\<close>

text \<open>
  The order a sort specification asks for: the first key on which the two values differ
  decides, reversed when the key is descending.
\<close>

fun document_compare :: "sort_key list \<Rightarrow> document \<Rightarrow> document \<Rightarrow> int" where
  "document_compare [] left right = 0"
| "document_compare (k # ks) left right =
     (let c = lex_compare (sort_key_of (key_value left (key_path k)))
                          (sort_key_of (key_value right (key_path k)))
      in if c \<noteq> 0 then (if direction k > 0 then c else - c) else document_compare ks left right)"

definition has_order :: "sort_key list \<Rightarrow> document \<Rightarrow> bool" where
  "has_order ks d \<longleftrightarrow> list_all (\<lambda>k. orderable (key_value d (key_path k))) ks"

lemma document_less_compare:
  "has_order ks a \<Longrightarrow> has_order ks b \<Longrightarrow> document_less ks a b = Inr (document_compare ks a b < 0)"
proof (induction ks)
  case (Cons k ks)
  have "compare_values (key_value a (key_path k)) (key_value b (key_path k))
      = Inr (lex_compare (sort_key_of (key_value a (key_path k))) (sort_key_of (key_value b (key_path k))))"
    using compare_key(1) [of "key_value a (key_path k)" "key_value b (key_path k)"] Cons.prems decides_lex
    by (auto simp: has_order_def)
  with Cons show ?case by (auto simp: Let_def has_order_def)
qed simp

lemma document_compare_flip: "document_compare ks b a = - document_compare ks a b"
proof (induction ks)
  case (Cons k ks)
  have "lex_compare (sort_key_of (key_value b (key_path k))) (sort_key_of (key_value a (key_path k)))
      = - lex_compare (sort_key_of (key_value a (key_path k))) (sort_key_of (key_value b (key_path k)))"
    by (rule lex_compare_flip)
  with Cons show ?case by (auto simp: Let_def)
qed simp

lemma lex_compare_eq: "lex_compare xs ys = 0 \<longleftrightarrow> xs = ys"
  by (induction xs ys rule: lex_compare.induct) auto

lemma document_compare_trans:
  "document_compare ks a b \<le> 0 \<Longrightarrow> document_compare ks b c \<le> 0 \<Longrightarrow> document_compare ks a c \<le> 0"
proof (induction ks)
  case (Cons k ks)
  define x y z where "x = sort_key_of (key_value a (key_path k))"
    and "y = sort_key_of (key_value b (key_path k))" and "z = sort_key_of (key_value c (key_path k))"
  note xyz = x_def [symmetric] y_def [symmetric] z_def [symmetric]
  show ?case
  proof (cases "x = y \<or> y = z")
    case True
    have "lex_compare x x = 0" for x by (simp add: lex_compare_eq)
    with True Cons show ?thesis by (auto simp: Let_def xyz split: if_splits)
  next
    case False
    then have pq: "lex_compare x y \<noteq> 0" "lex_compare y z \<noteq> 0" by (simp_all add: lex_compare_eq)
    have c: "document_compare (k # ks) a b = (if direction k > 0 then lex_compare x y else - lex_compare x y)"
      "document_compare (k # ks) b c = (if direction k > 0 then lex_compare y z else - lex_compare y z)"
      using pq by (simp_all add: Let_def xyz)
    show ?thesis
    proof (cases "direction k > 0")
      case True
      with Cons.prems c pq have "lex_compare x y \<le> 0" "lex_compare y z < 0" by simp_all
      then have "lex_compare x z < 0" using keys.lt_trans [of x y z] by simp
      with True show ?thesis by (simp add: Let_def xyz)
    next
      case False
      with Cons.prems c pq have "lex_compare z y \<le> 0" "lex_compare y x < 0"
        using lex_compare_flip [of z y] lex_compare_flip [of y x] by simp_all
      then have "lex_compare z x < 0" using keys.lt_trans [of z y x] by simp
      then have "0 < lex_compare x z" using lex_compare_flip [of x z] by simp
      with False show ?thesis by (simp add: Let_def xyz)
    qed
  qed
qed simp

interpretation documents: comparator "document_compare ks" "has_order ks" for ks
proof
  show "document_compare ks b a = - document_compare ks a b" for a b
    by (rule document_compare_flip)
qed (rule document_compare_trans)

lemma stable_sort_comparator:
  assumes "list_all (has_order ks) ds"
  shows "stable_sort (document_less ks) ds = Inr (stable_sorted (\<lambda>a b. document_compare ks a b < 0) ds)"
proof -
  define lt where "lt a b \<longleftrightarrow> document_less ks a b = Inr True" for a b
  have lt: "lt a b \<longleftrightarrow> document_compare ks a b < 0" if "a \<in> set ds" "b \<in> set ds" for a b
    using assms that by (simp add: lt_def document_less_compare list_all_iff)
  have "strict_weak_on lt ds \<longleftrightarrow> strict_weak_on (\<lambda>a b. document_compare ks a b < 0) ds"
    unfolding strict_weak_on_def list_all_iff by (simp add: lt cong: ball_cong)
  then have "strict_weak_on lt ds" using documents.strict_weak [OF assms] by simp
  moreover have "list_all (\<lambda>a. list_all (\<lambda>b. \<not> isl (document_less ks a b)) ds) ds"
    using assms by (auto simp: list_all_iff document_less_compare)
  moreover have "stable_sorted lt ds = stable_sorted (\<lambda>a b. document_compare ks a b < 0) ds"
  proof -
    have ins: "stable_insert lt x ys = stable_insert (\<lambda>a b. document_compare ks a b < 0) x ys"
      if "insert x (set ys) \<subseteq> set ds" for x ys
      using that by (induction ys) (auto simp: lt)
    have "stable_sorted lt xs = stable_sorted (\<lambda>a b. document_compare ks a b < 0) xs"
      if "set xs \<subseteq> set ds" for xs
      using that
    proof (induction xs)
      case (Cons x xs)
      have "set (stable_sorted (\<lambda>a b. document_compare ks a b < 0) xs) = set xs"
        by (rule documents.set_sorted)
      with Cons ins show ?case by (simp add: stable_sorted_def)
    qed (simp add: stable_sorted_def)
    then show ?thesis by simp
  qed
  ultimately show ?thesis by (simp add: stable_sort_def lt_def [abs_def, symmetric] Let_def)
qed

lemma read_ascending: "read_sort_key (''a'', BInt32 1) = Inr \<lparr>key_path = [''a''], direction = 1\<rparr>"
  by (simp add: read_sort_key_def split_path_def Let_def safe_int_def)

section \<open>Properties\<close>

text \<open>
  C22. On values that have a place in the order, the comparison never fails and is the
  lexicographic order of the sort keys: types rank first, numbers of all types compare by
  value, documents field by field, arrays element by element, the shorter one first.
\<close>

theorem compare_values_is_key_order:
  assumes "orderable v" and "orderable w"
  shows "compare_values v w = Inr (lex_compare (sort_key_of v) (sort_key_of w))"
  using compare_key(1) [OF assms] decides_lex by auto

theorem compare_values_is_key_order_witness:
  "compare_values (BArray [(''0'', BInt32 1)]) (BArray [(''0'', BInt64 1), (''1'', BNull)])
     = Inr (lex_compare (sort_key_of (BArray [(''0'', BInt32 1)]))
              (sort_key_of (BArray [(''0'', BInt64 1), (''1'', BNull)])))"
  by (rule compare_values_is_key_order) (simp_all add: orderable.simps)

text \<open>
  C23. Sorting by a well-formed specification whose keys have orderable values succeeds, and
  the result is the stable sort: the same documents, ordered by the specification, documents
  that compare equal in the order they came in.
\<close>

theorem sort_documents_correct:
  assumes "spec \<noteq> []" and "map_res read_sort_key spec = Inr ks" and "list_all (has_order ks) ds"
  shows "\<exists>out. sort_documents ds (Some spec) = Inr out \<and> mset out = mset ds
    \<and> sorted_wrt (\<lambda>a b. document_compare ks a b \<le> 0) out
    \<and> (\<forall>d \<in> set ds. filter (\<lambda>e. document_compare ks d e = 0) out
                   = filter (\<lambda>e. document_compare ks d e = 0) ds)"
proof -
  define out where "out = stable_sorted (\<lambda>a b. document_compare ks a b < 0) ds"
  have "sort_documents ds (Some spec) = Inr out"
    using assms stable_sort_comparator by (simp add: sort_documents_def out_def)
  moreover have "mset out = mset ds" unfolding out_def by (rule mset_stable_sorted)
  moreover have "sorted_wrt (\<lambda>a b. document_compare ks a b \<le> 0) out"
    unfolding out_def by (rule documents.sorted_sorted) fact
  moreover have "\<forall>d \<in> set ds. filter (\<lambda>e. document_compare ks d e = 0) out
      = filter (\<lambda>e. document_compare ks d e = 0) ds"
    unfolding out_def using assms(3) documents.filter_sorted by (auto simp: list_all_iff)
  ultimately show ?thesis by blast
qed

theorem sort_documents_correct_witness:
  "\<exists>out. sort_documents [[(''a'', BBool True)], [], [(''a'', BBool False)]] (Some [(''a'', BInt32 1)]) = Inr out
    \<and> mset out = mset [[(''a'', BBool True)], [], [(''a'', BBool False)]]"
proof -
  have "map_res read_sort_key [(''a'', BInt32 1)] = Inr [\<lparr>key_path = [''a''], direction = 1\<rparr>]"
    by (simp add: read_ascending)
  moreover have "list_all (has_order [\<lparr>key_path = [''a''], direction = 1\<rparr>])
      [[(''a'', BBool True)], [], [(''a'', BBool False)]]"
    by (simp add: has_order_def key_value_def orderable.simps find_field_def nul_def)
  ultimately show ?thesis
    using sort_documents_correct [of "[(''a'', BInt32 1)]" _ "[[(''a'', BBool True)], [], [(''a'', BBool False)]]"]
    by blast
qed

text \<open>
  Regular expressions have no consistent place: comparing two different ones gives
  "smaller" in one direction and "equal" in the other, so a sort on a key that holds regular
  expressions has no defined result as soon as a document in between makes equality matter.
\<close>

theorem regex_comparison_one_sided:
  assumes "bytes_less (c_str a) (c_str b)"
  shows "compare_values (BRegex a x) (BRegex b y) = Inr (- 1)
    \<and> compare_values (BRegex b y) (BRegex a x) = Inr 0"
  using assms bytes_less_asym by (auto simp: compare_values.simps)

theorem regex_comparison_one_sided_witness:
  "compare_values (BRegex ''a'' []) (BRegex ''b'' ''i'') = Inr (- 1)
    \<and> compare_values (BRegex ''b'' ''i'') (BRegex ''a'' []) = Inr 0"
  by (rule regex_comparison_one_sided) (simp add: less_char_def nul_def)

text \<open>
  A NaN compares equal to every number, which is not transitive: sorting 1, NaN and 2
  breaks the precondition of \<open>std::stable_sort\<close>.
\<close>

theorem nan_breaks_sort:
  "sort_documents [[(''a'', BInt32 1)], [(''a'', BDouble quiet_nan)], [(''a'', BInt32 2)]]
     (Some [(''a'', BInt32 1)]) = Inl Undefined"
proof -
  have nan: "d_nan quiet_nan" by code_simp
  define ks where "ks = [\<lparr>key_path = [''a''], direction = 1\<rparr>]"
  have "map_res read_sort_key [(''a'', BInt32 1)] = Inr ks"
    by (simp add: read_ascending ks_def)
  moreover have one: "document_less ks [(''a'', BInt32 1)] [(''a'', BInt32 2)] = Inr True"
    by (simp add: ks_def key_value_def find_field_def compare_values.simps safe_int_def nul_def)
  moreover have nan: "document_less ks [(''a'', BInt32 n)] [(''a'', BDouble quiet_nan)] = Inr False"
    "document_less ks [(''a'', BDouble quiet_nan)] [(''a'', BInt32 n)] = Inr False" for n
    using nan by (simp_all add: ks_def key_value_def find_field_def compare_values.simps d_less_def nul_def)
  ultimately show ?thesis by (simp add: sort_documents_def stable_sort_def strict_weak_on_def)
qed

end
