(* ===== verification/Indexes.thy ===== *)
theory Indexes
  imports Mirror Ordering
begin

text \<open>
  Indexes (collection.cc): a generated column per key, computed by the expression the filter compiler
  uses, an index over them, and a row in \<open>chimera_meta.indexes\<close>; and the namespaces of a server,
  listed and dropped.
\<close>

section \<open>Indexes\<close>

record index_spec =
  spec_name :: string
  spec_keys :: "(string \<times> int) list"
  spec_unique :: bool

definition statement :: "env \<Rightarrow> namespace \<Rightarrow> string \<Rightarrow> unit action" where
  "statement env ns sql s = (case table_of ns s of
       None \<Rightarrow> (Inl (namespace_not_found (server_text env)), s)
     | Some t \<Rightarrow> (throw_if (\<not> alter_ok env t sql) (internal_error (server_text env)), s))"

text \<open>The column definitions of the \<open>ALTER TABLE\<close>, and the columns of the index.\<close>

fun index_columns :: "string \<Rightarrow> nat \<Rightarrow> (string \<times> int) list \<Rightarrow> (string \<times> string) outcome" where
  "index_columns name i [] = Inr ([], [])"
| "index_columns name i ((key, dir) # keys) =
     and_then (quote_identifier (generated_column name i)) (\<lambda>column.
     and_then (split_path key) (\<lambda>path.
     and_then (index_columns name (i + 1) keys) (\<lambda>(adds, columns).
       Inr ((if i = 0 then '' ADD COLUMN '' else '', ADD COLUMN '') @ column @ '' VARCHAR(255) AS (''
              @ scalar_expr path ''doc'' @ '') VIRTUAL'' @ adds,
            (if 0 < i then '', '' else []) @ column @ columns))))"

definition create_index_sql :: "namespace \<Rightarrow> index_spec \<Rightarrow> string outcome" where
  "create_index_sql ns spec =
     and_then (ns_table ns) (\<lambda>table.
     and_then (index_columns (spec_name spec) 0 (spec_keys spec)) (\<lambda>(adds, columns).
     and_then (quote_identifier (spec_name spec)) (\<lambda>name.
       Inr (''ALTER TABLE '' @ table @ adds @ '', ADD '' @ (if spec_unique spec then ''UNIQUE '' else [])
            @ ''INDEX '' @ name @ '' ('' @ columns @ '')''))))"

definition key_document :: "index_spec \<Rightarrow> document" where
  "key_document spec = map (\<lambda>(key, dir). (c_str key, BInt32 (word_of_int dir))) (spec_keys spec)"

definition has_index :: "namespace \<Rightarrow> string \<Rightarrow> server \<Rightarrow> bool" where
  "has_index ns name s \<longleftrightarrow> list_ex (\<lambda>r. index_name r = name) (indexes_of ns s)"

definition create_index :: "env \<Rightarrow> namespace \<Rightarrow> index_spec \<Rightarrow> unit action" where
  "create_index env ns spec s =
     bind_action (require_exists ns s, s) (\<lambda>_ s.
     bind_action (validate_identifier (spec_name spec) ''index name'', s) (\<lambda>_ s.
     bind_action (throw_if (spec_keys spec = []) (failed_to_parse ''an index needs at least one key''), s) (\<lambda>_ s.
       if has_index ns (spec_name spec) s then (Inr (), s)
       else
         bind_action (create_index_sql ns spec, s) (\<lambda>sql s.
         bind_action (statement env ns sql s) (\<lambda>_ s.
         bind_action (to_extjson (bson_lib env) (key_document spec), s) (\<lambda>json s.
           (Inr (), s\<lparr>index_rows := index_rows s @ [(ns, \<lparr>index_name = spec_name spec, key_spec = json,
                        is_unique = spec_unique spec\<rparr>)]\<rparr>)))))))"

definition name_less :: "string \<Rightarrow> string \<Rightarrow> bool" where
  "name_less a b \<longleftrightarrow> compare_bytes a b < 0"

definition key_direction :: "string \<times> bson \<Rightarrow> string \<times> int" where
  "key_direction = (\<lambda>(name, v). (name,
     if value_is_numeric v \<and> d_less (as_double v) (d_of_int 0) then - 1 else 1))"

definition spec_of :: "env \<Rightarrow> index_row \<Rightarrow> index_spec outcome" where
  "spec_of env r = and_then (from_extjson (sql_db env) (key_spec r)) (\<lambda>keys.
     Inr \<lparr>spec_name = index_name r, spec_keys = map key_direction keys, spec_unique = is_unique r\<rparr>)"

definition id_index :: index_spec where
  "id_index = \<lparr>spec_name = ''_id_'', spec_keys = [(''_id'', 1)], spec_unique = False\<rparr>"

definition list_indexes :: "env \<Rightarrow> namespace \<Rightarrow> server \<Rightarrow> index_spec list outcome" where
  "list_indexes env ns s =
     and_then (require_exists ns s) (\<lambda>_.
     and_then (map_res (spec_of env)
       (stable_sorted (\<lambda>a b. name_less (index_name a) (index_name b)) (indexes_of ns s))) (\<lambda>specs.
       Inr (id_index # specs)))"

fun drop_columns :: "string \<Rightarrow> nat \<Rightarrow> nat \<Rightarrow> string outcome" where
  "drop_columns name i 0 = Inr []"
| "drop_columns name i (Suc k) = and_then (quote_identifier (generated_column name i)) (\<lambda>column.
     and_then (drop_columns name (i + 1) k) (\<lambda>rest. Inr ('', DROP COLUMN '' @ column @ rest)))"

definition drop_index_sql :: "namespace \<Rightarrow> string \<Rightarrow> nat \<Rightarrow> string outcome" where
  "drop_index_sql ns name key_count =
     and_then (ns_table ns) (\<lambda>table.
     and_then (quote_identifier name) (\<lambda>quoted.
     and_then (drop_columns name 0 key_count) (\<lambda>rest.
       Inr (''ALTER TABLE '' @ table @ '' DROP INDEX '' @ quoted @ rest))))"

definition drop_index :: "env \<Rightarrow> namespace \<Rightarrow> string \<Rightarrow> bool action" where
  "drop_index env ns name s =
     bind_action (require_exists ns s, s) (\<lambda>_ s.
     case filter (\<lambda>r. index_name r = name) (indexes_of ns s) of
       [] \<Rightarrow> (Inr False, s)
     | row # _ \<Rightarrow>
         bind_action (from_extjson (sql_db env) (key_spec row), s) (\<lambda>keys s.
         bind_action (drop_index_sql ns name (length keys), s) (\<lambda>sql s.
         bind_action (statement env ns sql s) (\<lambda>_ s.
           (Inr True, s\<lparr>index_rows := filter (\<lambda>(n, r). \<not> (n = ns \<and> index_name r = name)) (index_rows s)\<rparr>)))))"

section \<open>Namespaces\<close>

definition list_databases :: "server \<Rightarrow> string list" where
  "list_databases s = stable_sorted name_less (remdups (map ns_db (catalog s)))"

definition list_collections :: "string \<Rightarrow> server \<Rightarrow> string list" where
  "list_collections db s =
     stable_sorted name_less (map ns_collection (filter (\<lambda>n. ns_db n = db) (map fst (tables s))))"

text \<open>The catalog and the oplog live in a database that can be named, too.\<close>

definition drop_database :: "env \<Rightarrow> string \<Rightarrow> unit action" where
  "drop_database env db s =
     bind_action (validate_identifier db ''database name'', s) (\<lambda>_ s.
     bind_action (quote_identifier db, s) (\<lambda>_ s.
       let s' = s\<lparr>tables := filter (\<lambda>p. ns_db (fst p) \<noteq> db) (tables s)\<rparr> in
       if db = ''chimera_meta''
       then (Inl (namespace_not_found (server_text env)), s'\<lparr>catalog := [], index_rows := [], oplog := None\<rparr>)
       else (Inr (), s'\<lparr>catalog := filter (\<lambda>n. ns_db n \<noteq> db) (catalog s),
                       index_rows := filter (\<lambda>p. ns_db (fst p) \<noteq> db) (index_rows s)\<rparr>)))"

section \<open>Listing what was created\<close>

lemma map_res_permuted:
  assumes "map_res f xs = Inr ys" and "mset xs' = mset xs"
  shows "\<exists>ys'. map_res f xs' = Inr ys' \<and> mset ys' = mset ys"
proof -
  let ?g = "\<lambda>x. projr (f x)"
  have all: "f x = Inr (?g x)" if "x \<in> set xs" for x
    using assms(1) that by (auto simp: map_res_Inr_iff list_all2_conv_all_nth in_set_conv_nth)
  then have "ys = map ?g xs" using assms(1) map_res_total [of xs f ?g] by simp
  moreover have "map_res f xs' = Inr (map ?g xs')"
    using all mset_eq_setD [OF assms(2)] by (intro map_res_total) simp
  ultimately show ?thesis using assms(2) by simp
qed

lemma key_directions:
  "\<forall>k \<in> set keys. (snd k = 1 \<or> snd k = - 1) \<and> nul \<notin> set (fst k) \<Longrightarrow>
    map key_direction (map (\<lambda>(key, dir). (c_str key, BInt32 (word_of_int dir))) keys) = keys"
proof (induction keys)
  case (Cons k keys)
  have "key_direction (x, BInt32 1) = (x, 1)" "key_direction (x, BInt32 (- 1)) = (x, - 1)" for x
    by (simp add: key_direction_def, code_simp)+
  with Cons show ?case by (cases k) auto
qed simp

text \<open>
  What is asked of libbson: a flat document of 32-bit integers, whose names do not start with a dollar,
  reads back from the Extended JSON it is printed as.
\<close>

definition flat_ints :: "document \<Rightarrow> bool" where
  "flat_ints d \<longleftrightarrow> list_all (\<lambda>(name, v). nul \<notin> set name \<and> \<not> starts_char (CHR ''$'') name
     \<and> (case v of BInt32 _ \<Rightarrow> True | _ \<Rightarrow> False)) d"

definition reads_flat :: "env \<Rightarrow> bool" where
  "reads_flat env \<longleftrightarrow> (\<forall>d json. flat_ints d \<longrightarrow> to_extjson (bson_lib env) d = Inr json \<longrightarrow>
     parse_json (sql_db env) json = Inr d)"

lemma key_document_flat:
  "\<forall>k \<in> set (spec_keys spec). nul \<notin> set (fst k) \<and> \<not> starts_char (CHR ''$'') (fst k) \<Longrightarrow>
    flat_ints (key_document spec)"
  by (auto simp: flat_ints_def key_document_def list_all_iff)

text \<open>
  C40. An index that was created is listed: the name, paths, directions and uniqueness the client gave
  come back from \<open>chimera_meta.indexes\<close> exactly, beside the indexes that were there. This is for paths
  without a NUL and without a dollar in front, and for the directions 1 and -1, the two that the handler
  of \<open>createIndexes\<close> makes.
\<close>

theorem created_index_is_listed:
  assumes "reads_flat env" and "\<not> has_index ns (spec_name spec) s"
    and "create_index env ns spec s = (Inr (), s')" and "list_indexes env ns s = Inr old"
    and "\<forall>k \<in> set (spec_keys spec). (snd k = 1 \<or> snd k = - 1) \<and> nul \<notin> set (fst k)
      \<and> \<not> starts_char (CHR ''$'') (fst k)"
  shows "\<exists>new. list_indexes env ns s' = Inr new \<and> mset new = add_mset spec (mset old)"
proof -
  from assms(2,3) obtain json where json: "to_extjson (bson_lib env) (key_document spec) = Inr json"
    and ex: "require_exists ns s = Inr ()"
    and s': "s' = s\<lparr>index_rows := index_rows s @ [(ns, \<lparr>index_name = spec_name spec, key_spec = json,
        is_unique = spec_unique spec\<rparr>)]\<rparr>" (is "s' = s\<lparr>index_rows := index_rows s @ [(ns, ?row)]\<rparr>")
    by (auto simp: create_index_def statement_def elim!: bind_actionE split: option.splits)
  have "spec_of env ?row = Inr spec"
  proof -
    have "parse_json (sql_db env) json = Inr (key_document spec)"
      using assms(1,5) json key_document_flat [of spec] by (auto simp: reads_flat_def)
    then show ?thesis using assms(5) key_directions [of "spec_keys spec"]
      by (simp add: spec_of_def from_extjson_def key_document_def)
  qed
  let ?lt = "\<lambda>a b. name_less (index_name a) (index_name b)"
  obtain specs where specs: "map_res (spec_of env) (stable_sorted ?lt (indexes_of ns s)) = Inr specs"
    and old: "old = id_index # specs"
    using assms(4) by (auto simp: list_indexes_def and_then_Inr_iff)
  have rows: "indexes_of ns s' = indexes_of ns s @ [?row]" by (simp add: s' indexes_of_def)
  have "map_res (spec_of env) (stable_sorted ?lt (indexes_of ns s) @ [?row]) = Inr (specs @ [spec])"
    using specs \<open>spec_of env ?row = Inr spec\<close>
    by (auto simp: map_res_Inr_iff intro: list_all2_appendI)
  moreover have "mset (stable_sorted ?lt (indexes_of ns s')) = mset (stable_sorted ?lt (indexes_of ns s) @ [?row])"
    by (simp add: rows mset_stable_sorted)
  ultimately obtain new where "map_res (spec_of env) (stable_sorted ?lt (indexes_of ns s')) = Inr new"
    "mset new = mset (specs @ [spec])" by (blast dest: map_res_permuted)
  moreover have "require_exists ns s' = Inr ()"
    using ex by (simp add: s' require_exists_def coll_exists_def table_of_def)
  ultimately show ?thesis by (intro exI [of _ "id_index # new"]) (simp add: list_indexes_def old)
qed

text \<open>A library that prints and reads such documents: each name up to a NUL, then four bytes.\<close>

fun flat_field :: "string \<times> bson \<Rightarrow> string" where
  "flat_field (name, BInt32 n) = name @ nul # be_bytes 4 (unat n)"
| "flat_field _ = []"

definition flat_text :: "document \<Rightarrow> string" where
  "flat_text d = concat (map flat_field d)"

function read_flat :: "string \<Rightarrow> document" where
  "read_flat s = (if s = [] then []
     else let name = takeWhile (\<lambda>c. c \<noteq> nul) s; rest = drop (Suc (length name)) s
       in (name, BInt32 (word_of_nat (be_value (take 4 rest)))) # read_flat (drop 4 rest))"
  by pat_completeness auto
termination
  by (relation "measure length") (auto simp: neq_Nil_conv)

declare read_flat.simps [simp del]

lemma read_flat_text: "flat_ints d \<Longrightarrow> read_flat (flat_text d) = d"
proof (induction d)
  case (Cons f d)
  then obtain name n where f: "f = (name, BInt32 n)" "nul \<notin> set name"
    by (cases f; cases "snd f") (auto simp: flat_ints_def)
  have "takeWhile (\<lambda>c. c \<noteq> nul) (name @ nul # rest) = name" for rest
    using f(2) by (subst takeWhile_append2) auto
  moreover have "unat n < 2 ^ LENGTH(32)" by (rule unsigned_less)
  ultimately have "read_flat (name @ nul # be_bytes 4 (unat n) @ flat_text d) = (name, BInt32 n) # read_flat (flat_text d)"
    by (subst read_flat.simps) (simp add: Let_def be_value_bytes)
  with Cons f show ?case by (simp add: flat_text_def flat_ints_def)
qed (simp add: flat_text_def read_flat.simps)

definition index_env :: env where
  "index_env = demo_env\<lparr>bson_lib := \<lparr>canonical_json = (\<lambda>d. if flat_ints d then Some (flat_text d) else None),
       oid_string = (\<lambda>b. b)\<rparr>,
     sql_db := demo_db\<lparr>parse_json := (\<lambda>s. Inr (read_flat s))\<rparr>\<rparr>"

lemma index_reads_flat: "reads_flat index_env"
  by (auto simp: reads_flat_def index_env_def to_extjson_def read_flat_text split: if_splits)

theorem created_index_is_listed_witness:
  "\<exists>new. list_indexes index_env demo_ns (snd (create_index index_env demo_ns
        \<lparr>spec_name = ''by_a'', spec_keys = [(''a'', 1), (''b'', - 1)], spec_unique = True\<rparr> demo_server)) = Inr new
    \<and> mset new = add_mset \<lparr>spec_name = ''by_a'', spec_keys = [(''a'', 1), (''b'', - 1)], spec_unique = True\<rparr>
        (mset [id_index])"
proof (rule created_index_is_listed [OF index_reads_flat])
  let ?spec = "\<lparr>spec_name = ''by_a'', spec_keys = [(''a'', 1), (''b'', - 1)], spec_unique = True\<rparr>"
  show "\<not> has_index demo_ns (spec_name ?spec) demo_server" by code_simp
  have "fst (create_index index_env demo_ns ?spec demo_server) = Inr ()" by code_simp
  then show "create_index index_env demo_ns ?spec demo_server =
      (Inr (), snd (create_index index_env demo_ns ?spec demo_server))" by (simp add: prod_eq_iff)
  have "index_rows demo_server = []" "coll_exists demo_ns demo_server" by code_simp+
  then show "list_indexes index_env demo_ns demo_server = Inr [id_index]"
    by (simp add: list_indexes_def require_exists_def indexes_of_def stable_sorted_def)
qed (simp add: nul_def)

end
