(* ===== verification/Sqlguard.thy ===== *)
theory Sqlguard
  imports Prelude
begin

text \<open>
  The statement guard of the SQL gateway (src/chimera/translator/src/sqlguard.cpp): the first
  keyword of a statement behind whitespace and comments, the read-only whitelist, and the
  loopback test. Positions in a \<open>string_view\<close> are modelled by the suffix that starts there.
  Character classes are those of the "C" locale. \<open>inet_pton\<close> (parsed address in host order,
  None when it does not parse) is a parameter.
\<close>

unbundle bit_operations_syntax

section \<open>The code\<close>

definition isspace :: "char \<Rightarrow> bool" where
  "isspace c \<longleftrightarrow> c \<in> {CHR '' '', CHR 0x09, CHR 0x0A, CHR 0x0B, CHR 0x0C, CHR 0x0D}"

definition isalpha :: "char \<Rightarrow> bool" where
  "isalpha c \<longleftrightarrow> (let n = of_char c :: nat in 65 \<le> n \<and> n \<le> 90 \<or> 97 \<le> n \<and> n \<le> 122)"

definition toupper :: "char \<Rightarrow> char" where
  "toupper c = (let n = of_char c :: nat in if 97 \<le> n \<and> n \<le> 122 then char_of (n - 32) else c)"

fun starts_with :: "string \<Rightarrow> string \<Rightarrow> bool" where
  "starts_with _ [] = True"
| "starts_with [] (_ # _) = False"
| "starts_with (c # cs) (p # ps) = (c = p \<and> starts_with cs ps)"

text \<open>\<open>find\<close> followed by the step behind the match; None is \<open>npos\<close>.\<close>

fun after_close :: "string \<Rightarrow> string option" where
  "after_close [] = None"
| "after_close (c # cs) = (if starts_with (c # cs) ''*/'' then Some (tl cs) else after_close cs)"

definition newline :: char where "newline = CHR 0x0A"

fun after_newline :: "string \<Rightarrow> string option" where
  "after_newline [] = None"
| "after_newline (c # cs) = (if c = newline then Some cs else after_newline cs)"

lemma after_close_shorter: "after_close s = Some r \<Longrightarrow> length r < length s"
  by (induction s) (auto split: if_splits)

lemma after_newline_shorter: "after_newline s = Some r \<Longrightarrow> length r < length s"
  by (induction s) (auto split: if_splits)

function skip_noise :: "string \<Rightarrow> string" where
  "skip_noise view =
     (case view of
        [] \<Rightarrow> []
      | c # cs \<Rightarrow>
          if isspace c then skip_noise cs
          else if starts_with view ''/*'' then
            (case after_close (drop 2 view) of None \<Rightarrow> [] | Some rest \<Rightarrow> skip_noise rest)
          else if c = CHR ''#'' \<or> starts_with view ''--'' then
            (case after_newline view of None \<Rightarrow> [] | Some rest \<Rightarrow> skip_noise rest)
          else view)"
  by auto
termination
proof (relation "measure length", goal_cases)
  case (3 view c cs rest)
  then show ?case using after_close_shorter [of "drop 2 view" rest] by simp
next
  case (4 view c cs rest)
  then show ?case using after_newline_shorter [of view rest] by simp
qed simp_all

declare skip_noise.simps [simp del]

definition leading_keyword :: "string \<Rightarrow> string" where
  "leading_keyword statement = map toupper (takeWhile isalpha (skip_noise statement))"

definition kReadOnly :: "string list" where
  "kReadOnly = [''SELECT'', ''SHOW'', ''DESCRIBE'', ''DESC'', ''EXPLAIN'']"

definition is_read_only_statement :: "string \<Rightarrow> bool" where
  "is_read_only_statement statement \<longleftrightarrow> leading_keyword statement \<in> set kReadOnly"

definition is_loopback_address :: "(string \<Rightarrow> 32 word option) \<Rightarrow> string \<Rightarrow> bool" where
  "is_loopback_address inet_pton address =
     (if nul \<in> set address then False
      else case inet_pton (c_str address) of
        None \<Rightarrow> False
      | Some s_addr \<Rightarrow> drop_bit 24 s_addr = 127)"

section \<open>What may stand before the first keyword\<close>

text \<open>
  The grammar of the view the guard steps over: whitespace, block comments (closed at the
  first close mark) and line comments, in any order.
\<close>

inductive noise :: "string \<Rightarrow> bool" where
  empty: "noise []"
| space: "isspace c \<Longrightarrow> noise n \<Longrightarrow> noise (c # n)"
| block: "after_close (body @ ''*/'') = Some [] \<Longrightarrow> noise n \<Longrightarrow> noise (''/*'' @ body @ ''*/'' @ n)"
| hash: "newline \<notin> set body \<Longrightarrow> noise n \<Longrightarrow> noise (''#'' @ body @ [newline] @ n)"
| dashes: "newline \<notin> set body \<Longrightarrow> noise n \<Longrightarrow> noise (''--'' @ body @ [newline] @ n)"

inductive_cases noise_ConsE: "noise (c # n)"

lemma starts_with_append: "starts_with s p \<longleftrightarrow> (\<exists>r. s = p @ r)"
  by (induction s p rule: starts_with.induct) auto

lemma after_newline_Some: "after_newline s = Some r \<longleftrightarrow> (\<exists>b. newline \<notin> set b \<and> s = b @ newline # r)"
proof (induction s)
  case (Cons c s)
  show ?case
  proof (cases "c = newline")
    case True
    then show ?thesis by (auto simp: Cons_eq_append_conv)
  next
    case False
    with Cons show ?thesis by (auto simp: Cons_eq_append_conv)
  qed
qed simp

lemma after_close_Some:
  "after_close s = Some r \<longleftrightarrow> (\<exists>b. after_close (b @ ''*/'') = Some [] \<and> s = b @ ''*/'' @ r)"
proof (induction s)
  case (Cons c s)
  show ?case
  proof (cases "starts_with (c # s) ''*/''")
    case True
    then obtain t where s: "c = CHR ''*''" "s = CHR ''/'' # t" by (auto simp: starts_with_append)
    have "b = []" if "after_close (b @ ''*/'') = Some []" "c # s = b @ ''*/'' @ r" for b
    proof (cases b)
      case (Cons x xs)
      with that s have "b @ ''*/'' = ''*/'' @ tl xs @ ''*/'' \<or> xs = []" by (cases xs) auto
      with that s Cons show ?thesis by (cases xs) auto
    qed simp
    then show ?thesis using s by fastforce
  next
    case False
    show ?thesis
    proof
      assume "after_close (c # s) = Some r"
      with False Cons obtain b where b: "after_close (b @ ''*/'') = Some []" "s = b @ ''*/'' @ r"
        by (auto simp del: starts_with.simps)
      have "\<not> starts_with ((c # b) @ ''*/'') ''*/''" using False b(2) by (cases b) auto
      with b have "after_close ((c # b) @ ''*/'') = Some []" by (simp del: starts_with.simps)
      with b show "\<exists>b. after_close (b @ ''*/'') = Some [] \<and> c # s = b @ ''*/'' @ r"
        by (intro exI [of _ "c # b"]) simp
    next
      assume "\<exists>b. after_close (b @ ''*/'') = Some [] \<and> c # s = b @ ''*/'' @ r"
      then obtain b where b: "after_close (b @ ''*/'') = Some []" "c # s = b @ ''*/'' @ r" by blast
      with False obtain b' where b': "b = c # b'" "s = b' @ ''*/'' @ r" by (cases b) auto
      have "\<not> starts_with (b @ ''*/'') ''*/''" using False b' by (cases b') auto
      with b b' have "after_close (b' @ ''*/'') = Some []" by (auto split: if_splits)
      with b' Cons False show "after_close (c # s) = Some r" by auto
    qed
  qed
qed simp

text \<open>The guard steps over any such view.\<close>

lemma skip_noise_noise: "noise n \<Longrightarrow> skip_noise (n @ s) = skip_noise s"
proof (induction n rule: noise.induct)
  case empty
  show ?case by simp
next
  case (space c n)
  then show ?case by (subst skip_noise.simps) simp
next
  case (block body n)
  have "after_close (body @ ''*/'' @ n @ s) = Some (n @ s)"
    using block(1) by (subst after_close_Some) auto
  with block(3) show ?case by (subst skip_noise.simps) (simp add: isspace_def)
next
  case (hash body n)
  have "after_newline (''#'' @ body @ newline # n @ s) = Some (n @ s)"
    using hash(1) by (subst after_newline_Some) (auto simp: newline_def intro!: exI [of _ "''#'' @ body"])
  with hash(3) show ?case by (subst skip_noise.simps) (simp add: isspace_def)
next
  case (dashes body n)
  have "after_newline (''--'' @ body @ newline # n @ s) = Some (n @ s)"
    using dashes(1)
    by (subst after_newline_Some) (auto simp: newline_def intro!: exI [of _ "''--'' @ body"])
  with dashes(3) show ?case by (subst skip_noise.simps) (simp add: isspace_def)
qed

text \<open>What is left starts no more of it: nothing at all, or a character that opens nothing.\<close>

lemma skip_noise_splits: "skip_noise s \<noteq> [] \<Longrightarrow> \<exists>n. noise n \<and> s = n @ skip_noise s"
proof (induction s rule: skip_noise.induct)
  case (1 view)
  show ?case
  proof (cases view)
    case Nil
    with 1 show ?thesis by (simp add: skip_noise.simps)
  next
    case (Cons c cs)
    consider (sp) "isspace c"
      | (bl) r where "\<not> isspace c" "starts_with view ''/*''" "after_close (drop 2 view) = Some r"
      | (ln) r where "\<not> isspace c" "\<not> starts_with view ''/*''"
          "c = CHR ''#'' \<or> starts_with view ''--''" "after_newline view = Some r"
      | (stop) "skip_noise view = []" | (here) "skip_noise view = view"
      using skip_noise.simps [of view]
      by (auto simp: Cons simp del: starts_with.simps split: if_splits option.splits)
    then show ?thesis
    proof cases
      case sp
      then have e: "skip_noise view = skip_noise cs" by (subst skip_noise.simps) (simp add: Cons del: starts_with.simps after_newline.simps)
      with 1(1) [OF Cons sp] 1(4) obtain n where "noise n" "cs = n @ skip_noise cs" by auto
      with sp e show ?thesis by (intro exI [of _ "c # n"]) (auto simp: Cons intro: noise.space)
    next
      case bl
      then have e: "skip_noise view = skip_noise r" by (subst skip_noise.simps) (simp add: Cons del: starts_with.simps after_newline.simps)
      with 1(2) [OF Cons bl] 1(4) obtain n where n: "noise n" "r = n @ skip_noise r" by auto
      from bl(3) obtain b where b: "after_close (b @ ''*/'') = Some []" "drop 2 view = b @ ''*/'' @ r"
        by (subst (asm) after_close_Some) blast
      with bl(2) have "view = ''/*'' @ b @ ''*/'' @ r" by (auto simp: starts_with_append)
      with n have "view = (''/*'' @ b @ ''*/'' @ n) @ skip_noise view" unfolding e by simp
      then show ?thesis using noise.block [OF b(1) n(1)] by blast
    next
      case ln
      then have e: "skip_noise view = skip_noise r" by (subst skip_noise.simps) (simp add: Cons del: starts_with.simps after_newline.simps)
      with 1(3) [OF Cons ln(1-3) ln(4)] 1(4) obtain n where n: "noise n" "r = n @ skip_noise r" by auto
      from ln(4) obtain b where b: "newline \<notin> set b" "view = b @ newline # r"
        by (auto simp: after_newline_Some)
      from ln(3) show ?thesis
      proof
        assume "c = CHR ''#''"
        with b Cons obtain b' where b': "b = ''#'' @ b'" by (cases b) (auto simp: newline_def)
        with b have "noise (''#'' @ b' @ [newline] @ n)" by (intro noise.hash n) auto
        moreover have "view = (''#'' @ b' @ [newline] @ n) @ skip_noise view"
          using b b' n e by simp
        ultimately show ?thesis by blast
      next
        assume "starts_with view ''--''"
        then obtain t where "view = ''--'' @ t" by (auto simp: starts_with_append)
        with b obtain b' where b': "b = ''--'' @ b'"
          by (cases b; cases "tl b") (auto simp: newline_def)
        with b have "noise (''--'' @ b' @ [newline] @ n)" by (intro noise.dashes n) auto
        moreover have "view = (''--'' @ b' @ [newline] @ n) @ skip_noise view"
          using b b' n e by simp
        ultimately show ?thesis by blast
      qed
    next
      case stop
      with 1(4) show ?thesis by simp
    next
      case here
      then show ?thesis by (intro exI [of _ "[]"]) (simp add: noise.empty)
    qed
  qed
qed


text \<open>A word: what takeWhile isalpha reads.\<close>

lemma isalpha_stops:
  assumes "isalpha c"
  shows "\<not> isspace c" "\<not> starts_with (c # cs) ''/*''" "c \<noteq> CHR ''#''" "\<not> starts_with (c # cs) ''--''"
  using assms by (auto simp: isalpha_def isspace_def)

lemma skip_noise_word: "isalpha c \<Longrightarrow> skip_noise (c # cs) = c # cs"
  using isalpha_stops(1,3) [of c] isalpha_stops(2,4) [of c cs] by (subst skip_noise.simps) (simp del: starts_with.simps)

lemma takeWhile_word:
  "takeWhile P s = w \<longleftrightarrow> (\<exists>r. s = w @ r \<and> list_all P w \<and> (case r of [] \<Rightarrow> True | c # _ \<Rightarrow> \<not> P c))"
proof (induction s arbitrary: w)
  case (Cons c s)
  show ?case by (cases w) (auto simp: Cons split: list.splits)
qed auto

section \<open>Properties\<close>

text \<open>
  C26. The whitelist test decides exactly this: the statement is text the server would skip
  (whitespace and closed comments), followed by one of the five words in any letter case,
  followed by something that does not continue the word.
\<close>

theorem read_only_statement_iff:
  "is_read_only_statement s \<longleftrightarrow>
     (\<exists>n w r. s = n @ w @ r \<and> noise n \<and> list_all isalpha w \<and> map toupper w \<in> set kReadOnly
        \<and> (case r of [] \<Rightarrow> True | c # _ \<Rightarrow> \<not> isalpha c))"
proof
  assume ro: "is_read_only_statement s"
  define w where "w = takeWhile isalpha (skip_noise s)"
  have w: "map toupper w \<in> set kReadOnly"
    using ro by (simp add: is_read_only_statement_def leading_keyword_def w_def)
  then have "w \<noteq> []" by (auto simp: kReadOnly_def)
  then have "skip_noise s \<noteq> []" by (auto simp: w_def)
  then obtain n where n: "noise n" "s = n @ skip_noise s" using skip_noise_splits by blast
  obtain r where "skip_noise s = w @ r" "list_all isalpha w" "case r of [] \<Rightarrow> True | c # _ \<Rightarrow> \<not> isalpha c"
    using iffD1 [OF takeWhile_word, OF w_def [symmetric]] by blast
  with n w show "\<exists>n w r. s = n @ w @ r \<and> noise n \<and> list_all isalpha w \<and> map toupper w \<in> set kReadOnly
        \<and> (case r of [] \<Rightarrow> True | c # _ \<Rightarrow> \<not> isalpha c)"
    by metis
next
  assume "\<exists>n w r. s = n @ w @ r \<and> noise n \<and> list_all isalpha w \<and> map toupper w \<in> set kReadOnly
        \<and> (case r of [] \<Rightarrow> True | c # _ \<Rightarrow> \<not> isalpha c)"
  then obtain n w r where s: "s = n @ w @ r" and n: "noise n" and w: "list_all isalpha w"
      "map toupper w \<in> set kReadOnly" and r: "case r of [] \<Rightarrow> True | c # _ \<Rightarrow> \<not> isalpha c"
    by blast
  from w(2) obtain c cs where c: "w = c # cs" by (cases w) (auto simp: kReadOnly_def)
  have "skip_noise s = w @ r"
    using w(1) unfolding s skip_noise_noise [OF n] by (simp add: c skip_noise_word)
  moreover have "takeWhile isalpha (w @ r) = w" using takeWhile_word w(1) r by blast
  ultimately show "is_read_only_statement s"
    using w(2) by (simp add: is_read_only_statement_def leading_keyword_def)
qed

text \<open>
  An executable comment, whose body MariaDB runs, counts as a comment here: whatever
  statement it holds, the guard judges only the text behind it, so it passes the whitelist in
  front of any reading statement.
\<close>

theorem executable_comment_passes_guard:
  assumes "after_close (body @ ''*/'') = Some []"
  shows "is_read_only_statement (''/*!'' @ body @ ''*/ SELECT 1'')"
proof -
  have "after_close ((CHR ''!'' # body) @ ''*/'') = Some []" using assms by simp
  moreover have "noise '' ''" by (intro noise.space noise.empty) (simp add: isspace_def)
  ultimately have n: "noise (''/*!'' @ body @ ''*/ '')" using noise.block by fastforce
  have "skip_noise (''/*!'' @ body @ ''*/ SELECT 1'') = ''SELECT 1''"
    using skip_noise_noise [OF n, of "''SELECT 1''"] by (simp add: skip_noise_word isalpha_def)
  then have "leading_keyword (''/*!'' @ body @ ''*/ SELECT 1'') = ''SELECT''"
    by (simp add: leading_keyword_def isalpha_def toupper_def)
  then show ?thesis by (simp add: is_read_only_statement_def kReadOnly_def)
qed

theorem executable_comment_passes_guard_witness:
  "is_read_only_statement (''/*!'' @ ''CREATE TABLE x AS '' @ ''*/ SELECT 1'')"
  by (rule executable_comment_passes_guard) simp

text \<open>
  An address passes the loopback test exactly when it holds no NUL, parses as IPv4, and
  lies in 127.0.0.0/8.
\<close>

theorem loopback_iff:
  "is_loopback_address inet_pton address \<longleftrightarrow>
     nul \<notin> set address \<and>
     (\<exists>a. inet_pton address = Some a \<and> 0x7F000000 \<le> unat a \<and> unat a \<le> 0x7FFFFFFF)"
proof -
  have "drop_bit 24 a = 127 \<longleftrightarrow> 0x7F000000 \<le> unat a \<and> unat a \<le> 0x7FFFFFFF" for a :: "32 word"
  proof -
    have "drop_bit 24 a = 127 \<longleftrightarrow> unat (drop_bit 24 a) = unat (127 :: 32 word)"
      by (simp only: word_unat_eq_iff)
    also have "\<dots> \<longleftrightarrow> unat a div 2 ^ 24 = 127" by (simp only: unat_drop_bit) simp
    also have "\<dots> \<longleftrightarrow> 0x7F000000 \<le> unat a \<and> unat a \<le> 0x7FFFFFFF"
      using div_eq_iff_range [of "2 ^ 24" "unat a" 127] by simp linarith
    finally show ?thesis .
  qed
  then show ?thesis by (auto simp: is_loopback_address_def split: option.splits)
qed

end
