(* ===== verification/Mongosh.thy ===== *)
theory Mongosh
  imports Sqlguard Bson
begin

text \<open>
  The shell gateway's reader (src/chimera/translator/src/mongosh.cpp): a statement in mongosh
  syntax becomes a call, and a call becomes a command document. The reader's state is the offset
  and the text from there on. libbson's ObjectId functions are parameters.
\<close>

section \<open>The reader\<close>

record oid_reader =
  oid_is_valid :: "string \<Rightarrow> bool"
  oid_from_string :: "string \<Rightarrow> string"

type_synonym reader = "nat \<times> string"

definition fail :: "string \<Rightarrow> reader \<Rightarrow> failure" where
  "fail what r = failed_to_parse (what @ '' at offset '' @ nat_text (fst r))"

definition advance :: "nat \<Rightarrow> reader \<Rightarrow> reader" where
  "advance n r = (fst r + n, drop n (snd r))"

definition skip_space :: "reader \<Rightarrow> reader" where
  "skip_space r = advance (length (takeWhile isspace (snd r))) r"

definition at_end :: "reader \<Rightarrow> bool \<times> reader" where
  "at_end r = (let r' = skip_space r in (snd r' = [], r'))"

definition peek :: "reader \<Rightarrow> (char \<times> reader) outcome" where
  "peek r = (let r' = skip_space r in
     case snd r' of
       [] \<Rightarrow> Inl (fail ''unexpected end of statement'' r')
     | c # _ \<Rightarrow> Inr (c, r'))"

definition apos :: char where "apos = CHR 0x27"

definition expect :: "char \<Rightarrow> reader \<Rightarrow> reader outcome" where
  "expect c r = and_then (peek r) (\<lambda>(x, r').
     if x \<noteq> c then Inl (fail (''expected '' @ [apos, c, apos]) r') else Inr (advance 1 r'))"

definition consume :: "char \<Rightarrow> reader \<Rightarrow> bool \<times> reader" where
  "consume c r = (let (e, r') = at_end r
     in if e \<or> hd (snd r') \<noteq> c then (False, r') else (True, advance 1 r'))"

definition isdigit :: "char \<Rightarrow> bool" where
  "isdigit c \<longleftrightarrow> (let n = of_char c :: nat in 48 \<le> n \<and> n \<le> 57)"

definition ident_char :: "char \<Rightarrow> bool" where
  "ident_char c \<longleftrightarrow> isalpha c \<or> isdigit c \<or> c = CHR ''_'' \<or> c = CHR ''$''"

definition read_identifier :: "reader \<Rightarrow> (string \<times> reader) outcome" where
  "read_identifier r = (let r' = skip_space r; name = takeWhile ident_char (snd r')
     in if name = [] then Inl (fail ''expected a name'' r')
        else Inr (name, advance (length name) r'))"

definition unescape :: "char \<Rightarrow> char" where
  "unescape c = (if c = CHR ''n'' then CHR 0x0A else if c = CHR ''t'' then CHR 0x09
     else if c = CHR ''r'' then CHR 0x0D else c)"

text \<open>The loop of \<open>quoted_string\<close>, at offset \<open>p\<close>.\<close>

fun quoted_rest :: "char \<Rightarrow> string \<Rightarrow> nat \<Rightarrow> string \<Rightarrow> (string \<times> reader) outcome" where
  "quoted_rest q out p [] = Inl (fail ''unterminated string'' (p, []))"
| "quoted_rest q out p (c # cs) =
     (if c = q then Inr (out, (p + 1, cs))
      else if c \<noteq> backslash then quoted_rest q (out @ [c]) (p + 1) cs
      else case cs of
        [] \<Rightarrow> Inl (fail ''unterminated escape'' (p + 1, []))
      | e # es \<Rightarrow> quoted_rest q (out @ [unescape e]) (p + 2) es)"

definition quoted_string :: "reader \<Rightarrow> (string \<times> reader) outcome" where
  "quoted_string r = and_then (peek r) (\<lambda>(q, r').
     if q \<noteq> apos \<and> q \<noteq> quote_char then Inl (fail ''expected a quoted string'' r')
     else let (p, t) = advance 1 r' in quoted_rest q [] p t)"

section \<open>Numbers\<close>

text \<open>\<open>strtoll(_, nullptr, 10)\<close>: sign, digits, clamped to the range of int64.\<close>

definition strtoll :: "string \<Rightarrow> int64" where
  "strtoll s =
     (let (neg, t) = (case s of [] \<Rightarrow> (False, s) | c # cs \<Rightarrow>
            if c = CHR ''-'' then (True, cs) else if c = CHR ''+'' then (False, cs) else (False, s));
          n = int (decimal_value (takeWhile isdigit t));
          i = (if neg then - n else n)
      in word_of_int (max (- (2 ^ 63)) (min (2 ^ 63 - 1) i)))"

text \<open>
  \<open>strtod\<close> on decimal text: sign, digits with an optional fraction, an optional exponent; the
  value is the double nearest to it (ties to even).
\<close>

definition round_ratio :: "nat \<Rightarrow> nat \<Rightarrow> nat" where
  "round_ratio m d =
     (let q = m * 2 ^ 1076 div d;
          n = (if m * 2 ^ 1076 mod d \<noteq> 0 \<and> even q then q + 1 else q);
          l = bitlen n
      in min inf_low (if l \<le> 55 then round_half_even n 2
                      else (l - 55) * 2 ^ 52 + round_half_even n (l - 53)))"

definition strtod :: "string \<Rightarrow> double" where
  "strtod s =
     (let (neg, t) = (case s of [] \<Rightarrow> (False, s) | c # cs \<Rightarrow>
            if c = CHR ''-'' then (True, cs) else if c = CHR ''+'' then (False, cs) else (False, s));
          whole = takeWhile isdigit t; t1 = drop (length whole) t;
          frac = (if starts_char (CHR ''.'') t1 then takeWhile isdigit (tl t1) else []);
          t2 = (if starts_char (CHR ''.'') t1 then drop (length frac) (tl t1) else t1);
          (eneg, t3) = (if starts_char (CHR ''e'') t2 \<or> starts_char (CHR ''E'') t2
            then (if starts_char (CHR ''-'') (tl t2) then (True, tl (tl t2))
                  else if starts_char (CHR ''+'') (tl t2) then (False, tl (tl t2))
                  else (False, tl t2))
            else (False, []));
          ex = decimal_value (takeWhile isdigit t3);
          m = decimal_value (whole @ frac);
          e = (if eneg then - int ex else int ex) - int (length frac)
      in if whole = [] \<and> frac = [] then mk_double False 0
         else mk_double neg (if 0 \<le> e then round_low (m * 10 ^ nat e) 1074
                             else round_ratio m (10 ^ nat (- e))))"

definition number_char :: "char \<Rightarrow> bool" where
  "number_char c \<longleftrightarrow> isdigit c \<or> c \<in> {CHR ''.'', CHR ''e'', CHR ''E'', CHR ''+'', CHR ''-''}"

definition read_number :: "reader \<Rightarrow> bson \<times> reader" where
  "read_number r =
     (let r' = skip_space r;
          literal = takeWhile number_char (snd r');
          real = list_ex (\<lambda>c. c = CHR ''.'' \<or> c = CHR ''e'' \<or> c = CHR ''E'') literal
      in (if real then BDouble (strtod literal) else BInt64 (strtoll literal),
          advance (length literal) r'))"

section \<open>Values\<close>

definition read_word :: "oid_reader \<Rightarrow> reader \<Rightarrow> (bson \<times> reader) outcome" where
  "read_word lib r = and_then (read_identifier r) (\<lambda>(name, r1).
     if name = ''true'' \<or> name = ''false'' then Inr (BBool (name = ''true''), r1)
     else if name = ''null'' then Inr (BNull, r1)
     else if name = ''ObjectId'' then
       and_then (expect (CHR ''('') r1) (\<lambda>r2.
       and_then (quoted_string r2) (\<lambda>(hex, r3).
       and_then (expect (CHR '')'') r3) (\<lambda>r4.
         if \<not> oid_is_valid lib hex
         then Inl (bad_value ([apos] @ hex @ [apos] @ '' is not a valid ObjectId''))
         else Inr (BOid (oid_from_string lib hex), r4))))
     else Inl (not_implemented (''unsupported value '' @ [apos] @ name @ [apos])))"

text \<open>\<open>bson_append_value\<close> with an explicit length: a key that holds a NUL is not appended.\<close>

definition append_value :: "document \<Rightarrow> string \<Rightarrow> bson \<Rightarrow> document" where
  "append_value d key v = (if nul \<in> set key then d else d @ [(key, v)])"

definition member_key :: "reader \<Rightarrow> (string \<times> reader) outcome" where
  "member_key r = and_then (peek r) (\<lambda>(c, r').
     if c = apos \<or> c = quote_char then quoted_string r' else read_identifier r')"

text \<open>What is left never grows, which is why the reader ends.\<close>

lemma left_advance [simp]: "length (snd (advance n r)) = length (snd r) - n"
  by (simp add: advance_def)

lemma left_skip_space: "length (snd (skip_space r)) \<le> length (snd r)"
  by (simp add: skip_space_def)

lemma left_peek: "peek r = Inr (c, r') \<Longrightarrow> length (snd r') \<le> length (snd r) \<and> snd r' \<noteq> []"
  using left_skip_space [of r] by (auto simp: peek_def Let_def split: list.splits)

lemma left_expect: "expect c r = Inr r' \<Longrightarrow> length (snd r') < length (snd r)"
proof -
  assume "expect c r = Inr r'"
  then obtain r1 where "peek r = Inr (c, r1)" "r' = advance 1 r1"
    by (auto simp: expect_def and_then_Inr_iff split: if_splits)
  with left_peek [of r c r1] show ?thesis by (cases "snd r1") auto
qed

lemma left_consume: "consume c r = (b, r') \<Longrightarrow> length (snd r') \<le> length (snd r)
    \<and> (b \<longrightarrow> length (snd r') < length (snd r))"
proof -
  assume a: "consume c r = (b, r')"
  define s where "s = skip_space r"
  have s: "length (snd s) \<le> length (snd r)" by (simp add: s_def left_skip_space)
  have "consume c r = (if snd s = [] \<or> hd (snd s) \<noteq> c then (False, s) else (True, advance 1 s))"
    by (simp add: consume_def at_end_def Let_def s_def)
  with a s show ?thesis by (cases "snd s") (auto split: if_splits)
qed

lemma left_identifier: "read_identifier r = Inr (s, r') \<Longrightarrow> length (snd r') < length (snd r)"
proof -
  assume a: "read_identifier r = Inr (s, r')"
  define t where "t = skip_space r"
  have t: "length (snd t) \<le> length (snd r)" by (simp add: t_def left_skip_space)
  from a have "takeWhile ident_char (snd t) \<noteq> []" "r' = advance (length (takeWhile ident_char (snd t))) t"
    by (auto simp: read_identifier_def Let_def t_def split: if_splits)
  moreover have "length (takeWhile ident_char (snd t)) \<le> length (snd t)"
    by (rule length_takeWhile_le)
  moreover have "0 < length (takeWhile ident_char (snd t))" using calculation(1) by blast
  ultimately show ?thesis using t by (simp only: left_advance)
qed

lemma left_quoted_rest: "quoted_rest q out p cs = Inr (s, r') \<Longrightarrow> length (snd r') < length cs"
  by (induction q out p cs arbitrary: r' rule: quoted_rest.induct)
    (fastforce split: if_splits list.splits)+

lemma left_quoted_string: "quoted_string r = Inr (s, r') \<Longrightarrow> length (snd r') < length (snd r)"
proof -
  assume "quoted_string r = Inr (s, r')"
  then obtain q r1 where q: "peek r = Inr (q, r1)"
    and rest: "quoted_rest q [] (fst (advance 1 r1)) (snd (advance 1 r1)) = Inr (s, r')"
    by (auto simp: quoted_string_def and_then_Inr_iff Let_def split: if_splits prod.splits)
  from left_peek [OF q] left_quoted_rest [OF rest] show ?thesis by (cases "snd r1") auto
qed

lemma left_number: "length (snd (snd (read_number r))) \<le> length (snd r)"
  using left_skip_space [of r] by (simp add: read_number_def Let_def)

lemma left_word: "read_word lib r = Inr (v, r') \<Longrightarrow> length (snd r') < length (snd r)"
  by (fastforce simp: read_word_def and_then_Inr_iff split: if_splits
      dest: left_identifier left_expect left_quoted_string)

lemma left_member_key: "member_key r = Inr (s, r') \<Longrightarrow> length (snd r') < length (snd r)"
  by (fastforce simp: member_key_def and_then_Inr_iff split: if_splits
      dest: left_identifier left_quoted_string left_peek)

function read_value :: "oid_reader \<Rightarrow> reader \<Rightarrow> (bson \<times> reader) outcome"
  and read_object :: "oid_reader \<Rightarrow> reader \<Rightarrow> (bson \<times> reader) outcome"
  and read_array :: "oid_reader \<Rightarrow> reader \<Rightarrow> (bson \<times> reader) outcome"
  and read_members :: "oid_reader \<Rightarrow> document \<Rightarrow> reader \<Rightarrow> (document \<times> reader) outcome"
  and read_elements :: "oid_reader \<Rightarrow> nat \<Rightarrow> document \<Rightarrow> reader \<Rightarrow> (document \<times> reader) outcome"
where
  "read_value lib r = and_then (peek r) (\<lambda>(c, r1).
     if c = CHR ''{'' then read_object lib r1
     else if c = CHR ''['' then read_array lib r1
     else if c = apos \<or> c = quote_char then
       and_then (quoted_string r1) (\<lambda>(s, r2). Inr (BUtf8 s, r2))
     else if c = CHR ''-'' \<or> isdigit c then Inr (read_number r1)
     else read_word lib r1)"
| "read_object lib r = and_then (expect (CHR ''{'') r) (\<lambda>r1.
     case consume (CHR ''}'') r1 of (closed, r2) \<Rightarrow>
       if closed then Inr (BDocument [], r2)
       else and_then (read_members lib [] r2) (\<lambda>(d, r3).
         and_then (expect (CHR ''}'') r3) (\<lambda>r4. Inr (BDocument d, r4))))"
| "read_array lib r = and_then (expect (CHR ''['') r) (\<lambda>r1.
     case consume (CHR '']'') r1 of (closed, r2) \<Rightarrow>
       if closed then Inr (BArray [], r2)
       else and_then (read_elements lib 0 [] r2) (\<lambda>(d, r3).
         and_then (expect (CHR '']'') r3) (\<lambda>r4. Inr (BArray d, r4))))"
| "read_members lib d r =
     and_then (member_key (skip_space r)) (\<lambda>(key, r1).
     and_then (expect (CHR '':'') r1) (\<lambda>r2.
     and_then (read_value lib r2) (\<lambda>(v, r3).
       case consume (CHR '','') r3 of (again, r4) \<Rightarrow>
         if again then read_members lib (append_value d key v) r4
         else Inr (append_value d key v, r4))))"
| "read_elements lib index d r =
     and_then (read_value lib r) (\<lambda>(v, r1).
       case consume (CHR '','') r1 of (again, r2) \<Rightarrow>
         if again then read_elements lib (index + 1) (append_value d (nat_text index) v) r2
         else Inr (append_value d (nat_text index) v, r2))"
  by pat_completeness auto

definition shrinks :: "reader \<Rightarrow> ('a \<times> reader) outcome \<Rightarrow> bool" where
  "shrinks r out \<longleftrightarrow> (\<forall>v r'. out = Inr (v, r') \<longrightarrow> length (snd r') \<le> length (snd r))"

lemma shrinksI: "(\<And>v r'. out = Inr (v, r') \<Longrightarrow> length (snd r') \<le> length (snd r)) \<Longrightarrow> shrinks r out"
  by (simp add: shrinks_def)

lemma shrinksD: "shrinks r out \<Longrightarrow> out = Inr (v, r') \<Longrightarrow> length (snd r') \<le> length (snd r)"
  unfolding shrinks_def by blast

lemmas left_facts = left_peek left_expect left_consume left_identifier left_quoted_string
  left_word left_member_key

lemma left_read:
  "read_value_read_object_read_array_read_members_read_elements_dom (Inl (Inl (lib, r))) \<Longrightarrow>
    shrinks r (read_value lib r)"
  "read_value_read_object_read_array_read_members_read_elements_dom (Inl (Inr (lib, r))) \<Longrightarrow>
    shrinks r (read_object lib r)"
  "read_value_read_object_read_array_read_members_read_elements_dom (Inr (Inl (lib, r))) \<Longrightarrow>
    shrinks r (read_array lib r)"
  "read_value_read_object_read_array_read_members_read_elements_dom (Inr (Inr (Inl (lib, d, r)))) \<Longrightarrow>
    shrinks r (read_members lib d r)"
  "read_value_read_object_read_array_read_members_read_elements_dom (Inr (Inr (Inr (lib, index, d, r)))) \<Longrightarrow>
    shrinks r (read_elements lib index d r)"
proof (induction rule: read_value_read_object_read_array_read_members_read_elements.pinduct)
  case (1 lib r)
  show ?case
  proof (rule shrinksI)
    fix v r' assume "read_value lib r = Inr (v, r')"
    then obtain c r1 where p: "peek r = Inr (c, r1)"
      and v: "(if c = CHR ''{'' then read_object lib r1
     else if c = CHR ''['' then read_array lib r1
     else if c = apos \<or> c = quote_char then
       and_then (quoted_string r1) (\<lambda>(s, r2). Inr (BUtf8 s, r2))
     else if c = CHR ''-'' \<or> isdigit c then Inr (read_number r1)
     else read_word lib r1) = Inr (v, r')"
      by (auto simp: read_value.psimps [OF 1(1)] and_then_Inr_iff)
    have "length (snd r') \<le> length (snd r1)"
      using v shrinksD [OF 1(2) [OF p refl], of v r'] shrinksD [OF 1(3) [OF p refl], of v r']
        left_number [of r1]
      by (auto simp: and_then_Inr_iff split: if_splits
          dest: left_quoted_string left_word intro: less_imp_le)
    with left_peek [OF p] show "length (snd r') \<le> length (snd r)" by simp
  qed
next
  case (2 lib r)
  show ?case
  proof (rule shrinksI)
    fix v r' assume "read_object lib r = Inr (v, r')"
    then obtain r1 where e: "expect (CHR ''{'') r = Inr r1"
      and rest: "(case consume (CHR ''}'') r1 of (b, r2) \<Rightarrow> (if b then Inr (BDocument [], r2) else and_then (read_members lib [] r2) (\<lambda>(d, r3).
         and_then (expect (CHR ''}'') r3) (\<lambda>r4. Inr (BDocument d, r4))))) = Inr (v, r')"
      unfolding read_object.psimps [OF 2(1)] by (auto simp: and_then_Inr_iff)
    obtain b r2 where k: "consume (CHR ''}'') r1 = (b, r2)" by (cases "consume (CHR ''}'') r1")
    from rest have out: "(if b then Inr (BDocument [], r2) else and_then (read_members lib [] r2) (\<lambda>(d, r3).
         and_then (expect (CHR ''}'') r3) (\<lambda>r4. Inr (BDocument d, r4)))) = Inr (v, r')" unfolding k by simp
    have "length (snd r2) \<le> length (snd r)" using left_expect [OF e] left_consume [OF k] by simp
    moreover have "length (snd r') \<le> length (snd r2)"
    proof (cases b)
      case False
      then obtain d r3 where d: "read_members lib [] r2 = Inr (d, r3)" and x: "expect (CHR ''}'') r3 = Inr r'"
        using out by (auto simp: and_then_Inr_iff)
      show ?thesis using shrinksD [OF 2(2) [OF e k [symmetric] False] d] left_expect [OF x] by simp
    qed (use out in simp)
    ultimately show "length (snd r') \<le> length (snd r)" by simp
  qed
next
  case (3 lib r)
  show ?case
  proof (rule shrinksI)
    fix v r' assume "read_array lib r = Inr (v, r')"
    then obtain r1 where e: "expect (CHR ''['') r = Inr r1"
      and rest: "(case consume (CHR '']'') r1 of (b, r2) \<Rightarrow> (if b then Inr (BArray [], r2) else and_then (read_elements lib 0 [] r2) (\<lambda>(d, r3).
         and_then (expect (CHR '']'') r3) (\<lambda>r4. Inr (BArray d, r4))))) = Inr (v, r')"
      unfolding read_array.psimps [OF 3(1)] by (auto simp: and_then_Inr_iff)
    obtain b r2 where k: "consume (CHR '']'') r1 = (b, r2)" by (cases "consume (CHR '']'') r1")
    from rest have out: "(if b then Inr (BArray [], r2) else and_then (read_elements lib 0 [] r2) (\<lambda>(d, r3).
         and_then (expect (CHR '']'') r3) (\<lambda>r4. Inr (BArray d, r4)))) = Inr (v, r')" unfolding k by simp
    have "length (snd r2) \<le> length (snd r)" using left_expect [OF e] left_consume [OF k] by simp
    moreover have "length (snd r') \<le> length (snd r2)"
    proof (cases b)
      case False
      then obtain d r3 where d: "read_elements lib 0 [] r2 = Inr (d, r3)" and x: "expect (CHR '']'') r3 = Inr r'"
        using out by (auto simp: and_then_Inr_iff)
      show ?thesis using shrinksD [OF 3(2) [OF e k [symmetric] False] d] left_expect [OF x] by simp
    qed (use out in simp)
    ultimately show "length (snd r') \<le> length (snd r)" by simp
  qed
next
  case (4 lib d r)
  show ?case
  proof (rule shrinksI)
    fix v r' assume a: "read_members lib d r = Inr (v, r')"
    then obtain key r1 r2 x r3 where
      k: "member_key (skip_space r) = Inr (key, r1)" and e: "expect (CHR '':'') r1 = Inr r2"
      and x: "read_value lib r2 = Inr (x, r3)"
      and rest: "(case consume (CHR '','') r3 of (b, r4) \<Rightarrow>
         if b then read_members lib (append_value d key x) r4
         else Inr (append_value d key x, r4)) = Inr (v, r')"
      unfolding read_members.psimps [OF 4(1)] by (auto simp: and_then_Inr_iff)
    obtain b r4 where c: "consume (CHR '','') r3 = (b, r4)" by (cases "consume (CHR '','') r3")
    from rest have out: "(if b then read_members lib (append_value d key x) r4
         else Inr (append_value d key x, r4)) = Inr (v, r')"
      unfolding c by simp
    have "length (snd r4) \<le> length (snd r)"
      using left_member_key [OF k] left_expect [OF e] shrinksD [OF 4(2) [OF k refl e] x]
        left_consume [OF c] left_skip_space [of r] by linarith
    moreover have "length (snd r') \<le> length (snd r4)"
      using out shrinksD [OF 4(3) [OF k refl e x refl c [symmetric]]] by (cases b) auto
    ultimately show "length (snd r') \<le> length (snd r)" by simp
  qed
next
  case (5 lib index d r)
  show ?case
  proof (rule shrinksI)
    fix v r' assume "read_elements lib index d r = Inr (v, r')"
    then obtain x r3 where x: "read_value lib r = Inr (x, r3)"
      and rest: "(case consume (CHR '','') r3 of (b, r4) \<Rightarrow>
         if b then read_elements lib (index + 1) (append_value d (nat_text index) x) r4
         else Inr (append_value d (nat_text index) x, r4)) = Inr (v, r')"
      unfolding read_elements.psimps [OF 5(1)] by (auto simp: and_then_Inr_iff)
    obtain b r4 where c: "consume (CHR '','') r3 = (b, r4)" by (cases "consume (CHR '','') r3")
    from rest have out: "(if b then read_elements lib (index + 1) (append_value d (nat_text index) x) r4
         else Inr (append_value d (nat_text index) x, r4)) = Inr (v, r')"
      unfolding c by simp
    have "length (snd r4) \<le> length (snd r)"
      using shrinksD [OF 5(2) x] left_consume [OF c] by linarith
    moreover have "length (snd r') \<le> length (snd r4)"
      using out shrinksD [OF 5(3) [OF x refl c [symmetric]]] by (cases b) auto
    ultimately show "length (snd r') \<le> length (snd r)" by simp
  qed
qed

lemma read_total: "All read_value_read_object_read_array_read_members_read_elements_dom"
proof (relation "measure (case_sum
    (case_sum (\<lambda>(_, r). 4 * length (snd r) + 1) (\<lambda>(_, r). 4 * length (snd r)))
    (case_sum (\<lambda>(_, r). 4 * length (snd r))
       (case_sum (\<lambda>(_, _, r). 4 * length (snd r) + 2) (\<lambda>(_, _, _, r). 4 * length (snd r) + 2))))",
    goal_cases)
  case (2 lib r x c y)
  then show ?case using left_peek [of r c y] by simp
next
  case (3 lib r x c y)
  then show ?case using left_peek [of r c y] by simp
next
  case (4 lib r x b y)
  then show ?case using left_expect [of "CHR ''{''" r x] left_consume [of "CHR ''}''" x b y] by simp
next
  case (5 lib r x b y)
  then show ?case using left_expect [of "CHR ''[''" r x] left_consume [of "CHR '']''" x b y] by simp
next
  case (6 lib d r x key y x')
  then show ?case
    using left_member_key [of "skip_space r" key y] left_skip_space [of r] left_expect [of "CHR '':''" y x'] by simp
next
  case (7 lib d r x key y x' z v r3 b r4)
  then show ?case
    using left_member_key [of "skip_space r" key y] left_skip_space [of r] left_expect [of "CHR '':''" y x']
      shrinksD [OF left_read(1) [of lib x'], of v r3] left_consume [of "CHR '',''" r3 b r4] by simp
next
  case (9 lib index d r x v r3 b r4)
  then show ?case
    using shrinksD [OF left_read(1) [of lib r], of v r3] left_consume [of "CHR '',''" r3 b r4] by simp
qed simp_all

termination read_value
  by (rule read_total)

declare read_value.simps [simp del] read_object.simps [simp del] read_array.simps [simp del]
  read_members.simps [simp del] read_elements.simps [simp del]

lemma left_value: "read_value lib r = Inr (v, r') \<Longrightarrow> length (snd r') \<le> length (snd r)"
  using read_total by (blast intro: shrinksD [OF left_read(1)])

section \<open>Calls\<close>

record shell_call =
  collection :: string
  verb :: string
  args :: "bson list"

function read_arguments :: "oid_reader \<Rightarrow> reader \<Rightarrow> (bson list \<times> reader) outcome" where
  "read_arguments lib r =
     and_then (read_value lib r) (\<lambda>(v, r1).
       case consume (CHR '','') r1 of (again, r2) \<Rightarrow>
         if again then and_then (read_arguments lib r2) (\<lambda>(vs, r3). Inr (v # vs, r3))
         else Inr ([v], r2))"
  by pat_completeness auto
termination
proof (relation "measure (\<lambda>(_, r). length (snd r))", goal_cases)
  case (2 lib r x v r1 b r2)
  then show ?case using left_value [of lib r v r1] left_consume [of "CHR '',''" r1 b r2] by simp
qed simp

declare read_arguments.simps [simp del]

definition parse_shell_call :: "oid_reader \<Rightarrow> string \<Rightarrow> shell_call outcome" where
  "parse_shell_call lib statement =
     and_then (read_identifier (0, statement)) (\<lambda>(db, r1).
     if db \<noteq> ''db''
     then Inl (fail (''a statement must start with '' @ [apos] @ ''db.'' @ [apos]) r1)
     else
     and_then (expect (CHR ''.'') r1) (\<lambda>r2.
     and_then (read_identifier r2) (\<lambda>(coll, r3).
     and_then (expect (CHR ''.'') r3) (\<lambda>r4.
     and_then (read_identifier r4) (\<lambda>(vb, r5).
     and_then (expect (CHR ''('') r5) (\<lambda>r6.
     and_then (case consume (CHR '')'') r6 of (closed, r7) \<Rightarrow>
         if closed then Inr ([], r7)
         else and_then (read_arguments lib r7) (\<lambda>(vs, r8).
           and_then (expect (CHR '')'') r8) (\<lambda>r9. Inr (vs, r9)))) (\<lambda>(vs, r10).
     case consume (CHR '';'') r10 of (_, r11) \<Rightarrow>
     case at_end r11 of (done, r12) \<Rightarrow>
       if \<not> done then Inl (fail ''trailing input after the statement'' r12)
       else Inr \<lparr>collection = coll, verb = vb, args = vs\<rparr>)))))))"

section \<open>Commands\<close>

datatype shell_result = Documents | FirstDocument | Count | Reply

record shell_command =
  command :: document
  result :: shell_result

definition argument :: "shell_call \<Rightarrow> nat \<Rightarrow> bson option" where
  "argument call i = (if i < length (args call) then Some (args call ! i) else None)"

definition append_document_argument ::
  "document \<Rightarrow> string \<Rightarrow> shell_call \<Rightarrow> nat \<Rightarrow> document outcome" where
  "append_document_argument c name call i = (case argument call i of
       None \<Rightarrow> Inr (c @ [(name, BDocument [])])
     | Some v \<Rightarrow>
         if \<not> is_document v
         then Inl (type_mismatch (''argument '' @ nat_text (i + 1) @ '' of '' @ verb call
                     @ ''() must be a document''))
         else Inr (c @ [(name, v)]))"

definition append_singleton_array :: "document \<Rightarrow> string \<Rightarrow> document \<Rightarrow> document" where
  "append_singleton_array c name element = c @ [(name, BArray [(''0'', BDocument element)])]"

definition write_statement :: "shell_call \<Rightarrow> bson option \<Rightarrow> bool \<Rightarrow> document outcome" where
  "write_statement call update multi =
     and_then (append_document_argument [] ''q'' call 0) (\<lambda>s.
       case update of
         Some (BDocument u) \<Rightarrow> Inr (s @ [(''u'', BDocument u), (''multi'', BBool multi)])
       | _ \<Rightarrow> Inl (type_mismatch (verb call @ ''() needs an update document'')))"

definition delete_statement :: "shell_call \<Rightarrow> int32 \<Rightarrow> document outcome" where
  "delete_statement call limit =
     and_then (append_document_argument [] ''q'' call 0) (\<lambda>s.
       Inr (s @ [(''limit'', BInt32 limit)]))"

definition append_projection :: "document \<Rightarrow> shell_call \<Rightarrow> document outcome" where
  "append_projection c call = (case argument call 1 of
       None \<Rightarrow> Inr c
     | Some v \<Rightarrow>
         if \<not> is_document v
         then Inl (type_mismatch (''the second argument of '' @ verb call
                     @ ''() must be a projection document''))
         else Inr (c @ [(''projection'', v)]))"

definition reject_extra_arguments :: "shell_call \<Rightarrow> nat \<Rightarrow> unit outcome" where
  "reject_extra_arguments call allowed =
     throw_if (allowed < length (args call))
       (not_implemented (verb call @ ''() takes at most '' @ nat_text allowed @ '' argument(s) here''))"

definition build_find :: "shell_call \<Rightarrow> string \<Rightarrow> shell_command outcome" where
  "build_find call coll =
     and_then (reject_extra_arguments call 2) (\<lambda>_.
     and_then (append_document_argument [(''find'', BUtf8 coll)] ''filter'' call 0) (\<lambda>c1.
     and_then (append_projection c1 call) (\<lambda>c2.
       if verb call = ''findOne''
       then Inr \<lparr>command = c2 @ [(''limit'', BInt64 1)], result = FirstDocument\<rparr>
       else Inr \<lparr>command = c2, result = Documents\<rparr>)))"

definition build_insert :: "shell_call \<Rightarrow> string \<Rightarrow> shell_command outcome" where
  "build_insert call coll =
     and_then (reject_extra_arguments call 1) (\<lambda>_.
       let c = [(''insert'', BUtf8 coll)] in
       if verb call = ''insertOne'' then
         (case argument call 0 of
            Some (BDocument d) \<Rightarrow>
              Inr \<lparr>command = append_singleton_array c ''documents'' d, result = Reply\<rparr>
          | _ \<Rightarrow> Inl (type_mismatch ''insertOne() needs a document''))
       else
         (case argument call 0 of
            Some (BArray d) \<Rightarrow> Inr \<lparr>command = c @ [(''documents'', BArray d)], result = Reply\<rparr>
          | _ \<Rightarrow> Inl (type_mismatch ''insertMany() needs an array of documents'')))"

definition build_update :: "shell_call \<Rightarrow> string \<Rightarrow> shell_command outcome" where
  "build_update call coll =
     and_then (reject_extra_arguments call 2) (\<lambda>_.
     and_then (write_statement call (argument call 1) (verb call = ''updateMany'')) (\<lambda>s.
       Inr \<lparr>command = append_singleton_array [(''update'', BUtf8 coll)] ''updates'' s, result = Reply\<rparr>))"

definition build_delete :: "shell_call \<Rightarrow> string \<Rightarrow> shell_command outcome" where
  "build_delete call coll =
     and_then (reject_extra_arguments call 1) (\<lambda>_.
     and_then (delete_statement call (if verb call = ''deleteOne'' then 1 else 0)) (\<lambda>s.
       Inr \<lparr>command = append_singleton_array [(''delete'', BUtf8 coll)] ''deletes'' s, result = Reply\<rparr>))"

definition build_count :: "shell_call \<Rightarrow> string \<Rightarrow> shell_command outcome" where
  "build_count call coll =
     and_then (reject_extra_arguments call 1) (\<lambda>_.
     and_then (append_document_argument [(''count'', BUtf8 coll)] ''query'' call 0) (\<lambda>c.
       Inr \<lparr>command = c, result = Count\<rparr>))"

definition build_aggregate :: "shell_call \<Rightarrow> string \<Rightarrow> shell_command outcome" where
  "build_aggregate call coll =
     and_then (reject_extra_arguments call 1) (\<lambda>_.
       case argument call 0 of
         Some (BArray p) \<Rightarrow>
           Inr \<lparr>command = [(''aggregate'', BUtf8 coll), (''pipeline'', BArray p), (''cursor'', BDocument [])],
                result = Documents\<rparr>
       | _ \<Rightarrow> Inl (type_mismatch ''aggregate() needs a pipeline array''))"

definition build_shell_command :: "shell_call \<Rightarrow> shell_command outcome" where
  "build_shell_command call =
     (let coll = c_str (collection call); v = verb call in
      if v = ''find'' \<or> v = ''findOne'' then build_find call coll
      else if v = ''insertOne'' \<or> v = ''insertMany'' then build_insert call coll
      else if v = ''updateOne'' \<or> v = ''updateMany'' \<or> v = ''replaceOne'' then build_update call coll
      else if v = ''deleteOne'' \<or> v = ''deleteMany'' then build_delete call coll
      else if v = ''countDocuments'' \<or> v = ''count'' then build_count call coll
      else if v = ''aggregate'' then build_aggregate call coll
      else Inl (not_implemented (''unsupported verb '' @ [apos] @ v @ ''()'' @ [apos])))"


section \<open>Reading what is written\<close>

text \<open>The reader on text whose next character is known and no space.\<close>

lemma skip_space_Cons [simp]: "\<not> isspace c \<Longrightarrow> skip_space (p, c # t) = (p, c # t)"
  by (simp add: skip_space_def advance_def)

lemma peek_Cons [simp]: "\<not> isspace c \<Longrightarrow> peek (p, c # t) = Inr (c, (p, c # t))"
  by (simp add: peek_def)

lemma expect_Cons [simp]: "\<not> isspace c \<Longrightarrow> expect c (p, c # t) = Inr (p + 1, t)"
  by (simp add: expect_def advance_def)

lemma consume_Cons [simp]: "\<not> isspace x \<Longrightarrow>
    consume c (p, x # t) = (if x = c then (True, (p + 1, t)) else (False, (p, x # t)))"
  by (simp add: consume_def at_end_def advance_def)

lemma consume_Nil [simp]: "consume c (p, []) = (False, (p, []))"
  by (simp add: consume_def at_end_def skip_space_def advance_def)

lemma at_end_Nil [simp]: "at_end (p, []) = (True, (p, []))"
  by (simp add: at_end_def skip_space_def advance_def)

lemma space_facts [simp]:
  "\<not> isspace (CHR ''{'')" "\<not> isspace (CHR ''}'')" "\<not> isspace (CHR ''['')" "\<not> isspace (CHR '']'')"
  "\<not> isspace (CHR ''('')" "\<not> isspace (CHR '')'')" "\<not> isspace (CHR '','')" "\<not> isspace (CHR '':'')"
  "\<not> isspace (CHR ''.'')" "\<not> isspace (CHR '';'')" "\<not> isspace (CHR ''-'')" "\<not> isspace quote_char"
  "\<not> isspace apos" "\<not> isspace (CHR ''t'')" "\<not> isspace (CHR ''f'')" "\<not> isspace (CHR ''n'')"
  by (simp_all add: isspace_def quote_char_def apos_def)

lemma ident_not_space: "ident_char c \<Longrightarrow> \<not> isspace c"
  by (auto simp: ident_char_def isalpha_def isdigit_def isspace_def Let_def)

text \<open>A statement's text for a value; what \<open>read_value\<close> must give back.\<close>

definition quoted_text :: "string \<Rightarrow> string" where
  "quoted_text s = [quote_char] @ concat (map escape_char s) @ [quote_char]"

fun commas :: "string list \<Rightarrow> string" where
  "commas [] = []"
| "commas [x] = x"
| "commas (x # xs) = x @ '','' @ commas xs"

fun shell_text :: "bson \<Rightarrow> string" where
  "shell_text (BUtf8 s) = quoted_text s"
| "shell_text (BInt64 n) = int_text (sint n)"
| "shell_text (BBool b) = (if b then ''true'' else ''false'')"
| "shell_text BNull = ''null''"
| "shell_text (BDocument d) =
     ''{'' @ commas (map (\<lambda>(k, v). quoted_text k @ '':'' @ shell_text v) d) @ ''}''"
| "shell_text (BArray d) = ''['' @ commas (map (\<lambda>(k, v). shell_text v) d) @ '']''"
| "shell_text _ = []"

fun shell_value :: "bson \<Rightarrow> bool" where
  "shell_value (BDocument d) = (\<forall>(k, v) \<in> set d. nul \<notin> set k \<and> shell_value v)"
| "shell_value (BArray d) =
     (map fst d = map nat_text [0..<length d] \<and> (\<forall>(k, v) \<in> set d. shell_value v))"
| "shell_value (BUtf8 _) = True"
| "shell_value (BInt64 _) = True"
| "shell_value (BBool _) = True"
| "shell_value BNull = True"
| "shell_value _ = False"

text \<open>What may follow a value: no character of a number or of a name.\<close>

definition value_ends :: "string \<Rightarrow> bool" where
  "value_ends t \<longleftrightarrow> (t = [] \<or> \<not> number_char (hd t) \<and> \<not> ident_char (hd t))"

lemma value_ends_simps [simp]:
  "value_ends []" "value_ends (CHR '','' # t)" "value_ends (CHR ''}'' # t)"
  "value_ends (CHR '']'' # t)" "value_ends (CHR '')'' # t)"
  by (simp_all add: value_ends_def number_char_def ident_char_def isalpha_def isdigit_def)

lemma quoted_rest_text:
  "quoted_rest quote_char out p (concat (map escape_char s) @ quote_char # t) =
    Inr (out @ s, (p + length (concat (map escape_char s)) + 1, t))"
proof (induction s arbitrary: out p)
  case (Cons c s)
  have e: "unescape quote_char = quote_char" "unescape backslash = backslash" "backslash \<noteq> quote_char"
    by (simp_all add: unescape_def quote_char_def backslash_def)
  show ?case
    using Cons [of "out @ [c]"] e by (auto simp: escape_char_def)
qed simp

lemma quoted_string_text [simp]:
  "quoted_string (p, quoted_text s @ t) = Inr (s, (p + length (quoted_text s), t))"
  using quoted_rest_text [of "[]" "p + 1" s t]
  by (simp add: quoted_string_def quoted_text_def advance_def)

lemma isdigit_digit_char [simp]: "d < 10 \<Longrightarrow> isdigit (digit_char d)"
  by (simp add: isdigit_def digit_char_def)

lemma nat_text_digits: "c \<in> set (nat_text n) \<Longrightarrow> isdigit c"
proof (induction n rule: nat_text.induct)
  case (1 n)
  then show ?case by (cases "n < 10") (auto simp: nat_text.simps [of n])
qed

lemma nat_text_not_Nil [simp]: "nat_text n \<noteq> []"
  by (simp add: nat_text.simps [of n])

lemma digit_facts: "isdigit c \<Longrightarrow> number_char c \<and> \<not> isspace c \<and> c \<noteq> CHR ''-'' \<and> c \<noteq> CHR ''+''
    \<and> c \<noteq> CHR ''.'' \<and> c \<noteq> CHR ''e'' \<and> c \<noteq> CHR ''E'' \<and> c \<noteq> CHR ''{'' \<and> c \<noteq> CHR ''['' \<and> c \<noteq> CHR '']''
    \<and> c \<noteq> apos \<and> c \<noteq> quote_char"
  by (auto simp: number_char_def isdigit_def isspace_def apos_def quote_char_def)

lemma takeWhile_digits: "takeWhile isdigit (nat_text n) = nat_text n"
  by (simp add: takeWhile_eq_all_conv nat_text_digits)

lemma strtoll_int_text: "strtoll (int_text (sint n)) = n" for n :: int64
proof -
  have r: "- (2 ^ 63) \<le> sint n" "sint n \<le> 2 ^ 63 - 1"
    using sint_ge [of n] sint_lt [of n] by simp_all
  show ?thesis
  proof (cases "sint n < 0")
    case True
    then show ?thesis using r by (simp add: strtoll_def int_text_def takeWhile_digits)
  next
    case False
    obtain c t where ct: "nat_text (nat (sint n)) = c # t" by (meson neq_Nil_conv nat_text_not_Nil)
    with nat_text_digits [of c "nat (sint n)"] have c: "c \<noteq> CHR ''-''" "c \<noteq> CHR ''+''"
      by (auto simp: digit_facts)
    have "strtoll (c # t) =
        word_of_int (max (- (2 ^ 63)) (min (2 ^ 63 - 1) (int (decimal_value (takeWhile isdigit (c # t))))))"
      using c by (simp add: strtoll_def Let_def)
    then show ?thesis
      using r False takeWhile_digits [of "nat (sint n)"]
      by (simp add: int_text_def flip: ct)
  qed
qed

lemma int_text_number: "c \<in> set (int_text i) \<Longrightarrow> isdigit c \<or> c = CHR ''-''"
  by (auto simp: int_text_def nat_text_digits split: if_splits)

lemma int_text_Cons: obtains c t where "int_text i = c # t" "isdigit c \<or> c = CHR ''-''"
proof -
  have "int_text i \<noteq> []" by (simp add: int_text_def)
  then obtain c t where "int_text i = c # t" by (meson neq_Nil_conv)
  with that int_text_number [of c i] show thesis by simp
qed

lemma read_number_text:
  fixes n :: int64
  assumes "value_ends rest"
  shows "read_number (p, int_text (sint n) @ rest) =
    (BInt64 n, (p + length (int_text (sint n)), rest))"
proof -
  let ?t = "int_text (sint n)"
  obtain c t where ct: "?t = c # t" "isdigit c \<or> c = CHR ''-''" by (rule int_text_Cons)
  then have s: "skip_space (p, ?t @ rest) = (p, ?t @ rest)" by (auto simp: digit_facts)
  have all: "\<forall>c \<in> set ?t. number_char c"
    using int_text_number [of _ "sint n"] digit_facts by (auto simp: number_char_def)
  have tw: "takeWhile number_char (?t @ rest) = ?t"
    using assms all by (cases rest) (auto simp: value_ends_def takeWhile_append takeWhile_eq_all_conv)
  have real: "\<not> list_ex (\<lambda>c. c = CHR ''.'' \<or> c = CHR ''e'' \<or> c = CHR ''E'') ?t"
    using int_text_number [of _ "sint n"] digit_facts by (fastforce simp: list_ex_iff)
  show ?thesis
    by (simp add: read_number_def Let_def s tw real strtoll_int_text advance_def)
qed

text \<open>The reader is proved against the printer by induction on the size of the value.\<close>

lemma word_text:
  assumes "value_ends rest"
  shows "read_word lib (p, ''true'' @ rest) = Inr (BBool True, (p + 4, rest))"
    "read_word lib (p, ''false'' @ rest) = Inr (BBool False, (p + 5, rest))"
    "read_word lib (p, ''null'' @ rest) = Inr (BNull, (p + 4, rest))"
proof -
  have w: "takeWhile ident_char (s @ rest) = s" if "\<forall>c \<in> set s. ident_char c" for s
    using assms that by (cases rest) (auto simp: value_ends_def takeWhile_append takeWhile_eq_all_conv)
  have i: "\<forall>c \<in> set ''true''. ident_char c" "\<forall>c \<in> set ''false''. ident_char c"
    "\<forall>c \<in> set ''null''. ident_char c"
    by (simp_all add: ident_char_def isalpha_def)
  show "read_word lib (p, ''true'' @ rest) = Inr (BBool True, (p + 4, rest))"
    using w [OF i(1)] by (simp add: read_word_def read_identifier_def advance_def)
  show "read_word lib (p, ''false'' @ rest) = Inr (BBool False, (p + 5, rest))"
    using w [OF i(2)] by (simp add: read_word_def read_identifier_def advance_def)
  show "read_word lib (p, ''null'' @ rest) = Inr (BNull, (p + 4, rest))"
    using w [OF i(3)] by (simp add: read_word_def read_identifier_def advance_def)
qed

definition reads :: "oid_reader \<Rightarrow> bson \<Rightarrow> bool" where
  "reads lib v \<longleftrightarrow> (\<forall>p rest. value_ends rest \<longrightarrow>
     read_value lib (p, shell_text v @ rest) = Inr (v, (p + length (shell_text v), rest)))"

lemma readsD: "reads lib v \<Longrightarrow> value_ends rest \<Longrightarrow>
    read_value lib (p, shell_text v @ rest) = Inr (v, (p + length (shell_text v), rest))"
  by (simp add: reads_def)

definition member_text :: "string \<times> bson \<Rightarrow> string" where
  "member_text m = quoted_text (fst m) @ '':'' @ shell_text (snd m)"

definition element_text :: "string \<times> bson \<Rightarrow> string" where
  "element_text m = shell_text (snd m)"

lemma shell_text_nested:
  "shell_text (BDocument d) = ''{'' @ commas (map member_text d) @ ''}''"
  "shell_text (BArray d) = ''['' @ commas (map element_text d) @ '']''"
  by (simp_all add: member_text_def [abs_def] element_text_def [abs_def] case_prod_unfold)

lemma commas_Cons: "xs \<noteq> [] \<Longrightarrow> commas (x # xs) = x @ '','' @ commas xs"
  by (cases xs) simp_all

lemma member_key_text [simp]:
  "member_key (skip_space (p, quoted_text k @ t)) = Inr (k, (p + length (quoted_text k), t))"
proof -
  obtain u where u: "quoted_text k @ t = quote_char # u" by (simp add: quoted_text_def)
  then have s: "skip_space (p, quoted_text k @ t) = (p, quoted_text k @ t)"
    and "peek (p, quoted_text k @ t) = Inr (quote_char, (p, quoted_text k @ t))" by simp_all
  then show ?thesis unfolding s by (simp add: member_key_def)
qed

lemma read_members_text:
  assumes "d \<noteq> []" and "\<forall>(k, v) \<in> set d. nul \<notin> set k \<and> reads lib v"
  shows "read_members lib acc (p, commas (map member_text d) @ CHR ''}'' # rest) =
    Inr (acc @ d, (p + length (commas (map member_text d)), CHR ''}'' # rest))"
  using assms
proof (induction d arbitrary: acc p)
  case (Cons m d)
  obtain k v where m: "m = (k, v)" by (cases m)
  then have t: "member_text m = quoted_text k @ '':'' @ shell_text v" by (simp add: member_text_def)
  from m Cons.prems have k: "nul \<notin> set k" and v: "reads lib v"
    and d: "\<forall>(k, v) \<in> set d. nul \<notin> set k \<and> reads lib v" by auto
  show ?case
  proof (cases "d = []")
    case True
    then show ?thesis
      using readsD [OF v, of "CHR ''}'' # rest"] k
      by (subst read_members.simps) (simp add: m t [unfolded m] append_value_def)
  next
    case False
    then show ?thesis
      using readsD [OF v, of "CHR '','' # commas (map member_text d) @ CHR ''}'' # rest"] k
        Cons.IH [OF False d]
      by (subst read_members.simps) (simp add: m t [unfolded m] append_value_def commas_Cons add.assoc)
  qed
qed simp

lemma read_elements_text:
  assumes "d \<noteq> []" and "map fst d = map nat_text [i..<i + length d]" and "\<forall>(k, v) \<in> set d. reads lib v"
  shows "read_elements lib i acc (p, commas (map element_text d) @ CHR '']'' # rest) =
    Inr (acc @ d, (p + length (commas (map element_text d)), CHR '']'' # rest))"
  using assms
proof (induction d arbitrary: acc p i)
  case (Cons m d)
  obtain k v where m: "m = (k, v)" by (cases m)
  have t: "element_text (nat_text i, v) = shell_text v" by (simp add: element_text_def)
  have up: "[i..<i + length (m # d)] = i # [Suc i..<Suc i + length d]"
    by (simp add: upt_conv_Cons del: upt_Suc)
  have "map fst (m # d) = map nat_text (i # [Suc i..<Suc i + length d])"
    using Cons.prems(2) by (simp only: up)
  then have k: "k = nat_text i"
    and keys: "map fst d = map nat_text [Suc i..<Suc i + length d]"
    unfolding m by (simp_all del: upt_Suc)
  from Cons.prems(3) m have v: "reads lib v" and d: "\<forall>(k, v) \<in> set d. reads lib v" by auto
  have n: "nul \<notin> set (nat_text i)"
    using nat_text_digits [of nul i] by (auto simp: isdigit_def nul_def)
  show ?case
  proof (cases "d = []")
    case True
    then show ?thesis
      using readsD [OF v, of "CHR '']'' # rest"] n
      by (subst read_elements.simps) (simp add: m k t append_value_def)
  next
    case False
    then show ?thesis
      using readsD [OF v, of "CHR '','' # commas (map element_text d) @ CHR '']'' # rest"] n
        Cons.IH [OF False keys d]
      by (subst read_elements.simps) (simp add: m k t append_value_def commas_Cons add.assoc)
  qed
qed simp

lemma shell_text_starts:
  assumes "shell_value v"
  obtains c t where "shell_text v = c # t" and "\<not> isspace c" and "c \<noteq> CHR '']''" and "c \<noteq> CHR '')''"
proof -
  have "\<exists>c t. shell_text v = c # t \<and> \<not> isspace c \<and> c \<noteq> CHR '']'' \<and> c \<noteq> CHR '')''"
  proof (cases v)
    case (BInt64 n)
    obtain c t where ct: "int_text (sint n) = c # t" and c: "isdigit c \<or> c = CHR ''-''"
      by (rule int_text_Cons)
    then have "\<not> isspace c" "c \<noteq> CHR '']''" "c \<noteq> CHR '')''" by (auto simp: digit_facts isdigit_def)
    with BInt64 ct show ?thesis by simp
  next
    case (BUtf8 s)
    have "quote_char \<noteq> CHR '']''" "quote_char \<noteq> CHR '')''" by (simp_all add: quote_char_def)
    with BUtf8 show ?thesis by (simp add: quoted_text_def)
  qed (use assms in auto)
  with that show thesis by blast
qed

lemma shell_reads: "shell_value v \<Longrightarrow> reads lib v"
proof (induction v rule: shell_text.induct)
  case (1 s)
  have c: "\<And>t. quoted_text s @ t = quote_char # (concat (map escape_char s) @ quote_char # t)"
    by (simp add: quoted_text_def)
  have n: "quote_char \<noteq> CHR ''{''" "quote_char \<noteq> CHR ''[''" by (simp_all add: quote_char_def)
  show ?case
  proof (unfold reads_def, intro allI impI)
    fix p and rest :: string
    have "peek (p, quoted_text s @ rest) = Inr (quote_char, (p, quoted_text s @ rest))"
      by (simp add: c)
    then show "read_value lib (p, shell_text (BUtf8 s) @ rest) =
        Inr (BUtf8 s, (p + length (shell_text (BUtf8 s)), rest))"
      by (subst read_value.simps) (simp add: n)
  qed
next
  case (2 n)
  show ?case
  proof (unfold reads_def, intro allI impI)
    fix p and rest :: string assume e: "value_ends rest"
    obtain c t where ct: "int_text (sint n) = c # t" and c: "isdigit c \<or> c = CHR ''-''"
      by (rule int_text_Cons)
    from c have d: "\<not> isspace c" "c \<noteq> CHR ''{''" "c \<noteq> CHR ''[''" "c \<noteq> apos" "c \<noteq> quote_char"
      by (auto simp: digit_facts apos_def quote_char_def isdigit_def)
    then have "peek (p, int_text (sint n) @ rest) = Inr (c, (p, int_text (sint n) @ rest))"
      by (simp add: ct)
    with d c show "read_value lib (p, shell_text (BInt64 n) @ rest) =
        Inr (BInt64 n, (p + length (shell_text (BInt64 n)), rest))"
      by (subst read_value.simps) (auto simp: read_number_text [OF e])
  qed
next
  case (3 b)
  show ?case
  proof (unfold reads_def, intro allI impI)
    fix p and rest :: string assume "value_ends rest"
    from word_text [OF this] show "read_value lib (p, shell_text (BBool b) @ rest) =
        Inr (BBool b, (p + length (shell_text (BBool b)), rest))"
      by (subst read_value.simps) (simp add: apos_def quote_char_def isdigit_def)
  qed
next
  case 4
  show ?case
  proof (unfold reads_def, intro allI impI)
    fix p and rest :: string assume "value_ends rest"
    from word_text [OF this] show "read_value lib (p, shell_text BNull @ rest) =
        Inr (BNull, (p + length (shell_text BNull), rest))"
      by (subst read_value.simps) (simp add: apos_def quote_char_def isdigit_def)
  qed
next
  case (5 d)
  then have d: "\<forall>(k, v) \<in> set d. nul \<notin> set k \<and> reads lib v" by fastforce
  show ?case
  proof (unfold reads_def, intro allI impI)
    fix p and rest :: string
    show "read_value lib (p, shell_text (BDocument d) @ rest) =
        Inr (BDocument d, (p + length (shell_text (BDocument d)), rest))"
    proof (cases d)
      case Nil
      then show ?thesis by (subst read_value.simps, subst read_object.simps) simp
    next
      case (Cons x xs)
      then obtain t where "commas (map member_text d) = quote_char # t"
        by (cases xs) (simp_all add: member_text_def quoted_text_def)
      moreover have ne: "d \<noteq> []" using Cons by simp
      moreover have "quote_char \<noteq> CHR ''}''" by (simp add: quote_char_def)
      ultimately have "consume (CHR ''}'') (p + 1, commas (map member_text d) @ CHR ''}'' # rest)
          = (False, (p + 1, commas (map member_text d) @ CHR ''}'' # rest))" by simp
      then show ?thesis
        using read_members_text [OF _ d, of "[]" "p + 1" rest] ne
        by (subst read_value.simps, subst read_object.simps) (simp add: shell_text_nested del: shell_text.simps)
    qed
  qed
next
  case (6 d)
  then have d: "\<forall>(k, v) \<in> set d. reads lib v" and k: "map fst d = map nat_text [0..<0 + length d]"
    by (fastforce, simp)
  show ?case
  proof (unfold reads_def, intro allI impI)
    fix p and rest :: string
    show "read_value lib (p, shell_text (BArray d) @ rest) =
        Inr (BArray d, (p + length (shell_text (BArray d)), rest))"
    proof (cases d)
      case Nil
      then show ?thesis by (subst read_value.simps, subst read_array.simps) simp
    next
      case (Cons x xs)
      with 6(2) have "shell_value (snd x)" by auto
      then obtain c t where ct: "shell_text (snd x) = c # t" and c: "\<not> isspace c" "c \<noteq> CHR '']''"
        by (rule shell_text_starts)
      then obtain u where "commas (map element_text d) = c # u"
        using Cons by (cases xs) (simp_all add: element_text_def)
      with c have "consume (CHR '']'') (p + 1, commas (map element_text d) @ CHR '']'' # rest)
          = (False, (p + 1, commas (map element_text d) @ CHR '']'' # rest))" by simp
      then show ?thesis
        using read_elements_text [OF _ k d, of "[]" "p + 1" rest] Cons
        by (subst read_value.simps, subst read_array.simps) (simp add: shell_text_nested del: shell_text.simps)
    qed
  qed
qed simp_all

lemma read_arguments_text:
  assumes "vs \<noteq> []" and "\<forall>v \<in> set vs. shell_value v"
  shows "read_arguments lib (p, commas (map shell_text vs) @ CHR '')'' # rest) =
    Inr (vs, (p + length (commas (map shell_text vs)), CHR '')'' # rest))"
  using assms
proof (induction vs arbitrary: p)
  case (Cons v vs)
  then have v: "reads lib v" and vs: "\<forall>v \<in> set vs. shell_value v" by (simp_all add: shell_reads)
  show ?case
  proof (cases "vs = []")
    case True
    then show ?thesis
      using readsD [OF v, of "CHR '')'' # rest"]
      by (subst read_arguments.simps) (simp del: shell_text.simps)
  next
    case False
    then show ?thesis
      using readsD [OF v, of "CHR '','' # commas (map shell_text vs) @ CHR '')'' # rest"]
        Cons.IH [OF False vs]
      by (subst read_arguments.simps) (simp add: commas_Cons add.assoc del: shell_text.simps)
  qed
qed simp

definition name_ok :: "string \<Rightarrow> bool" where
  "name_ok s \<longleftrightarrow> s \<noteq> [] \<and> list_all ident_char s"

lemma read_identifier_text:
  assumes "name_ok s" and "\<not> ident_char c"
  shows "read_identifier (p, s @ c # t) = Inr (s, (p + length s, c # t))"
proof -
  from assms(1) obtain x u where s: "s = x # u" and "ident_char x" and "\<forall>c \<in> set s. ident_char c"
    unfolding name_ok_def by (cases s) (auto simp: list_all_iff)
  then have "skip_space (p, s @ c # t) = (p, s @ c # t)" and "takeWhile ident_char (s @ c # t) = s"
    using assms(2) by (simp_all add: ident_not_space takeWhile_append)
  then show ?thesis by (simp add: read_identifier_def s advance_def)
qed

text \<open>C28. What a printer writes, the shell reader reads back: a statement
  \<open>db.<collection>.<verb>(<arguments>)\<close>, its arguments printed in the shell's syntax (strings
  quoted and escaped, 64-bit integers in decimal, nested documents and arrays), parses to
  exactly that collection, that verb and those values, types and array indices included.\<close>

theorem shell_call_round_trip:
  assumes "name_ok coll" and "name_ok vb" and "\<forall>v \<in> set vs. shell_value v"
  shows "parse_shell_call lib
      (''db.'' @ coll @ ''.'' @ vb @ ''('' @ commas (map shell_text vs) @ '')'') =
    Inr \<lparr>collection = coll, verb = vb, args = vs\<rparr>"
proof -
  have dot: "\<not> ident_char (CHR ''.'')" and par: "\<not> ident_char (CHR ''('')"
    by (simp_all add: ident_char_def isalpha_def isdigit_def)
  have db: "read_identifier (0, ''db.'' @ u) = Inr (''db'', (2, ''.'' @ u))" for u
    using read_identifier_text [OF _ dot, of "''db''" 0 u]
    by (simp add: name_ok_def ident_char_def isalpha_def)
  show ?thesis
  proof (cases "vs = []")
    case True
    then show ?thesis
      using db [of "coll @ ''.'' @ vb @ ''()''"]
      by (simp add: parse_shell_call_def read_identifier_text [OF assms(1) dot]
          read_identifier_text [OF assms(2) par])
  next
    case False
    then obtain v w where vs: "vs = v # w" by (cases vs) simp
    with assms(3) have "shell_value v" by simp
    then obtain c t where ct: "shell_text v = c # t" and c: "\<not> isspace c" "c \<noteq> CHR '')''"
      by (rule shell_text_starts)
    then obtain u where u: "commas (map shell_text vs) = c # u"
      using vs by (cases w) simp_all
    have open_args: "consume (CHR '')'') (p, commas (map shell_text vs) @ rest) =
        (False, (p, commas (map shell_text vs) @ rest))" for p rest
      using c by (simp add: u)
    show ?thesis
      using db [of "coll @ ''.'' @ vb @ ''('' @ commas (map shell_text vs) @ '')''"]
        read_arguments_text [OF False assms(3)]
      by (simp add: parse_shell_call_def read_identifier_text [OF assms(1) dot]
          read_identifier_text [OF assms(2) par] open_args)
  qed
qed

theorem shell_call_round_trip_witness:
  "parse_shell_call \<lparr>oid_is_valid = (\<lambda>_. False), oid_from_string = (\<lambda>s. s)\<rparr>
      (''db.c.find('' @ commas (map shell_text
         [BDocument [(''n'', BInt64 (- 7)), (''s'', BUtf8 [quote_char])]]) @ '')'') =
    Inr \<lparr>collection = ''c'', verb = ''find'',
      args = [BDocument [(''n'', BInt64 (- 7)), (''s'', BUtf8 [quote_char])]]\<rparr>"
  using shell_call_round_trip [of "''c''" "''find''"
      "[BDocument [(''n'', BInt64 (- 7)), (''s'', BUtf8 [quote_char])]]"
      "\<lparr>oid_is_valid = (\<lambda>_. False), oid_from_string = (\<lambda>s. s)\<rparr>"]
  by (simp add: name_ok_def ident_char_def isalpha_def nul_def del: shell_text.simps)

text \<open>The printer and the reader as one codec.\<close>

definition read_whole :: "oid_reader \<Rightarrow> string \<Rightarrow> bson option" where
  "read_whole lib s = (case read_value lib (0, s) of
     Inr (v, (_, [])) \<Rightarrow> Some v | _ \<Rightarrow> None)"

interpretation shell: codec shell_text "read_whole lib" shell_value for lib
proof unfold_locales
  fix v assume "shell_value v"
  from readsD [OF shell_reads [OF this], of "[]" lib 0]
  show "read_whole lib (shell_text v) = Some v" by (simp add: read_whole_def)
qed

section \<open>What is refused\<close>

definition reader_error :: "failure \<Rightarrow> bool" where
  "reader_error e \<longleftrightarrow> (\<exists>t. e = Raise t \<and> te_code t \<in> {2, 9, 238})"

lemma reader_error_simps [simp]:
  "reader_error (fail w r)" "reader_error (failed_to_parse m)" "reader_error (bad_value m)"
  "reader_error (not_implemented m)"
  by (simp_all add: reader_error_def fail_def error_simps)

definition errs :: "'a outcome \<Rightarrow> bool" where
  "errs out \<longleftrightarrow> (\<forall>e. out = Inl e \<longrightarrow> reader_error e)"

lemma errs_simps [simp]: "errs (Inr x)" "errs (Inl e) = reader_error e"
  by (simp_all add: errs_def)

lemma errs_and_then [intro]: "errs m \<Longrightarrow> (\<And>x. m = Inr x \<Longrightarrow> errs (f x)) \<Longrightarrow> errs (and_then m f)"
  by (cases m) auto

lemma errs_peek [intro, simp]: "errs (peek r)"
  by (simp add: peek_def Let_def split: list.splits)

lemma errs_expect [intro, simp]: "errs (expect c r)"
  unfolding expect_def by (rule errs_and_then) auto

lemma errs_identifier [intro, simp]: "errs (read_identifier r)"
  by (simp add: read_identifier_def Let_def)

lemma errs_quoted_rest: "errs (quoted_rest q out p cs)"
  by (induction q out p cs rule: quoted_rest.induct) (auto split: list.splits)

lemma errs_quoted_string [intro, simp]: "errs (quoted_string r)"
  unfolding quoted_string_def
  by (rule errs_and_then) (auto simp: errs_quoted_rest split: prod.splits)

lemma errs_word [intro, simp]: "errs (read_word lib r)"
  unfolding read_word_def by (intro errs_and_then) (auto intro!: errs_and_then)

lemma errs_member_key [intro, simp]: "errs (member_key r)"
  unfolding member_key_def by (rule errs_and_then) auto

lemma errs_read:
  "errs (read_value lib r)" "errs (read_object lib r)" "errs (read_array lib r)"
  "errs (read_members lib d r)" "errs (read_elements lib index d r)"
proof (induction rule: read_value_read_object_read_array_read_members_read_elements.induct)
  case (1 lib r)
  show ?case
  proof (subst read_value.simps, rule errs_and_then)
    fix x assume p: "peek r = Inr x"
    obtain c r1 where x: "x = (c, r1)" by (cases x)
    show "errs (case x of (c, r1) \<Rightarrow>
        if c = CHR ''{'' then read_object lib r1
        else if c = CHR ''['' then read_array lib r1
        else if c = apos \<or> c = quote_char then
          and_then (quoted_string r1) (\<lambda>(s, r2). Inr (BUtf8 s, r2))
        else if c = CHR ''-'' \<or> isdigit c then Inr (read_number r1)
        else read_word lib r1)"
      unfolding x prod.case using 1(1) [OF p x [symmetric]] 1(2) [OF p x [symmetric]]
      by (cases "c = CHR ''{''"; cases "c = CHR ''[''"; auto intro!: errs_and_then)
  qed simp
next
  case (2 lib r)
  show ?case by (subst read_object.simps)
      (rule errs_and_then; auto split: prod.splits intro: 2 intro!: errs_and_then)
next
  case (3 lib r)
  show ?case by (subst read_array.simps)
      (rule errs_and_then; auto split: prod.splits intro: 3 intro!: errs_and_then)
next
  case (4 lib d r)
  show ?case
  proof (subst read_members.simps, intro errs_and_then errs_member_key, split prod.split,
      intro allI impI errs_and_then errs_expect, goal_cases)
    case (1 x key r1 r2)
    then show ?case using 4(1) by blast
  next
    case (2 x key r1 r2 y)
    then obtain v r3 where y: "y = (v, r3)" and x: "member_key (skip_space r) = Inr (key, r1)"
      and e: "expect (CHR '':'') r1 = Inr r2" and v: "read_value lib r2 = Inr (v, r3)"
      by (cases y) auto
    obtain b r4 where c: "consume (CHR '','') r3 = (b, r4)" by (cases "consume (CHR '','') r3")
    show ?case unfolding y prod.case c
      using 4(2) [OF x refl e v refl c [symmetric]] by (cases b) auto
  qed
next
  case (5 lib index d r)
  show ?case
  proof (subst read_elements.simps, rule errs_and_then [OF 5(1)])
    fix y assume "read_value lib r = Inr y"
    then obtain v r1 where y: "y = (v, r1)" and v: "read_value lib r = Inr (v, r1)" by (cases y) auto
    obtain b r2 where c: "consume (CHR '','') r1 = (b, r2)" by (cases "consume (CHR '','') r1")
    show "errs (case y of (v, r1) \<Rightarrow> case consume (CHR '','') r1 of (again, r2) \<Rightarrow>
        if again then read_elements lib (index + 1) (append_value d (nat_text index) v) r2
        else Inr (append_value d (nat_text index) v, r2))"
      unfolding y prod.case c using 5(2) [OF v refl c [symmetric]] by (cases b) auto
  qed
qed

lemma errs_arguments: "errs (read_arguments lib r)"
proof (induction lib r rule: read_arguments.induct)
  case (1 lib r)
  show ?case
  proof (subst read_arguments.simps, rule errs_and_then [OF errs_read(1)])
    fix y assume "read_value lib r = Inr y"
    then obtain v r1 where y: "y = (v, r1)" and v: "read_value lib r = Inr (v, r1)" by (cases y) auto
    obtain b r2 where c: "consume (CHR '','') r1 = (b, r2)" by (cases "consume (CHR '','') r1")
    show "errs (case y of (v, r1) \<Rightarrow> case consume (CHR '','') r1 of (again, r2) \<Rightarrow>
        if again then and_then (read_arguments lib r2) (\<lambda>(vs, r3). Inr (v # vs, r3))
        else Inr ([v], r2))"
      unfolding y prod.case c using 1 [OF v refl c [symmetric]] by (cases b) auto
  qed
qed

text \<open>Whatever text arrives, the shell reader ends and either gives a call or refuses it with
  one of its own three errors (FailedToParse, BadValue, NotImplemented): no statement makes it
  read past the end, loop, or fail in any other way.\<close>

theorem shell_reader_total:
  "(\<exists>call. parse_shell_call lib s = Inr call) \<or>
    (\<exists>e. parse_shell_call lib s = Inl (Raise e) \<and> te_code e \<in> {2, 9, 238})"
proof -
  have "errs (parse_shell_call lib s)"
    unfolding parse_shell_call_def
    by (intro errs_and_then errs_identifier; auto split: prod.splits intro!: errs_and_then
        intro: errs_arguments)
  then show ?thesis
    by (cases "parse_shell_call lib s") (auto simp: reader_error_def)
qed

text \<open>Malformed numbers are read as something: \<open>strtoll\<close> and \<open>strtod\<close> stop where the
  digits stop and the reader does not look at what they left, so \<open>1-2\<close> is 1, a lone \<open>-\<close> is 0
  and twenty nines are the largest 64-bit integer. A filter that was mistyped silently becomes
  a different filter.\<close>

theorem malformed_numbers_accepted:
  "parse_shell_call lib ''db.c.deleteMany({a: 1-2})'' =
      Inr \<lparr>collection = ''c'', verb = ''deleteMany'', args = [BDocument [(''a'', BInt64 1)]]\<rparr>"
  "parse_shell_call lib ''db.c.deleteMany({a: -})'' =
      Inr \<lparr>collection = ''c'', verb = ''deleteMany'', args = [BDocument [(''a'', BInt64 0)]]\<rparr>"
  "parse_shell_call lib ''db.c.deleteMany({a: 99999999999999999999})'' =
      Inr \<lparr>collection = ''c'', verb = ''deleteMany'',
        args = [BDocument [(''a'', BInt64 0x7FFFFFFFFFFFFFFF)]]\<rparr>"
  by code_simp+

section \<open>Commands\<close>

text \<open>
  What each verb of the shell means: the command, and what is made of its reply. \<open>ds\<close> are the arguments
  of a call that takes documents; a missing first one is the empty document.
\<close>

definition first_document :: "document list \<Rightarrow> document" where
  "first_document ds = (case ds of [] \<Rightarrow> [] | d # _ \<Rightarrow> d)"

inductive shell_means :: "string \<Rightarrow> string \<Rightarrow> bson list \<Rightarrow> shell_command \<Rightarrow> bool" for coll :: string where
  find: "length ds \<le> 2 \<Longrightarrow> shell_means coll ''find'' (map BDocument ds)
    \<lparr>command = [(''find'', BUtf8 coll), (''filter'', BDocument (first_document ds))]
       @ map (\<lambda>p. (''projection'', BDocument p)) (tl ds), result = Documents\<rparr>"
| find_one: "length ds \<le> 2 \<Longrightarrow> shell_means coll ''findOne'' (map BDocument ds)
    \<lparr>command = [(''find'', BUtf8 coll), (''filter'', BDocument (first_document ds))]
       @ map (\<lambda>p. (''projection'', BDocument p)) (tl ds) @ [(''limit'', BInt64 1)], result = FirstDocument\<rparr>"
| insert_one: "shell_means coll ''insertOne'' [BDocument d]
    \<lparr>command = [(''insert'', BUtf8 coll), (''documents'', BArray [(''0'', BDocument d)])], result = Reply\<rparr>"
| insert_many: "shell_means coll ''insertMany'' [BArray ds]
    \<lparr>command = [(''insert'', BUtf8 coll), (''documents'', BArray ds)], result = Reply\<rparr>"
| update_many: "shell_means coll ''updateMany'' [BDocument q, BDocument u]
    \<lparr>command = [(''update'', BUtf8 coll), (''updates'', BArray [(''0'',
       BDocument [(''q'', BDocument q), (''u'', BDocument u), (''multi'', BBool True)])])], result = Reply\<rparr>"
| update_one: "v \<in> {''updateOne'', ''replaceOne''} \<Longrightarrow> shell_means coll v [BDocument q, BDocument u]
    \<lparr>command = [(''update'', BUtf8 coll), (''updates'', BArray [(''0'',
       BDocument [(''q'', BDocument q), (''u'', BDocument u), (''multi'', BBool False)])])], result = Reply\<rparr>"
| delete_one: "length ds \<le> 1 \<Longrightarrow> shell_means coll ''deleteOne'' (map BDocument ds)
    \<lparr>command = [(''delete'', BUtf8 coll), (''deletes'', BArray [(''0'',
       BDocument [(''q'', BDocument (first_document ds)), (''limit'', BInt32 1)])])], result = Reply\<rparr>"
| delete_many: "length ds \<le> 1 \<Longrightarrow> shell_means coll ''deleteMany'' (map BDocument ds)
    \<lparr>command = [(''delete'', BUtf8 coll), (''deletes'', BArray [(''0'',
       BDocument [(''q'', BDocument (first_document ds)), (''limit'', BInt32 0)])])], result = Reply\<rparr>"
| count: "v \<in> {''count'', ''countDocuments''} \<Longrightarrow> length ds \<le> 1 \<Longrightarrow> shell_means coll v (map BDocument ds)
    \<lparr>command = [(''count'', BUtf8 coll), (''query'', BDocument (first_document ds))], result = Count\<rparr>"
| aggregate: "shell_means coll ''aggregate'' [BArray p]
    \<lparr>command = [(''aggregate'', BUtf8 coll), (''pipeline'', BArray p), (''cursor'', BDocument [])],
     result = Documents\<rparr>"

inductive_simps shell_means_verbs:
  "shell_means coll ''find'' vs c" "shell_means coll ''findOne'' vs c" "shell_means coll ''insertOne'' vs c"
  "shell_means coll ''insertMany'' vs c" "shell_means coll ''updateMany'' vs c" "shell_means coll ''updateOne'' vs c"
  "shell_means coll ''replaceOne'' vs c" "shell_means coll ''deleteOne'' vs c" "shell_means coll ''deleteMany'' vs c"
  "shell_means coll ''count'' vs c" "shell_means coll ''countDocuments'' vs c" "shell_means coll ''aggregate'' vs c"

text \<open>Arguments that are documents, at most one or two.\<close>

lemma documents_le_1:
  "(\<exists>ds. vs = map BDocument ds \<and> length ds \<le> Suc 0 \<and> P ds) \<longleftrightarrow>
     vs = [] \<and> P [] \<or> (\<exists>q. vs = [BDocument q] \<and> P [q])"
  (is "?L \<longleftrightarrow> ?R")
proof
  assume ?L
  then obtain ds where "vs = map BDocument ds" "length ds \<le> Suc 0" "P ds" by blast
  then show ?R by (cases ds) auto
next
  assume ?R
  then show ?L by (elim disjE exE conjE) (rule exI [of _ "[]"], simp, rule exI [of _ "[_]"], simp)
qed

lemma documents_le_2:
  "(\<exists>ds. vs = map BDocument ds \<and> length ds \<le> 2 \<and> P ds) \<longleftrightarrow>
     vs = [] \<and> P [] \<or> (\<exists>q. vs = [BDocument q] \<and> P [q]) \<or> (\<exists>q p. vs = [BDocument q, BDocument p] \<and> P [q, p])"
  (is "?L \<longleftrightarrow> ?R")
proof
  assume ?L
  then obtain ds where "vs = map BDocument ds" "length ds \<le> 2" "P ds" by blast
  then show ?R by (cases ds rule: remdups_adj.cases) auto
next
  assume ?R
  then show ?L
    by (elim disjE exE conjE)
      (rule exI [of _ "[]"], simp, rule exI [of _ "[_]"], simp, rule exI [of _ "[_, _]"], simp)
qed

lemma is_document_cases: "is_document v \<longleftrightarrow> (\<exists>d. v = BDocument d)"
  by (cases v) auto

lemma document_argument_Inr:
  "append_document_argument c name call i = Inr d \<longleftrightarrow>
    (\<exists>x. d = c @ [(name, BDocument x)] \<and>
      (argument call i = Some (BDocument x) \<or> argument call i = None \<and> x = []))"
  by (auto simp: append_document_argument_def is_document_cases split: option.splits)

lemmas builds = and_then_Inr_iff document_argument_Inr argument_def append_singleton_array_def first_document_def
  reject_extra_arguments_def documents_le_1 documents_le_2

text \<open>No argument, one, two, or more.\<close>

lemma arguments:
  obtains "args call = []" | v where "args call = [v]" | v w where "args call = [v, w]"
    | "2 < length (args call)"
proof (cases "args call" rule: remdups_adj.cases)
  case (3 x y xs)
  with that(3,4) show thesis by (cases xs) auto
qed (use that in auto)

lemma build_find_iff:
  "build_find call coll = Inr c \<longleftrightarrow> (\<exists>ds. args call = map BDocument ds \<and> length ds \<le> 2 \<and>
     c = \<lparr>command = [(''find'', BUtf8 coll), (''filter'', BDocument (first_document ds))]
            @ map (\<lambda>p. (''projection'', BDocument p)) (tl ds)
            @ (if verb call = ''findOne'' then [(''limit'', BInt64 1)] else []),
          result = (if verb call = ''findOne'' then FirstDocument else Documents)\<rparr>)"
  by (rule arguments [of call]) (auto simp: builds build_find_def append_projection_def is_document_cases)

lemma build_insert_iff:
  "build_insert call coll = Inr c \<longleftrightarrow>
     (if verb call = ''insertOne''
      then \<exists>d. args call = [BDocument d] \<and>
        c = \<lparr>command = [(''insert'', BUtf8 coll), (''documents'', BArray [(''0'', BDocument d)])], result = Reply\<rparr>
      else \<exists>ds. args call = [BArray ds] \<and>
        c = \<lparr>command = [(''insert'', BUtf8 coll), (''documents'', BArray ds)], result = Reply\<rparr>)"
  by (rule arguments [of call]) (auto simp: builds build_insert_def Let_def split: bson.splits)

lemma write_statement_Inr:
  "write_statement call u multi = Inr s \<longleftrightarrow>
    (\<exists>q w. u = Some (BDocument w) \<and>
      s = [(''q'', BDocument q), (''u'', BDocument w), (''multi'', BBool multi)] \<and>
      (argument call 0 = Some (BDocument q) \<or> argument call 0 = None \<and> q = []))"
proof (cases "\<exists>w. u = Some (BDocument w)")
  case False
  then have "write_statement call u multi \<noteq> Inr s"
    by (cases u; cases "the u") (auto simp: write_statement_def and_then_Inr_iff)
  with False show ?thesis by blast
qed (auto simp: write_statement_def and_then_Inr_iff document_argument_Inr)

lemma build_update_iff:
  "build_update call coll = Inr c \<longleftrightarrow> (\<exists>q u. args call = [BDocument q, BDocument u] \<and>
     c = \<lparr>command = [(''update'', BUtf8 coll), (''updates'', BArray [(''0'', BDocument [(''q'', BDocument q),
            (''u'', BDocument u), (''multi'', BBool (verb call = ''updateMany''))])])], result = Reply\<rparr>)"
  by (rule arguments [of call]) (auto simp: builds build_update_def write_statement_Inr)

lemma build_delete_iff:
  "build_delete call coll = Inr c \<longleftrightarrow> (\<exists>ds. args call = map BDocument ds \<and> length ds \<le> Suc 0 \<and>
     c = \<lparr>command = [(''delete'', BUtf8 coll), (''deletes'', BArray [(''0'',
            BDocument [(''q'', BDocument (first_document ds)),
              (''limit'', BInt32 (if verb call = ''deleteOne'' then 1 else 0))])])], result = Reply\<rparr>)"
  by (rule arguments [of call]) (auto simp: builds build_delete_def delete_statement_def)

lemma build_count_iff:
  "build_count call coll = Inr c \<longleftrightarrow> (\<exists>ds. args call = map BDocument ds \<and> length ds \<le> Suc 0 \<and>
     c = \<lparr>command = [(''count'', BUtf8 coll), (''query'', BDocument (first_document ds))], result = Count\<rparr>)"
  by (rule arguments [of call]) (auto simp: builds build_count_def)

lemma build_aggregate_iff:
  "build_aggregate call coll = Inr c \<longleftrightarrow> (\<exists>p. args call = [BArray p] \<and>
     c = \<lparr>command = [(''aggregate'', BUtf8 coll), (''pipeline'', BArray p), (''cursor'', BDocument [])],
          result = Documents\<rparr>)"
  by (rule arguments [of call]) (auto simp: builds build_aggregate_def split: bson.splits)

lemmas build_iffs = build_find_iff build_insert_iff build_update_iff build_delete_iff build_count_iff
  build_aggregate_iff

lemma known_verbs:
  "shell_means coll v vs c \<Longrightarrow> v \<in> {''find'', ''findOne'', ''insertOne'', ''insertMany'', ''updateOne'',
    ''updateMany'', ''replaceOne'', ''deleteOne'', ''deleteMany'', ''countDocuments'', ''count'', ''aggregate''}"
  by (erule shell_means.cases) auto

text \<open>
  C29. A shell call becomes the command its verb means, and nothing else does: the collection, the
  filter, projection, documents, update and pipeline stand in their places, unchanged; \<open>multi\<close> is set for
  \<open>updateMany\<close> alone, and the limit is 1 for \<open>deleteOne\<close> and \<open>findOne\<close> and absent or 0 for the verbs of many.
  A call with another verb, with an argument of another type or with more arguments than the verb
  takes is refused.
\<close>

theorem shell_command_carries_call:
  "build_shell_command call = Inr c \<longleftrightarrow> shell_means (c_str (collection call)) (verb call) (args call) c"
proof (cases "verb call \<in> {''find'', ''findOne'', ''insertOne'', ''insertMany'', ''updateOne'',
    ''updateMany'', ''replaceOne'', ''deleteOne'', ''deleteMany'', ''countDocuments'', ''count'', ''aggregate''}")
  case False
  then show ?thesis using known_verbs [of _ "verb call"] by (auto simp: build_shell_command_def Let_def)
next
  case True
  then show ?thesis
    unfolding insert_iff empty_iff
    by (elim disjE) (simp_all add: build_shell_command_def Let_def build_iffs shell_means_verbs conj_commute)
qed

theorem shell_command_carries_call_witness:
  "build_shell_command \<lparr>collection = ''c'', verb = ''updateMany'', args = [BDocument [], BDocument [(''a'', BNull)]]\<rparr>
     = Inr \<lparr>command = [(''update'', BUtf8 ''c''), (''updates'', BArray [(''0'', BDocument [(''q'', BDocument []),
         (''u'', BDocument [(''a'', BNull)]), (''multi'', BBool True)])])], result = Reply\<rparr>"
  by (rule shell_command_carries_call [THEN iffD2]) (simp add: shell_means_verbs c_str_def nul_def)

end
