(* ===== verification/SqlGateway.thy ===== *)
theory SqlGateway
  imports Mirror Sqlguard Mongosh
begin

text \<open>
  SQL for clients that speak Mongo: running a statement (\<open>SqlSession::query\<close> in sql.cc) and the
  gateway in front of it (sqlgateway.cc). What the server answers to a statement is a parameter.
\<close>

section \<open>Results\<close>

datatype mysql_type = Tiny | Short | Int24 | Long | Longlong | Year | Float | Double_column | Other_type

datatype column_type = Integer_column | Real_column | Bool_column | Text_column

definition column_type_of :: "mysql_type \<Rightarrow> nat \<Rightarrow> column_type" where
  "column_type_of ty len = (case ty of
       Tiny \<Rightarrow> if len = 1 then Bool_column else Integer_column
     | Short \<Rightarrow> Integer_column
     | Int24 \<Rightarrow> Integer_column
     | Long \<Rightarrow> Integer_column
     | Longlong \<Rightarrow> Integer_column
     | Year \<Rightarrow> Integer_column
     | Float \<Rightarrow> Real_column
     | Double_column \<Rightarrow> Real_column
     | Other_type \<Rightarrow> Text_column)"

text \<open>\<open>raise\<close>: the error numbers of the server that have a Mongo code of their own.\<close>

definition raise_sql :: "nat \<Rightarrow> string \<Rightarrow> string \<Rightarrow> failure" where
  "raise_sql code message sql =
     (let detail = message @ '' ['' @ take 400 sql @ '']'' in
      if code = 1062 then duplicate_key detail
      else if code = 1146 \<or> code = 1049 then namespace_not_found detail
      else if code = 1050 then namespace_exists detail
      else internal_error detail)"

text \<open>What the server sends back: an error, or fields and rows with the number of rows changed.\<close>

record server_answer =
  field_list :: "(string \<times> mysql_type \<times> nat) list"
  cells :: "string option list list"
  changed_rows :: "64 word"

record column =
  column_name :: string
  column_kind :: column_type

record result_set =
  columns :: "column list"
  result_rows :: "string option list list"

definition read_answer :: "server_answer \<Rightarrow> result_set" where
  "read_answer a = \<lparr>columns = map (\<lambda>(name, ty, len).
       \<lparr>column_name = name, column_kind = column_type_of ty len\<rparr>) (field_list a), result_rows = cells a\<rparr>"

section \<open>The gateway\<close>

record sql_gateway =
  network_exposed :: bool
  write_flag :: "bool option"
  execute :: "bool \<Rightarrow> string \<Rightarrow> server \<Rightarrow> ((nat \<times> string) + server_answer) \<times> server"

definition writes_allowed :: "sql_gateway \<Rightarrow> bool" where
  "writes_allowed g \<longleftrightarrow> (case write_flag g of None \<Rightarrow> False | Some on \<Rightarrow> on)"

definition append_column :: "document \<Rightarrow> column \<Rightarrow> string option \<Rightarrow> document" where
  "append_column d c cell = d @ [(column_name c, case cell of
       None \<Rightarrow> BNull
     | Some text \<Rightarrow> (case column_kind c of
         Integer_column \<Rightarrow> BInt64 (strtoll (c_str text))
       | Real_column \<Rightarrow> BDouble (strtod (c_str text))
       | Bool_column \<Rightarrow> BBool (text \<noteq> ''0'')
       | Text_column \<Rightarrow> BUtf8 text))]"

definition row_document :: "column list \<Rightarrow> string option list \<Rightarrow> document" where
  "row_document cols row = foldl (\<lambda>d (c, cell). append_column d c cell) [] (zip cols row)"

record sql_result =
  had_result_set :: bool
  sql_documents :: "document list"
  affected_rows :: "64 word"

text \<open>A failed statement of a read-only transaction is rolled back.\<close>

definition run_sql_gateway :: "sql_gateway \<Rightarrow> string \<Rightarrow> sql_result action" where
  "run_sql_gateway g sql s =
     (if network_exposed g
      then (Inl (unauthorized (''chimeraSql and $sql are disabled: the listener accepts non-loopback ''
             @ ''connections and has no authentication yet (https://github.com/mieweb/chimeraDB/issues/5)'')), s)
      else if sql = [] then (Inl (failed_to_parse ''chimeraSql needs a statement''), s)
      else
        let read_only = \<not> writes_allowed g in
        if read_only \<and> \<not> is_read_only_statement sql
        then (Inl (unauthorized (''the SQL gateway is read-only; '' @ sq @ leading_keyword sql @ sq
               @ '' needs SET GLOBAL chimera_mongo_sql_writes = ON'')), s)
        else case execute g read_only sql s of
            (Inl (code, message), s') \<Rightarrow> (Inl (raise_sql code message sql), if read_only then s else s')
          | (Inr answer, s') \<Rightarrow>
              let rows = read_answer answer in
              (Inr \<lparr>had_result_set = columns rows \<noteq> [],
                    sql_documents = map (row_document (columns rows)) (result_rows rows),
                    affected_rows = changed_rows answer\<rparr>, s'))"

section \<open>What the gateway guarantees\<close>

text \<open>
  Which statements reach the server. On a listener that accepts other hosts, none; with the write
  flag off, only statements the keyword guard lets through, and those inside a read-only
  transaction: what the server would do to any other text does not matter.
\<close>

theorem gateway_guards_the_server:
  assumes "\<not> writes_allowed g"
    and "\<And>sql. is_read_only_statement sql \<Longrightarrow> execute g' True sql = execute g True sql"
  shows "run_sql_gateway (g'\<lparr>network_exposed := network_exposed g, write_flag := write_flag g\<rparr>) sql s
      = run_sql_gateway g sql s
    \<and> (network_exposed g \<or> \<not> is_read_only_statement sql \<longrightarrow> isl (fst (run_sql_gateway g sql s)) \<and>
        snd (run_sql_gateway g sql s) = s)"
  using assms by (auto simp: run_sql_gateway_def writes_allowed_def Let_def)

text \<open>
  Integers of a result are read with a 64-bit signed \<open>strtoll\<close>: every unsigned value from
  \<open>2 ^ 63\<close> on comes back as the same document.
\<close>

theorem gateway_saturates_unsigned:
  "row_document [\<lparr>column_name = ''id'', column_kind = column_type_of Longlong 20\<rparr>] [Some ''9223372036854775808'']
    = row_document [\<lparr>column_name = ''id'', column_kind = column_type_of Longlong 20\<rparr>] [Some ''18446744073709551615'']"
  by code_simp

end
