(* ===== verification/Projection.thy ===== *)
theory Projection
  imports Paths
begin

text \<open>
  Projections (src/chimera/translator/src/project.cpp): a specification is split into included
  and excluded paths, and the document is rebuilt by inclusion or reduced by exclusion.
\<close>

section \<open>The code\<close>

fun is_truthy :: "bson \<Rightarrow> bool outcome" where
  "is_truthy (BBool b) = Inr b"
| "is_truthy v =
     (if value_is_numeric v then and_then (value_as_double v) (\<lambda>d. Inr (\<not> d_eq d (d_of_int 0)))
      else Inl (not_implemented ''only inclusion/exclusion projections are supported''))"

record projection =
  included :: "path list"
  excluded :: "path list"
  id_excluded :: bool

definition read_projection_field :: "string \<times> bson \<Rightarrow> projection \<Rightarrow> projection outcome" where
  "read_projection_field field p = (case field of (name, v) \<Rightarrow>
     and_then (is_truthy v) (\<lambda>keep.
       if name = ''_id'' then Inr (p\<lparr>id_excluded := \<not> keep\<rparr>)
       else and_then (split_path name) (\<lambda>path.
         Inr (if keep then p\<lparr>included := included p @ [path]\<rparr>
              else p\<lparr>excluded := excluded p @ [path]\<rparr>))))"

definition read_projection :: "document \<Rightarrow> projection outcome" where
  "read_projection spec =
     fold_res read_projection_field spec \<lparr>included = [], excluded = [], id_excluded = False\<rparr>"

definition copy_path :: "document \<Rightarrow> path \<Rightarrow> document \<Rightarrow> document outcome" where
  "copy_path src p out = (case path_get src p of Some v \<Rightarrow> path_set out p v | None \<Rightarrow> Inr out)"

definition project :: "document \<Rightarrow> document option \<Rightarrow> document outcome" where
  "project src spec = (case spec of
       None \<Rightarrow> Inr src
     | Some keys \<Rightarrow>
         if keys = [] then Inr src
         else and_then (read_projection keys) (\<lambda>p.
           if included p \<noteq> [] \<and> excluded p \<noteq> []
           then Inl (failed_to_parse ''a projection cannot mix inclusion and exclusion'')
           else if included p = [] then
             and_then (fold_res (\<lambda>path out. path_unset out path) (excluded p) src) (\<lambda>out.
               if id_excluded p then path_unset out [''_id''] else Inr out)
           else
             fold_res (copy_path src) (included p)
               (case (if id_excluded p then None else path_get src [''_id'']) of
                  Some v \<Rightarrow> [(''_id'', v)] | None \<Rightarrow> [])))"

section \<open>The loops as repeated updates\<close>

lemma fold_unset:
  "list_all (\<lambda>p. p \<noteq> []) ps \<Longrightarrow> fold_res (\<lambda>path out. path_unset out path) ps d = Inr (foldl unset_in d ps)"
  by (induction ps arbitrary: d) (auto simp: path_unset_def)

lemma fold_copy:
  "list_all (\<lambda>p. p \<noteq> []) ps \<Longrightarrow> fold_res (copy_path src) ps d =
     Inr (foldl (\<lambda>d (p, v). set_in d p v) d
            (List.map_filter (\<lambda>p. map_option (Pair p) (path_get src p)) ps))"
  by (induction ps arbitrary: d)
    (auto simp: copy_path_def path_set_def map_filter_simps split: option.splits)

lemma split_path_nonempty: "split_path s = Inr p \<Longrightarrow> p \<noteq> []"
  by (auto dest: split_path_Inr simp: dotless_def)

lemma read_projection_paths:
  "read_projection spec = Inr p \<Longrightarrow> list_all (\<lambda>p. p \<noteq> []) (included p) \<and> list_all (\<lambda>p. p \<noteq> []) (excluded p)"
  unfolding read_projection_def
  by (erule fold_res_invariant)
    (auto simp: read_projection_field_def and_then_Inr_iff split_path_nonempty split: if_splits prod.splits)

lemma valid_paths: "list_all valid_path ps \<Longrightarrow> list_all (\<lambda>p. p \<noteq> []) ps"
  by (auto simp: list_all_iff)

lemma set_present:
  "(q, v) \<in> set (List.map_filter (\<lambda>q. map_option (Pair q) (f q)) ps) \<longleftrightarrow> q \<in> set ps \<and> f q = Some v"
  by (induction ps) (auto simp: map_filter_simps split: option.splits)

lemma sorted_present:
  "sorted_wrt apart ps \<Longrightarrow>
    sorted_wrt (\<lambda>a b. apart (fst a) (fst b)) (List.map_filter (\<lambda>q. map_option (Pair q) (f q)) ps)"
  by (induction ps) (auto simp: map_filter_simps set_present split: option.splits)

lemma sorted_apart: "sorted_wrt apart ps \<Longrightarrow> r \<in> set ps \<Longrightarrow> q \<in> set ps \<Longrightarrow> r \<noteq> q \<Longrightarrow> apart r q"
  by (induction ps) (auto simp: apart_sym)

lemma path_get_single:
  "valid_path q \<Longrightarrow> apart [k] q \<Longrightarrow> path_get [(k, v)] q = None"
  by (induction q rule: induct_list012) (auto simp: path_get_deep)

section \<open>Properties\<close>

text \<open>
  Inclusion: the result holds exactly the included paths, each with the value it has in
  the document (or absent where the document has none), and the id unless it is switched off;
  every path apart from those is gone.
\<close>

theorem project_inclusion:
  assumes "read_projection spec = Inr p" and "included p \<noteq> []" and "excluded p = []"
    and "list_all valid_path (included p)" and "sorted_wrt apart ([''_id''] # included p)"
  shows "\<exists>out. project src (Some spec) = Inr out
    \<and> (\<forall>q \<in> set (included p). path_get out q = path_get src q)
    \<and> path_get out [''_id''] = (if id_excluded p then None else path_get src [''_id''])
    \<and> (\<forall>q. valid_path q \<and> apart [''_id''] q \<and> (\<forall>r \<in> set (included p). apart r q)
          \<longrightarrow> path_get out q = None)"
proof -
  define start where "start = (case (if id_excluded p then None else path_get src [''_id'']) of
                  Some v \<Rightarrow> [(''_id'', v)] | None \<Rightarrow> ([] :: document))"
  define pvs where "pvs = List.map_filter (\<lambda>q. map_option (Pair q) (path_get src q)) (included p)"
  define out where "out = foldl (\<lambda>d (p, v). set_in d p v) start pvs"
  have spec: "spec \<noteq> []" using assms(1,2) by (auto simp: read_projection_def)
  have run: "project src (Some spec) = Inr out"
    using assms spec fold_copy [OF valid_paths [OF assms(4)]]
    by (simp add: project_def out_def pvs_def start_def)
  have id: "valid_path [''_id'']" by (simp add: nul_def)
  have ok: "valid_path q" if "(q, v) \<in> set pvs" for q v
    using that assms(4) by (auto simp: pvs_def set_present list_all_iff)
  have sorted: "sorted_wrt (\<lambda>a b. apart (fst a) (fst b)) pvs"
    using assms(5) by (auto simp: pvs_def intro: sorted_present)
  have keep: "path_get out q = path_get start q"
    if "valid_path q" "\<And>r. r \<in> set (included p) \<Longrightarrow> apart r q" for q
    unfolding out_def using that ok
    by (intro doc_store.get_fold_put_sep) (auto simp: pvs_def set_present)
  have start_id: "path_get start [''_id''] = (if id_excluded p then None else path_get src [''_id''])"
    by (auto simp: start_def find_field_def nul_def split: option.splits)
  have start_other: "path_get start q = None" if "valid_path q" "apart [''_id''] q" for q
    using that by (auto simp: start_def path_get_Nil_doc path_get_single split: option.splits)
  have inc: "path_get out q = path_get src q" if "q \<in> set (included p)" for q
  proof (cases "path_get src q")
    case None
    have q: "valid_path q" "apart [''_id''] q" using that assms(4,5) by (auto simp: list_all_iff)
    have "path_get out q = path_get start q"
      unfolding out_def
    proof (rule doc_store.get_fold_put_sep [OF q(1)])
      fix r v assume "(r, v) \<in> set pvs"
      then have "r \<in> set (included p)" "r \<noteq> q" using None by (auto simp: pvs_def set_present)
      then show "valid_path r \<and> apart r q"
        using that assms(4,5) sorted_apart [of "included p"] by (auto simp: list_all_iff)
    qed
    then show ?thesis using None start_other [OF q] by simp
  next
    case (Some v)
    then have "(q, v) \<in> set pvs" using that by (auto simp: pvs_def set_present)
    then have "path_get out q = Some v"
      unfolding out_def using ok sorted by (intro doc_store.get_fold_put) auto
    with Some show ?thesis by simp
  qed
  have "path_get out [''_id''] = (if id_excluded p then None else path_get src [''_id''])"
    using keep [OF id] start_id assms(5) by (auto simp: apart_sym)
  moreover have "\<forall>q. valid_path q \<and> apart [''_id''] q \<and> (\<forall>r \<in> set (included p). apart r q)
      \<longrightarrow> path_get out q = None"
    using keep start_other by simp
  ultimately show ?thesis using run inc by blast
qed

theorem project_inclusion_witness:
  "\<exists>out. project [(''_id'', BInt32 7), (''a'', BBool True), (''b'', BNull)] (Some [(''a'', BBool True)]) = Inr out
    \<and> path_get out [''a''] = Some (BBool True) \<and> path_get out [''_id''] = Some (BInt32 7)
    \<and> path_get out [''b''] = None"
proof -
  define p where "p = \<lparr>included = [[''a'']], excluded = [], id_excluded = False\<rparr>"
  have p: "read_projection [(''a'', BBool True)] = Inr p"
    by (simp add: read_projection_def read_projection_field_def split_path_def p_def)
  from project_inclusion [OF p, of "[(''_id'', BInt32 7), (''a'', BBool True), (''b'', BNull)]"]
  obtain out where out: "project [(''_id'', BInt32 7), (''a'', BBool True), (''b'', BNull)]
      (Some [(''a'', BBool True)]) = Inr out"
      "path_get out [''a''] = Some (BBool True)" "path_get out [''_id''] = Some (BInt32 7)"
    and rest: "\<And>q. valid_path q \<Longrightarrow> apart [''_id''] q \<Longrightarrow> apart [''a''] q \<Longrightarrow> path_get out q = None"
    by (auto simp: p_def nul_def find_field_def)
  from rest [of "[''b'']"] have "path_get out [''b''] = None" by (simp add: nul_def)
  with out show ?thesis by blast
qed

text \<open>
  Exclusion: the excluded paths are gone, the id with them when it is switched off, and
  every path apart from those reads as in the document.
\<close>

theorem project_exclusion:
  assumes "read_projection spec = Inr p" and "included p = []" and "list_all valid_path (excluded p)"
  shows "\<exists>out. project src (Some spec) = Inr out
    \<and> (\<forall>q \<in> set (excluded p). path_get out q = None)
    \<and> (id_excluded p \<longrightarrow> path_get out [''_id''] = None)
    \<and> (\<forall>q. valid_path q \<and> (id_excluded p \<longrightarrow> apart [''_id''] q) \<and> (\<forall>r \<in> set (excluded p). apart r q)
          \<longrightarrow> path_get out q = path_get src q)"
proof -
  define ps where "ps = excluded p @ (if id_excluded p then [[''_id'']] else [])"
  define out where "out = foldl unset_in src ps"
  have ok: "valid_path q" if "q \<in> set ps" for q
    using that assms(3) by (auto simp: ps_def list_all_iff nul_def split: if_splits)
  have "project src (Some spec) = Inr out"
  proof (cases "spec = []")
    case True
    with assms(1) show ?thesis by (auto simp: project_def out_def ps_def read_projection_def)
  next
    case False
    with assms fold_unset [OF valid_paths [OF assms(3)]] show ?thesis
      by (simp add: project_def out_def ps_def path_unset_def)
  qed
  moreover have gone: "path_get out q = None" if "q \<in> set ps" for q
    unfolding out_def using that ok by (intro doc_store.get_fold_del)
  moreover have "path_get out q = path_get src q" if "valid_path q" "\<And>r. r \<in> set ps \<Longrightarrow> apart r q" for q
    unfolding out_def using that ok by (intro doc_store.get_fold_del_sep) auto
  moreover have "id_excluded p \<longrightarrow> path_get out [''_id''] = None"
    using gone [of "[''_id'']"] by (simp add: ps_def)
  ultimately show ?thesis by (auto simp: ps_def)
qed

theorem project_exclusion_witness:
  "\<exists>out. project [(''_id'', BInt32 7), (''a'', BBool True), (''b'', BNull)] (Some [(''a'', BBool False)]) = Inr out
    \<and> path_get out [''a''] = None \<and> path_get out [''b''] = Some BNull"
proof -
  define p where "p = \<lparr>included = [], excluded = [[''a'']], id_excluded = False\<rparr>"
  have p: "read_projection [(''a'', BBool False)] = Inr p"
    by (simp add: read_projection_def read_projection_field_def split_path_def p_def)
  from project_exclusion [OF p, of "[(''_id'', BInt32 7), (''a'', BBool True), (''b'', BNull)]"]
  obtain out where out: "project [(''_id'', BInt32 7), (''a'', BBool True), (''b'', BNull)]
      (Some [(''a'', BBool False)]) = Inr out" "path_get out [''a''] = None"
    and rest: "\<And>q. valid_path q \<Longrightarrow> apart [''a''] q \<Longrightarrow>
      path_get out q = path_get [(''_id'', BInt32 7), (''a'', BBool True), (''b'', BNull)] q"
    by (auto simp: p_def nul_def)
  from rest [of "[''b'']"] have "path_get out [''b''] = Some BNull"
    by (simp add: nul_def find_field_def)
  with out show ?thesis by blast
qed

text \<open>
  A specification that includes one field and excludes another is refused with
  FailedToParse, whatever the document; only \<open>_id\<close> may be switched off beside inclusions.
\<close>

theorem project_mixed_refused:
  assumes "read_projection spec = Inr p" and "included p \<noteq> []" and "excluded p \<noteq> []"
  shows "is_raise 9 (project src (Some spec))"
proof -
  have "spec \<noteq> []" using assms(1,2) by (auto simp: read_projection_def)
  with assms show ?thesis by (simp add: project_def error_simps)
qed

theorem project_mixed_refused_witness:
  "is_raise 9 (project [] (Some [(''a'', BBool True), (''b'', BInt32 0)]))"
proof -
  have "read_projection [(''a'', BBool True), (''b'', BInt32 0)]
      = Inr \<lparr>included = [[''a'']], excluded = [[''b'']], id_excluded = False\<rparr>"
    by (simp add: read_projection_def read_projection_field_def split_path_def safe_int_def)
  from project_mixed_refused [OF this] show ?thesis by simp
qed

end
