(* ===== verification/Pipeline.thy ===== *)
theory Pipeline
  imports Ordering Projection
begin

text \<open>
  Aggregation pipelines (src/chimera/translator/src/pipeline.cpp): the leading \<open>$match\<close> stages
  become one filter for SQL, the rest runs over the documents in memory. \<open>raw\<close> is libbson's
  buffer of a document, which \<open>value_equal\<close> compares.
\<close>

section \<open>The code\<close>

text \<open>\<open>view_of\<close>: defined only where the value is a document or an array.\<close>

definition view_of :: "bson \<Rightarrow> document outcome" where
  "view_of v = v_doc v"

definition sum_operand :: "document \<Rightarrow> bson \<Rightarrow> double outcome" where
  "sum_operand d operand = (case operand of
       BUtf8 s \<Rightarrow>
         if \<not> starts_char (CHR ''$'') s then Inr (d_of_int 0)
         else and_then (split_path (tl s)) (\<lambda>path.
           case path_get d path of
             None \<Rightarrow> Inr (d_of_int 0)
           | Some v \<Rightarrow> if \<not> value_is_numeric v then Inr (d_of_int 0) else value_as_double v)
     | _ \<Rightarrow>
         if value_is_numeric operand then value_as_double operand
         else Inl (not_implemented ''$sum accepts a number or a field path''))"

definition group_key :: "document \<Rightarrow> bson \<Rightarrow> bson outcome" where
  "group_key d spec = (case spec of
       BUtf8 s \<Rightarrow>
         if \<not> starts_char (CHR ''$'') s then Inr spec
         else and_then (split_path (tl s)) (\<lambda>path.
           Inr (case path_get d path of Some v \<Rightarrow> v | None \<Rightarrow> BNull))
     | BDocument _ \<Rightarrow>
         Inl (not_implemented ''$group _id must be null, a constant, or a single field path'')
     | _ \<Rightarrow> Inr spec)"

definition read_accumulator :: "string \<times> bson \<Rightarrow> (string \<times> bson) outcome" where
  "read_accumulator field =
     and_then (view_of (snd field)) (\<lambda>inner.
       if \<not> is_document (snd field) \<or> length inner \<noteq> 1 \<or> fst (hd inner) \<noteq> ''$sum''
       then Inl (not_implemented ''$group supports the $sum accumulator only'')
       else Inr (fst field, snd (hd inner)))"

text \<open>The slot search and the sums of one document: a new key opens a group of zeros.\<close>

fun add_to_group ::
  "(document \<Rightarrow> string) \<Rightarrow> bson \<Rightarrow> double list \<Rightarrow> (bson \<times> double list) list
     \<Rightarrow> (bson \<times> double list) list" where
  "add_to_group raw key xs [] = [(key, map2 d_add (replicate (length xs) (d_of_int 0)) xs)]"
| "add_to_group raw key xs ((k, totals) # groups) =
     (if value_equal raw k key then (k, map2 d_add totals xs) # groups
      else (k, totals) # add_to_group raw key xs groups)"

definition group_step ::
  "(document \<Rightarrow> string) \<Rightarrow> bson \<Rightarrow> (string \<times> bson) list \<Rightarrow> document
     \<Rightarrow> (bson \<times> double list) list \<Rightarrow> (bson \<times> double list) list outcome" where
  "group_step raw id_spec accumulators d groups =
     and_then (group_key d id_spec) (\<lambda>key.
     and_then (map_res (\<lambda>a. sum_operand d (snd a)) accumulators) (\<lambda>xs.
       Inr (add_to_group raw key xs groups)))"

definition group_document :: "(string \<times> bson) list \<Rightarrow> bson \<times> double list \<Rightarrow> document" where
  "group_document accumulators g =
     (''_id'', fst g) # map2 (\<lambda>a total. (fst a, BDouble total)) accumulators (snd g)"

definition apply_group :: "(document \<Rightarrow> string) \<Rightarrow> document list \<Rightarrow> document \<Rightarrow> document list outcome" where
  "apply_group raw documents spec =
     (if spec = [] \<or> fst (hd spec) \<noteq> ''_id''
      then Inl (failed_to_parse ''a $group specification must include an _id'')
      else and_then (map_res read_accumulator (tl spec)) (\<lambda>accumulators.
        and_then (fold_res (group_step raw (snd (hd spec)) accumulators) documents []) (\<lambda>groups.
          Inr (map (group_document accumulators) groups))))"

definition positive_count :: "bson \<Rightarrow> string \<Rightarrow> int64 outcome" where
  "positive_count v stage =
     (if \<not> value_is_numeric v then Inl (type_mismatch (stage @ '' takes a numeric argument''))
      else if d_less (as_double v) (d_of_int 0)
      then Inl (bad_value (stage @ '' must not be negative''))
      else (case d_to_int64 (as_double v) of None \<Rightarrow> Inl Undefined | Some n \<Rightarrow> Inr n))"

definition stage_operator :: "document \<Rightarrow> (string \<times> bson) outcome" where
  "stage_operator stage =
     (if length stage \<noteq> 1
      then Inl (failed_to_parse ''a pipeline stage specification object must contain exactly one field'')
      else Inr (hd stage))"

definition pipeline_stages :: "document option \<Rightarrow> document list outcome" where
  "pipeline_stages pipeline = (case pipeline of
       None \<Rightarrow> Inr []
     | Some elements \<Rightarrow> map_res (\<lambda>(index, element).
         if \<not> is_document element
         then Inl (type_mismatch ''each element of the aggregate pipeline must be a document'')
         else view_of element) elements)"

record pipeline =
  prefilter :: document
  stages :: "document list"

text \<open>The first loop of \<open>split_pipeline\<close>: the bodies of the leading matches, and what is left.\<close>

fun take_matches :: "document list \<Rightarrow> (document list \<times> document list) outcome" where
  "take_matches [] = Inr ([], [])"
| "take_matches (stage # rest) =
     and_then (stage_operator stage) (\<lambda>(name, body).
       if name \<noteq> ''$match'' then Inr ([], stage # rest)
       else if \<not> is_document body then Inl (type_mismatch ''$match takes a query document'')
       else and_then (view_of body) (\<lambda>view.
         and_then (take_matches rest) (\<lambda>(matches, left). Inr (view # matches, left))))"

definition merge_matches :: "document list \<Rightarrow> document" where
  "merge_matches matches =
     (if length matches = 1 then hd matches
      else if length matches > 1 then [(''$and'', BArray (make_array (map BDocument matches)))]
      else [])"

definition split_pipeline :: "document list \<Rightarrow> pipeline outcome" where
  "split_pipeline all_stages =
     and_then (take_matches all_stages) (\<lambda>(matches, left).
       Inr \<lparr>prefilter = merge_matches matches, stages = left\<rparr>)"

definition run_stage ::
  "(document \<Rightarrow> string) \<Rightarrow> document \<Rightarrow> document list \<Rightarrow> document list outcome" where
  "run_stage raw stage documents =
     and_then (stage_operator stage) (\<lambda>(name, body).
       if name = ''$match'' then
         Inl (not_implemented ''$match is supported only at the head of a pipeline'')
       else if name = ''$project'' then
         and_then (view_of body) (\<lambda>spec. map_res (\<lambda>d. project d (Some spec)) documents)
       else if name = ''$sort'' then
         and_then (view_of body) (\<lambda>spec. sort_documents documents (Some spec))
       else if name = ''$skip'' then
         and_then (positive_count body ''$skip'') (\<lambda>n.
           Inr (drop (min (length documents) (unat n)) documents))
       else if name = ''$limit'' then
         and_then (positive_count body ''$limit'') (\<lambda>n.
           Inr (take (min (length documents) (unat n)) documents))
       else if name = ''$group'' then
         and_then (view_of body) (\<lambda>spec. apply_group raw documents spec)
       else if name = ''$count'' then
         (case body of
            BUtf8 field \<Rightarrow> Inr [[(c_str field, BInt64 (word_of_nat (length documents)))]]
          | _ \<Rightarrow> Inl (type_mismatch ''$count takes a field name''))
       else Inl (not_implemented (''unsupported aggregation stage: '' @ name)))"

definition run_stages ::
  "(document \<Rightarrow> string) \<Rightarrow> document list \<Rightarrow> document list \<Rightarrow> document list outcome" where
  "run_stages raw documents sts = fold_res (run_stage raw) sts documents"

section \<open>Splitting\<close>

definition match_stage :: "document \<Rightarrow> document" where
  "match_stage m = [(''$match'', BDocument m)]"

definition starts_with_match :: "document list \<Rightarrow> bool" where
  "starts_with_match sts \<longleftrightarrow> (case sts of (f # _) # _ \<Rightarrow> fst f = ''$match'' | _ \<Rightarrow> False)"

lemma stage_operator_Inr: "stage_operator s = Inr f \<longleftrightarrow> s = [f]"
  by (cases s rule: list.exhaust; cases "tl s") (auto simp: stage_operator_def)

lemma take_matches_Inr:
  "take_matches sts = Inr (ms, left) \<Longrightarrow>
    sts = map match_stage ms @ left \<and> \<not> starts_with_match left
    \<and> (left \<noteq> [] \<longrightarrow> length (hd left) = 1)"
proof (induction sts arbitrary: ms)
  case (Cons s sts)
  from Cons.prems obtain name body where s: "s = [(name, body)]"
    by (auto simp: and_then_Inr_iff stage_operator_Inr split: prod.splits)
  show ?case
  proof (cases "name = ''$match''")
    case True
    with Cons.prems s obtain view ms' where "body = BDocument view" "take_matches sts = Inr (ms', left)"
        "ms = view # ms'"
      by (cases body) (auto simp: and_then_Inr_iff stage_operator_def view_of_def split: prod.splits)
    with Cons.IH s True show ?thesis by (auto simp: match_stage_def)
  next
    case False
    with Cons.prems s show ?thesis
      by (auto simp: and_then_Inr_iff stage_operator_def starts_with_match_def)
  qed
qed (auto simp: starts_with_match_def)

lemma take_matches_total:
  "\<not> starts_with_match left \<Longrightarrow> (left \<noteq> [] \<longrightarrow> length (hd left) = 1) \<Longrightarrow>
    take_matches (map match_stage ms @ left) = Inr (ms, left)"
proof (induction ms)
  case Nil
  show ?case
  proof (cases left)
    case (Cons s rest)
    with Nil obtain name body where "s = [(name, body)]" by (cases s; cases "tl s") auto
    with Cons Nil show ?thesis by (simp add: stage_operator_def starts_with_match_def)
  qed simp
next
  case (Cons m ms)
  then show ?case by (simp add: match_stage_def stage_operator_def view_of_def)
qed

section \<open>Groups\<close>

text \<open>
  What \<open>$group\<close> should compute, without slots: each group sums, in order, the operands of the
  documents whose key equals the group's.
\<close>

definition keyed_sum ::
  "(document \<Rightarrow> string) \<Rightarrow> bson \<Rightarrow> nat \<Rightarrow> (bson \<times> double list) list \<Rightarrow> double list" where
  "keyed_sum raw k n rows =
     foldl (\<lambda>acc row. map2 d_add acc (snd row)) (replicate n (d_of_int 0))
       (filter (\<lambda>row. value_equal raw k (fst row)) rows)"

definition groups_of ::
  "(document \<Rightarrow> string) \<Rightarrow> (bson \<times> double list) list \<Rightarrow> (bson \<times> double list) list" where
  "groups_of raw rows = foldl (\<lambda>gs row. add_to_group raw (fst row) (snd row) gs) [] rows"

definition group_rows ::
  "bson \<Rightarrow> (string \<times> bson) list \<Rightarrow> document list \<Rightarrow> (bson \<times> double list) list outcome" where
  "group_rows id_spec accumulators documents =
     map_res (\<lambda>d. and_then (group_key d id_spec) (\<lambda>key.
       and_then (map_res (\<lambda>a. sum_operand d (snd a)) accumulators) (\<lambda>xs. Inr (key, xs)))) documents"

lemma fold_group_step:
  "group_rows id_spec accs ds = Inr rows \<Longrightarrow>
    fold_res (group_step raw id_spec accs) ds gs
      = Inr (foldl (\<lambda>gs row. add_to_group raw (fst row) (snd row) gs) gs rows)"
proof (induction ds arbitrary: gs rows)
  case (Cons d ds)
  then obtain key xs rows' where "group_key d id_spec = Inr key"
      "map_res (\<lambda>a. sum_operand d (snd a)) accs = Inr xs" "rows = (key, xs) # rows'"
      "group_rows id_spec accs ds = Inr rows'"
    by (auto simp: group_rows_def and_then_Inr_iff)
  with Cons.IH show ?case by (simp add: group_step_def)
qed (simp add: group_rows_def)

lemma add_to_group_keys:
  "map fst (add_to_group raw key xs gs) =
     map fst gs @ (if list_ex (\<lambda>g. value_equal raw (fst g) key) gs then [] else [key])"
  by (induction gs) auto

text \<open>
  The same as a partition of the rows: the first row opens a group and takes with it all rows with an
  equal key; the others are grouped among themselves.
\<close>

function partition_rows ::
  "(document \<Rightarrow> string) \<Rightarrow> (bson \<times> double list) list \<Rightarrow> (bson \<times> double list) list" where
  "partition_rows raw [] = []"
| "partition_rows raw ((key, xs) # rows) =
     (key, foldl (map2 d_add) (replicate (length xs) (d_of_int 0))
             (xs # map snd (filter (\<lambda>row. value_equal raw key (fst row)) rows)))
     # partition_rows raw (filter (\<lambda>row. \<not> value_equal raw key (fst row)) rows)"
  by pat_completeness auto
termination
  by (relation "measure (\<lambda>(raw, rows). length rows)") (auto simp: less_Suc_eq_le)

lemma fold_first_group:
  "foldl (\<lambda>gs row. add_to_group raw (fst row) (snd row) gs) ((key, totals) # gs) rows =
     (key, foldl (map2 d_add) totals (map snd (filter (\<lambda>row. value_equal raw key (fst row)) rows)))
     # foldl (\<lambda>gs row. add_to_group raw (fst row) (snd row) gs) gs
         (filter (\<lambda>row. \<not> value_equal raw key (fst row)) rows)"
  by (induction rows arbitrary: totals gs) simp_all

lemma groups_of_partition: "groups_of raw rows = partition_rows raw rows"
  by (induction raw rows rule: partition_rows.induct) (simp_all add: groups_of_def fold_first_group)

text \<open>The invariant of the loop: distinct keys, and the right sums so far.\<close>

definition grouped ::
  "(document \<Rightarrow> string) \<Rightarrow> nat \<Rightarrow> (bson \<times> double list) list \<Rightarrow> (bson \<times> double list) list \<Rightarrow> bool" where
  "grouped raw n rows gs \<longleftrightarrow>
     sorted_wrt (\<lambda>g h. \<not> value_equal raw (fst g) (fst h)) gs
     \<and> list_all (\<lambda>g. self_equal (fst g) \<longrightarrow> snd g = keyed_sum raw (fst g) n rows) gs
     \<and> list_all (\<lambda>row. self_equal (fst row) \<longrightarrow> list_ex (\<lambda>g. value_equal raw (fst g) (fst row)) gs) rows"

lemma value_equal_self: "value_equal raw a b \<Longrightarrow> self_equal a \<and> self_equal b"
  using value_equal_trans [of raw a b a] value_equal_trans [of raw b a b] value_equal_sym [of raw a b]
  by (auto simp: value_equal_refl)

lemma value_equal_euclid: "value_equal raw a k \<Longrightarrow> value_equal raw b k \<Longrightarrow> value_equal raw a b"
  using value_equal_trans [of raw a k b] value_equal_sym [of raw k b] by simp

lemma add_to_group_new:
  "\<not> list_ex (\<lambda>g. value_equal raw (fst g) key) gs \<Longrightarrow>
    add_to_group raw key xs gs = gs @ [(key, map2 d_add (replicate (length xs) (d_of_int 0)) xs)]"
  by (induction gs) auto

lemma add_to_group_found:
  "sorted_wrt (\<lambda>g h. \<not> value_equal raw (fst g) (fst h)) gs \<Longrightarrow>
    list_ex (\<lambda>g. value_equal raw (fst g) key) gs \<Longrightarrow>
    add_to_group raw key xs gs =
      map (\<lambda>g. if value_equal raw (fst g) key then (fst g, map2 d_add (snd g) xs) else g) gs"
proof (induction gs)
  case (Cons g gs)
  have "\<not> value_equal raw (fst h) key" if "value_equal raw (fst g) key" "h \<in> set gs" for h
    using that Cons.prems(1) value_equal_euclid [of raw "fst g" key "fst h"] by auto
  then have "map (\<lambda>g. if value_equal raw (fst g) key then (fst g, map2 d_add (snd g) xs) else g) gs = gs"
    if "value_equal raw (fst g) key"
    using that by (intro map_idI) auto
  with Cons show ?case by (cases g) auto
qed simp

lemma keyed_sum_snoc:
  "keyed_sum raw k n (rows @ [(key, xs)]) =
     (if value_equal raw k key then map2 d_add (keyed_sum raw k n rows) xs else keyed_sum raw k n rows)"
  by (simp add: keyed_sum_def)

lemma keyed_sum_none:
  "list_all (\<lambda>row. \<not> value_equal raw k (fst row)) rows \<Longrightarrow> keyed_sum raw k n rows = replicate n (d_of_int 0)"
  by (simp add: keyed_sum_def list_all_iff filter_empty_conv [THEN iffD2])

lemma grouped_step:
  assumes g: "grouped raw (length xs) rows gs"
  shows "grouped raw (length xs) (rows @ [(key, xs)]) (add_to_group raw key xs gs)"
proof (cases "list_ex (\<lambda>g. value_equal raw (fst g) key) gs")
  case True
  have d: "sorted_wrt (\<lambda>g h. \<not> value_equal raw (fst g) (fst h)) gs" using g by (simp add: grouped_def)
  note e = add_to_group_found [OF d True, of xs]
  have fst: "fst (if b then (fst g, t) else g) = fst g" for b t and g :: "bson \<times> double list" by simp
  have "sorted_wrt (\<lambda>g h. \<not> value_equal raw (fst g) (fst h)) (add_to_group raw key xs gs)"
    unfolding e sorted_wrt_map fst by (rule d)
  moreover have "list_all (\<lambda>g. self_equal (fst g) \<longrightarrow>
      snd g = keyed_sum raw (fst g) (length xs) (rows @ [(key, xs)])) (add_to_group raw key xs gs)"
    unfolding e using g by (auto simp: grouped_def list_all_iff keyed_sum_snoc)
  moreover have "list_all (\<lambda>row. self_equal (fst row) \<longrightarrow>
      list_ex (\<lambda>g. value_equal raw (fst g) (fst row)) (add_to_group raw key xs gs)) (rows @ [(key, xs)])"
  proof -
    have ex: "list_ex (\<lambda>g. value_equal raw (fst g) k) (add_to_group raw key xs gs)
        \<longleftrightarrow> list_ex (\<lambda>g. value_equal raw (fst g) k) gs" for k
      unfolding e by (induction gs) auto
    show ?thesis unfolding ex using g True by (simp add: grouped_def)
  qed
  ultimately show ?thesis by (simp only: grouped_def)
next
  case False
  note e = add_to_group_new [OF False, of xs]
  have none: "list_all (\<lambda>row. \<not> value_equal raw key (fst row)) rows"
    unfolding list_all_iff
  proof
    fix row assume row: "row \<in> set rows"
    show "\<not> value_equal raw key (fst row)"
    proof
      assume k: "value_equal raw key (fst row)"
      then have "list_ex (\<lambda>g. value_equal raw (fst g) (fst row)) gs"
        using g row value_equal_self [OF k] by (auto simp: grouped_def list_all_iff)
      then show False using False k value_equal_euclid [of raw _ "fst row" key]
        by (auto simp: list_ex_iff)
    qed
  qed
  have old: "snd g = keyed_sum raw (fst g) (length xs) (rows @ [(key, xs)])"
    if "g \<in> set gs" "self_equal (fst g)" for g
    using that g False by (auto simp: grouped_def list_all_iff keyed_sum_snoc list_ex_iff)
  have "self_equal key \<Longrightarrow> value_equal raw key key" by (simp add: value_equal_refl)
  with g False none old show ?thesis
    unfolding e grouped_def by (auto simp: sorted_wrt_append list_all_iff list_ex_iff keyed_sum_snoc keyed_sum_none)
qed

lemma groups_of_grouped:
  "list_all (\<lambda>row. length (snd row) = n) rows \<Longrightarrow> grouped raw n rows (groups_of raw rows)"
proof (induction rows rule: rev_induct)
  case (snoc row rows)
  obtain key xs where row: "row = (key, xs)" by (cases row)
  with snoc have "length xs = n" "grouped raw n rows (groups_of raw rows)" by auto
  with grouped_step [of raw xs rows "groups_of raw rows" key] row show ?case by (simp add: groups_of_def)
qed (simp add: grouped_def groups_of_def)

lemma group_rows_length:
  "group_rows id_spec accs ds = Inr rows \<Longrightarrow> list_all (\<lambda>row. length (snd row) = length accs) rows"
proof (induction ds arbitrary: rows)
  case (Cons d ds)
  then show ?case by (auto simp: group_rows_def and_then_Inr_iff dest: map_res_Inr_length)
qed (simp add: group_rows_def)

section \<open>Counts\<close>

lemma positive_count_int:
  assumes "value_is_numeric v" and "as_double v = d_of_int (int n)" and "safe_int (int n)"
  shows "\<exists>w. positive_count v stage = Inr w \<and> unat w = n"
proof -
  have n: "n < 2 ^ 53" using assms(3) by (simp add: safe_int_def)
  then have "n < 2 ^ 64" by simp
  then have "unat (word_of_int (int n) :: int64) = n"
    by (simp add: unat_of_nat take_bit_nat_eq_self)
  then show ?thesis
    using assms by (simp add: positive_count_def d_to_int64_of_int safe_int_def)
qed

section \<open>Properties\<close>

text \<open>
  C24. Splitting loses no stage: it succeeds exactly when the pipeline is a run of \<open>$match\<close>
  stages followed by stages that do not start with another one. The filter is then empty for no match,
  the body of the match for one, and for several the \<open>$and\<close> of all their bodies in order; the stages
  left are those that follow.
\<close>

theorem split_pipeline_iff:
  "split_pipeline sts = Inr p \<longleftrightarrow>
     (\<exists>ms. sts = map match_stage ms @ stages p \<and> \<not> starts_with_match (stages p)
        \<and> (stages p \<noteq> [] \<longrightarrow> length (hd (stages p)) = 1)
        \<and> prefilter p = (case ms of [] \<Rightarrow> [] | [m] \<Rightarrow> m
            | _ \<Rightarrow> [(''$and'', BArray (make_array (map BDocument ms)))]))"
proof -
  have merge: "merge_matches ms = (case ms of [] \<Rightarrow> [] | [m] \<Rightarrow> m
      | _ \<Rightarrow> [(''$and'', BArray (make_array (map BDocument ms)))])" for ms
    by (auto simp: merge_matches_def split: list.split)
  have "split_pipeline sts = Inr p \<longleftrightarrow> (\<exists>ms. take_matches sts = Inr (ms, stages p) \<and> prefilter p = merge_matches ms)"
    by (cases p) (auto simp: split_pipeline_def and_then_Inr_iff split: prod.splits)
  also have "\<dots> \<longleftrightarrow> (\<exists>ms. sts = map match_stage ms @ stages p \<and> \<not> starts_with_match (stages p)
        \<and> (stages p \<noteq> [] \<longrightarrow> length (hd (stages p)) = 1) \<and> prefilter p = merge_matches ms)"
    using take_matches_Inr [of sts _ "stages p"] take_matches_total [of "stages p"] by fast
  finally show ?thesis unfolding merge .
qed

theorem split_pipeline_iff_witness:
  "split_pipeline [match_stage [(''a'', BNull)], match_stage [(''b'', BNull)], [(''$count'', BUtf8 ''n'')]] =
     Inr \<lparr>prefilter = [(''$and'', BArray (make_array [BDocument [(''a'', BNull)], BDocument [(''b'', BNull)]]))],
          stages = [[(''$count'', BUtf8 ''n'')]]\<rparr>"
proof -
  let ?p = "\<lparr>prefilter = [(''$and'', BArray (make_array [BDocument [(''a'', BNull)], BDocument [(''b'', BNull)]]))],
          stages = [[(''$count'', BUtf8 ''n'')]]\<rparr>"
  show ?thesis
    by (rule split_pipeline_iff [of _ ?p, THEN iffD2])
      (intro exI [of _ "[[(''a'', BNull)], [(''b'', BNull)]]"], simp add: starts_with_match_def)
qed

text \<open>
  C25. \<open>$group\<close> partitions the documents by key and gives one document for each part and no
  others, in order of first appearance: no documents give no groups; the first document opens a group
  under its own key, whose totals are the sums, in document order, of its operands and those of every
  later document with an equal key; the remaining documents are grouped in the same way. So no two
  groups have equal keys, every document's key has a group, and each total is over exactly the
  documents whose key equals the group's. (A key that equals nothing, itself included, as a NaN does,
  makes a group of its document alone.)
\<close>

theorem group_totals_correct:
  assumes "spec = (''_id'', id_spec) # accs" and "map_res read_accumulator accs = Inr accumulators"
    and "group_rows id_spec accumulators ds = Inr rows"
  shows "apply_group raw ds spec = Inr (map (group_document accumulators) (partition_rows raw rows))
    \<and> grouped raw (length accumulators) rows (partition_rows raw rows)"
proof -
  have "apply_group raw ds spec = Inr (map (group_document accumulators) (groups_of raw rows))"
    using assms fold_group_step [OF assms(3), of raw "[]"] by (simp add: apply_group_def groups_of_def)
  moreover have "grouped raw (length accumulators) rows (groups_of raw rows)"
    by (rule groups_of_grouped) (rule group_rows_length [OF assms(3)])
  ultimately show ?thesis by (simp add: groups_of_partition)
qed

theorem group_totals_correct_witness:
  "apply_group (\<lambda>_. []) [[(''k'', BBool True)], [], [(''k'', BBool True)]]
      [(''_id'', BUtf8 ''$k''), (''n'', BDocument [(''$sum'', BInt32 1)])]
      = Inr (map (group_document [(''n'', BInt32 1)]) (partition_rows (\<lambda>_. [])
          [(BBool True, [d_of_int 1]), (BNull, [d_of_int 1]), (BBool True, [d_of_int 1])]))
    \<and> grouped (\<lambda>_. []) (length [(''n'', BInt32 1)])
        [(BBool True, [d_of_int 1]), (BNull, [d_of_int 1]), (BBool True, [d_of_int 1])]
        (partition_rows (\<lambda>_. [])
          [(BBool True, [d_of_int 1]), (BNull, [d_of_int 1]), (BBool True, [d_of_int 1])])"
  by (rule group_totals_correct [of _ "BUtf8 ''$k''" "[(''n'', BDocument [(''$sum'', BInt32 1)])]"])
    (simp_all add: read_accumulator_def view_of_def group_rows_def group_key_def sum_operand_def
      split_path_def find_field_def nul_def)

text \<open>
  \<open>$skip\<close> by n and then \<open>$limit\<close> to m hands on the documents n+1 to n+m, in order, whichever
  numeric types the counts have.
\<close>

theorem skip_then_limit:
  assumes "value_is_numeric a" "as_double a = d_of_int (int n)" "safe_int (int n)"
    and "value_is_numeric b" "as_double b = d_of_int (int m)" "safe_int (int m)"
  shows "run_stages raw ds [[(''$skip'', a)], [(''$limit'', b)]] = Inr (take m (drop n ds))"
proof -
  obtain v w where "positive_count a ''$skip'' = Inr v" "unat v = n"
      "positive_count b ''$limit'' = Inr w" "unat w = m"
    using positive_count_int assms by blast
  then show ?thesis
    by (simp add: run_stages_def run_stage_def stage_operator_def min_def)
qed

theorem skip_then_limit_witness:
  "run_stages (\<lambda>_. []) [[], [(''a'', BNull)], [(''b'', BNull)]] [[(''$skip'', BInt32 1)], [(''$limit'', BInt64 1)]]
     = Inr (take 1 (drop 1 [[], [(''a'', BNull)], [(''b'', BNull)]]))"
  by (rule skip_then_limit) (simp_all add: safe_int_def)

text \<open>
  A stage outside the supported set stops the pipeline with NotImplemented wherever it
  stands, provided the stages before it succeed: no stage is dropped silently.
\<close>

theorem unknown_stage_refused:
  assumes "run_stages raw ds before = Inr ds'"
    and "name \<notin> {''$project'', ''$sort'', ''$skip'', ''$limit'', ''$group'', ''$count''}"
  shows "is_raise 238 (run_stages raw ds (before @ [(name, body)] # rest))"
  using assms
  by (simp add: run_stages_def fold_res_append run_stage_def stage_operator_def error_simps)

theorem unknown_stage_refused_witness:
  "is_raise 238 (run_stages (\<lambda>_. []) [] ([] @ [(''$lookup'', BNull)] # []))"
  by (rule unknown_stage_refused [of _ _ _ "[]"]) (simp_all add: run_stages_def)

text \<open>
  The body of \<open>$project\<close>, \<open>$sort\<close> and \<open>$group\<close> and the accumulators of \<open>$group\<close> are read as
  documents before their type is looked at, so a scalar there is undefined behaviour, not an
  error; and a \<open>$limit\<close> above every int64 is an out-of-range cast.
\<close>

theorem unchecked_stage_bodies:
  "run_stages raw ds [[(''$project'', BBool b)]] = Inl Undefined
   \<and> run_stages raw ds [[(''$sort'', BBool b)]] = Inl Undefined
   \<and> run_stages raw ds [[(''$group'', BBool b)]] = Inl Undefined
   \<and> run_stages raw ds [[(''$group'', BDocument [(''_id'', v), (''n'', BBool b)])]] = Inl Undefined
   \<and> run_stages raw ds [[(''$limit'', BDouble 0x43E0000000000000)]] = Inl Undefined"
proof -
  have "\<not> d_less 0x43E0000000000000 (d_of_int 0)" by code_simp
  moreover have "d_to_int64 0x43E0000000000000 = None" by code_simp
  ultimately show ?thesis
    by (simp add: run_stages_def run_stage_def stage_operator_def view_of_def apply_group_def
        read_accumulator_def positive_count_def)
qed

end
