(* ===== verification/Wire.thy ===== *)
theory Wire
  imports Bytes Bson
begin

text \<open>
  The wire protocol (src/chimera/plugin/chimera_mongo/wire.cc): framing of messages on a socket,
  the bounds-checked cursor over a message, OP_MSG and OP_QUERY requests, and replies. Bytes are
  characters. libbson's \<open>bson_new_from_data\<close> and \<open>bson_get_data\<close> are parameters
  (\<open>new_doc\<close>, \<open>raw\<close>). A read outside the buffer is \<open>Undefined\<close>, so that the bounds checks
  are visible in what is proved.
\<close>

unbundle bit_operations_syntax

section \<open>Integers on the wire\<close>

definition kOpReply :: int32 where "kOpReply = 1"
definition kOpQuery :: int32 where "kOpQuery = 2004"
definition kOpMsg :: int32 where "kOpMsg = 2013"
definition kHeaderBytes :: nat where "kHeaderBytes = 16"
definition kMaxMessageBytes :: int where "kMaxMessageBytes = 48000000"

definition read_int32 :: "string \<Rightarrow> int32 outcome" where
  "read_int32 p = (case p of
       a # b # c # d # _ \<Rightarrow>
         Inr (of_char a OR push_bit 8 (of_char b) OR push_bit 16 (of_char c) OR push_bit 24 (of_char d))
     | _ \<Rightarrow> Inl Undefined)"

definition low_byte :: "int32 \<Rightarrow> char" where
  "low_byte u = char_of (unat u)"

definition append_int32 :: "string \<Rightarrow> int32 \<Rightarrow> string" where
  "append_int32 out v =
     out @ [low_byte v, low_byte (drop_bit 8 v), low_byte (drop_bit 16 v), low_byte (drop_bit 24 v)]"

definition append_int64 :: "string \<Rightarrow> int64 \<Rightarrow> string" where
  "append_int64 out v = append_int32 (append_int32 out (ucast v)) (ucast (drop_bit 32 v))"

section \<open>The socket\<close>

text \<open>
  What successive \<open>recv\<close> calls meet: bytes (of which a call takes at most what it asked for),
  a signal, or an error. Past the last event the peer has closed.
\<close>

datatype recv = Data string | Interrupted | Failed

type_synonym socket = "recv list"

function read_exact :: "nat \<Rightarrow> string \<Rightarrow> socket \<Rightarrow> (string \<times> socket) option" where
  "read_exact want buf events =
     (if want \<le> length buf then Some (buf, events)
      else case events of
        [] \<Rightarrow> None
      | Interrupted # rest \<Rightarrow> read_exact want buf rest
      | Failed # rest \<Rightarrow> None
      | Data s # rest \<Rightarrow>
          let n = min (length s) (want - length buf)
          in if n = 0 then None
             else read_exact want (buf @ take n s)
                    (if n < length s then Data (drop n s) # rest else rest))"
  by pat_completeness auto
termination
  by (relation "measures [\<lambda>(want, buf, events). length events, \<lambda>(want, buf, events). want - length buf]")
    auto

declare read_exact.simps [simp del]

text \<open>\<open>read_message\<close>: None when the peer closed or the connection failed.\<close>

definition read_message :: "socket \<Rightarrow> (string \<times> socket) option outcome" where
  "read_message events = (case read_exact kHeaderBytes [] events of
       None \<Rightarrow> Inr None
     | Some (header, rest) \<Rightarrow>
         and_then (read_int32 header) (\<lambda>len.
           if sint len < int kHeaderBytes \<or> kMaxMessageBytes < sint len
           then Inl (failed_to_parse (''message length '' @ int_text (sint len) @ '' is out of range''))
           else if int kHeaderBytes < sint len
           then Inr (read_exact (nat (sint len)) header rest)
           else Inr (Some (header, rest))))"

section \<open>The cursor\<close>

text \<open>The offset, and the bytes from there to the end of the message.\<close>

type_synonym cursor = "nat \<times> string"

definition move :: "nat \<Rightarrow> cursor \<Rightarrow> cursor" where
  "move n c = (fst c + n, drop n (snd c))"

definition require :: "nat \<Rightarrow> cursor \<Rightarrow> unit outcome" where
  "require n c = throw_if (length (snd c) < n) (failed_to_parse ''wire message truncated'')"

definition int32_at_cursor :: "cursor \<Rightarrow> (int32 \<times> cursor) outcome" where
  "int32_at_cursor c =
     and_then (require 4 c) (\<lambda>_.
     and_then (read_int32 (snd c)) (\<lambda>v. Inr (v, move 4 c)))"

definition byte_at_cursor :: "cursor \<Rightarrow> (nat \<times> cursor) outcome" where
  "byte_at_cursor c =
     and_then (require 1 c) (\<lambda>_. case snd c of
       [] \<Rightarrow> Inl Undefined
     | b # _ \<Rightarrow> Inr (of_char b, move 1 c))"

definition cstring :: "cursor \<Rightarrow> (string \<times> cursor) outcome" where
  "cstring c =
     (let s = takeWhile (\<lambda>x. x \<noteq> nul) (snd c)
      in if length (snd c) \<le> length s
         then Inl (failed_to_parse ''unterminated string in wire message'')
         else Inr (s, move (length s + 1) c))"

text \<open>\<open>bson_new_from_data(p, n)\<close> reads n bytes from p.\<close>

definition new_from_data :: "(string \<Rightarrow> document option) \<Rightarrow> string \<Rightarrow> nat \<Rightarrow> document option outcome" where
  "new_from_data new_doc p n = (if length p < n then Inl Undefined else Inr (new_doc (take n p)))"

definition document_at_cursor ::
  "(string \<Rightarrow> document option) \<Rightarrow> cursor \<Rightarrow> (document \<times> cursor) outcome" where
  "document_at_cursor new_doc c =
     and_then (require 4 c) (\<lambda>_.
     and_then (read_int32 (snd c)) (\<lambda>len.
       if sint len < 5 then Inl (failed_to_parse ''BSON document length is impossible'')
       else
       and_then (require (nat (sint len)) c) (\<lambda>_.
       and_then (new_from_data new_doc (snd c) (nat (sint len))) (\<lambda>doc. case doc of
           None \<Rightarrow> Inl (failed_to_parse ''malformed BSON document in wire message'')
         | Some d \<Rightarrow> Inr (d, move (nat (sint len)) c)))))"

definition trim :: "nat \<Rightarrow> cursor \<Rightarrow> cursor outcome" where
  "trim n c =
     (if length (snd c) < n then Inl (failed_to_parse ''wire message is shorter than it claims'')
      else Inr (fst c, take (length (snd c) - n) (snd c)))"

section \<open>Requests\<close>

record header =
  message_length :: int32
  request_id :: int32
  response_to :: int32
  op_code :: int32

record request =
  req_header :: header
  req_body :: document
  database :: string
  legacy_query :: bool

definition parse_header :: "string \<Rightarrow> header outcome" where
  "parse_header msg =
     and_then (read_int32 msg) (\<lambda>a.
     and_then (read_int32 (drop 4 msg)) (\<lambda>b.
     and_then (read_int32 (drop 8 msg)) (\<lambda>c.
     and_then (read_int32 (drop 12 msg)) (\<lambda>d.
       Inr \<lparr>message_length = a, request_id = b, response_to = c, op_code = d\<rparr>))))"

definition sequence_array :: "document list \<Rightarrow> bson" where
  "sequence_array ds = BArray (make_array (map BDocument ds))"

definition fold_in_sequences :: "document \<Rightarrow> (string \<times> document list) list \<Rightarrow> document" where
  "fold_in_sequences body sequences = body @ map (\<lambda>(name, ds). (name, sequence_array ds)) sequences"

text \<open>The sections read so far: \<open>req.body\<close> once there is one, and the sequences.\<close>

record sections =
  body_section :: "document option"
  sequences :: "(string \<times> document list) list"

function read_documents ::
  "(string \<Rightarrow> document option) \<Rightarrow> nat \<Rightarrow> cursor \<Rightarrow> (document list \<times> cursor) outcome" where
  "read_documents new_doc section_end c =
     (if fst c < section_end then
        and_then (document_at_cursor new_doc c) (\<lambda>(d, c1).
        and_then (read_documents new_doc section_end c1) (\<lambda>(ds, c2). Inr (d # ds, c2)))
      else Inr ([], c))"
  by pat_completeness auto

lemma left_require: "require n c = Inr u \<Longrightarrow> n \<le> length (snd c)"
  by (simp add: require_def)

lemma read_int32_enough: "(\<exists>v. read_int32 p = Inr v) \<longleftrightarrow> 4 \<le> length p"
proof -
  have "4 \<le> length p \<longleftrightarrow> (\<exists>a b c d t. p = a # b # c # d # t)"
    by (fastforce simp: numeral_eq_Suc Suc_le_length_iff)
  then show ?thesis by (auto simp: read_int32_def split: list.splits)
qed

lemma document_at_cursor_Inr:
  "document_at_cursor new_doc c = Inr (d, c') \<longleftrightarrow>
    (\<exists>len. read_int32 (snd c) = Inr len \<and> 5 \<le> sint len \<and> nat (sint len) \<le> length (snd c)
       \<and> new_doc (take (nat (sint len)) (snd c)) = Some d \<and> c' = move (nat (sint len)) c)"
proof (cases "read_int32 (snd c)")
  case (Inl e)
  then show ?thesis by (simp add: document_at_cursor_def and_then_Inr_iff)
next
  case (Inr len)
  then have "\<not> length (snd c) < 4" using read_int32_enough [of "snd c"] by auto
  with Inr have e: "document_at_cursor new_doc c =
      (if sint len < 5 then Inl (failed_to_parse ''BSON document length is impossible'')
       else and_then (require (nat (sint len)) c) (\<lambda>_.
       and_then (new_from_data new_doc (snd c) (nat (sint len))) (\<lambda>doc. case doc of
           None \<Rightarrow> Inl (failed_to_parse ''malformed BSON document in wire message'')
         | Some d \<Rightarrow> Inr (d, move (nat (sint len)) c))))"
    by (simp add: document_at_cursor_def require_def)
  show ?thesis
  proof (cases "5 \<le> sint len \<and> nat (sint len) \<le> length (snd c)")
    case True
    then show ?thesis unfolding e Inr
      by (cases "new_doc (take (nat (sint len)) (snd c))") (auto simp: require_def new_from_data_def)
  next
    case False
    then show ?thesis unfolding e Inr by (auto simp: require_def)
  qed
qed

lemma left_document:
  assumes "document_at_cursor new_doc c = Inr (d, c')"
  shows "length (snd c') < length (snd c)"
proof -
  from assms obtain len :: int32 where "5 \<le> sint len" and "nat (sint len) \<le> length (snd c)"
    and "c' = move (nat (sint len)) c" unfolding document_at_cursor_Inr by blast
  then show ?thesis by (simp add: move_def)
qed

termination read_documents
  by (relation "measure (\<lambda>(_, _, c). length (snd c))") (auto dest: left_document)

declare read_documents.simps [simp del]

definition read_sequence ::
  "(string \<Rightarrow> document option) \<Rightarrow> sections \<Rightarrow> cursor \<Rightarrow> (sections \<times> cursor) outcome" where
  "read_sequence new_doc st c =
     and_then (int32_at_cursor c) (\<lambda>(section_size, c1).
       if sint section_size < 5 then Inl (failed_to_parse ''OP_MSG sequence length is impossible'')
       else let section_end = fst c + nat (sint section_size) in
       and_then (cstring c1) (\<lambda>(identifier, c2).
       and_then (read_documents new_doc section_end c2) (\<lambda>(documents, c3).
         if fst c3 \<noteq> section_end
         then Inl (failed_to_parse ''OP_MSG sequence overruns its declared length'')
         else Inr (st\<lparr>sequences := sequences st @ [(identifier, documents)]\<rparr>, c3))))"

definition read_section ::
  "(string \<Rightarrow> document option) \<Rightarrow> sections \<Rightarrow> cursor \<Rightarrow> (sections \<times> cursor) outcome" where
  "read_section new_doc st c =
     and_then (byte_at_cursor c) (\<lambda>(kind, c1).
       if kind = 0 then
         if body_section st \<noteq> None
         then Inl (failed_to_parse ''OP_MSG carries more than one body section'')
         else and_then (document_at_cursor new_doc c1) (\<lambda>(d, c2).
           Inr (st\<lparr>body_section := Some d\<rparr>, c2))
       else if kind \<noteq> 1
       then Inl (not_implemented (''OP_MSG section kind '' @ nat_text kind @ '' is unknown''))
       else read_sequence new_doc st c1)"

function read_sections ::
  "(string \<Rightarrow> document option) \<Rightarrow> sections \<Rightarrow> cursor \<Rightarrow> sections outcome" where
  "read_sections new_doc st c =
     (if snd c = [] then Inr st
      else and_then (read_section new_doc st c) (\<lambda>(st1, c1). read_sections new_doc st1 c1))"
  by pat_completeness auto

lemma left_documents:
  "read_documents new_doc e c = Inr (ds, c') \<Longrightarrow> length (snd c') \<le> length (snd c)"
proof (induction new_doc e c arbitrary: ds c' rule: read_documents.induct)
  case (1 new_doc e c)
  show ?case
  proof (cases "fst c < e")
    case True
    with 1(2) obtain d c1 es where d: "document_at_cursor new_doc c = Inr (d, c1)"
      and r: "read_documents new_doc e c1 = Inr (es, c')"
      by (subst (asm) read_documents.simps) (auto simp: and_then_Inr_iff)
    from 1(1) [OF True d refl r] left_document [OF d] show ?thesis by simp
  next
    case False
    with 1(2) show ?thesis by (subst (asm) read_documents.simps) simp
  qed
qed

lemma left_move [simp]: "length (snd (move n c)) = length (snd c) - n"
  by (simp add: move_def)

lemma left_int32: "int32_at_cursor c = Inr (v, c') \<Longrightarrow> length (snd c') \<le> length (snd c)"
  by (auto simp: int32_at_cursor_def and_then_Inr_iff)

lemma left_byte: "byte_at_cursor c = Inr (v, c') \<Longrightarrow> length (snd c') < length (snd c)"
  by (auto simp: byte_at_cursor_def and_then_Inr_iff split: list.splits)

lemma left_cstring: "cstring c = Inr (s, c') \<Longrightarrow> length (snd c') \<le> length (snd c)"
  by (auto simp: cstring_def Let_def split: if_splits)

lemma left_sequence: "read_sequence new_doc st c = Inr (st', c') \<Longrightarrow> length (snd c') \<le> length (snd c)"
  by (fastforce simp: read_sequence_def Let_def and_then_Inr_iff split: if_splits
      dest: left_int32 left_cstring left_documents)

lemma left_section: "read_section new_doc st c = Inr (st', c') \<Longrightarrow> length (snd c') < length (snd c)"
  by (fastforce simp: read_section_def and_then_Inr_iff split: if_splits
      dest: left_byte left_document left_sequence)

termination read_sections
  by (relation "measure (\<lambda>(_, _, c). length (snd c))") (auto dest: left_section)

declare read_sections.simps [simp del]

definition database_of :: "document \<Rightarrow> string" where
  "database_of body = (case path_get body [''$db''] of Some (BUtf8 s) \<Rightarrow> c_str s | _ \<Rightarrow> [])"

definition parse_op_msg ::
  "(string \<Rightarrow> document option) \<Rightarrow> header \<Rightarrow> cursor \<Rightarrow> request outcome" where
  "parse_op_msg new_doc h c =
     and_then (int32_at_cursor c) (\<lambda>(flags, c1).
       if flags AND 0xFFFF AND NOT 3 \<noteq> 0
       then Inl (failed_to_parse ''OP_MSG sets flag bits this server does not implement'')
       else
       and_then (if flags AND 1 \<noteq> 0 then trim 4 c1 else Inr c1) (\<lambda>c2.
       and_then (read_sections new_doc \<lparr>body_section = None, sequences = []\<rparr> c2) (\<lambda>st.
         case body_section st of
           None \<Rightarrow> Inl (failed_to_parse ''OP_MSG has no body section'')
         | Some d \<Rightarrow>
             let body = (if sequences st \<noteq> [] then fold_in_sequences d (sequences st) else d) in
             Inr \<lparr>req_header = h, req_body = body,
                   database = database_of body,
                   legacy_query = False\<rparr>)))"

definition parse_op_query ::
  "(string \<Rightarrow> document option) \<Rightarrow> header \<Rightarrow> cursor \<Rightarrow> request outcome" where
  "parse_op_query new_doc h c =
     and_then (int32_at_cursor c) (\<lambda>(_, c1).
     and_then (cstring c1) (\<lambda>(ns, c2).
     and_then (int32_at_cursor c2) (\<lambda>(_, c3).
     and_then (int32_at_cursor c3) (\<lambda>(_, c4).
     and_then (document_at_cursor new_doc c4) (\<lambda>(d, _).
       Inr \<lparr>req_header = h, req_body = d, database = takeWhile (\<lambda>x. x \<noteq> CHR ''.'') ns,
             legacy_query = True\<rparr>)))))"

definition parse_request :: "(string \<Rightarrow> document option) \<Rightarrow> string \<Rightarrow> request outcome" where
  "parse_request new_doc msg =
     and_then (parse_header msg) (\<lambda>h.
       let c = (0, drop kHeaderBytes msg) in
       if op_code h = kOpMsg then parse_op_msg new_doc h c
       else if op_code h = kOpQuery then parse_op_query new_doc h c
       else Inl (not_implemented (''opcode '' @ int_text (sint (op_code h)) @ '' is not supported'')))"

section \<open>Replies\<close>

definition encode_reply ::
  "(document \<Rightarrow> string) \<Rightarrow> request \<Rightarrow> int32 \<Rightarrow> document \<Rightarrow> string" where
  "encode_reply raw req rid body =
     (let out = append_int32 (append_int32 (append_int32 [] 0) rid) (request_id (req_header req));
          out = (if legacy_query req
                 then append_int32 (append_int32 (append_int64
                        (append_int32 (append_int32 out kOpReply) 0) 0) 0) 1
                 else append_int32 (append_int32 out kOpMsg) 0 @ [CHR 0x00]);
          out = out @ raw body;
          total = (word_of_nat (length out) :: int32)
      in append_int32 [] total @ drop 4 out)"

section \<open>Integers\<close>

lemma append_int32_append: "append_int32 out v = out @ append_int32 [] v"
  by (simp add: append_int32_def)

lemma length_append_int32 [simp]: "length (append_int32 out v) = length out + 4"
  by (simp add: append_int32_def)

lemma of_char_low_byte: "(of_char (low_byte u) :: int32) = take_bit 8 u"
proof -
  have "(of_char (low_byte u) :: int32) = of_nat (of_char (low_byte u) :: nat)"
    by (simp only: of_nat_of_char)
  also have "\<dots> = of_nat (unat u mod 256)" by (simp add: low_byte_def)
  also have "\<dots> = take_bit 8 u"
  proof -
    have "unat (take_bit 8 u) = unat u mod 256"
      by (simp only: unsigned_take_bit_eq) (simp add: take_bit_eq_mod)
    moreover have "of_nat (unat (take_bit 8 u)) = take_bit 8 u" by simp
    ultimately show ?thesis by (simp only:)
  qed
  finally show ?thesis .
qed

lemma read_append_int32 [simp]: "read_int32 (append_int32 [] v @ t) = Inr v"
proof -
  have "take_bit 8 v OR push_bit 8 (take_bit 8 (drop_bit 8 v)) OR
      push_bit 16 (take_bit 8 (drop_bit 16 v)) OR push_bit 24 (take_bit 8 (drop_bit 24 v)) = v"
  proof (rule bit_word_eqI)
    fix n assume "n < LENGTH(32)"
    then consider "n < 8" | "8 \<le> n" "n < 16" | "16 \<le> n" "n < 24" | "24 \<le> n" "n < 32" by force
    then show "bit (take_bit 8 v OR push_bit 8 (take_bit 8 (drop_bit 8 v)) OR
        push_bit 16 (take_bit 8 (drop_bit 16 v)) OR push_bit 24 (take_bit 8 (drop_bit 24 v))) n = bit v n"
      by cases (auto simp: bit_simps)
  qed
  then show ?thesis by (simp add: append_int32_def read_int32_def of_char_low_byte)
qed

lemma sint_of_nat_32: "n < 2 ^ 31 \<Longrightarrow> sint (word_of_nat n :: int32) = int n"
  by (simp add: sint_uint signed_take_bit_eq_if_positive unsigned_of_nat take_bit_nat_eq_self
      bit_iff_odd take_bit_int_eq_self)

text \<open>The four bytes of an integer are a codec, and a canonical one.\<close>

definition int32_of_bytes :: "string \<Rightarrow> int32 option" where
  "int32_of_bytes s = (if length s = 4 then (case read_int32 s of Inr v \<Rightarrow> Some v | _ \<Rightarrow> None) else None)"

lemma four_bytes: "length s = 4 \<Longrightarrow> read_int32 s = Inr v \<Longrightarrow> append_int32 [] v = s"
proof -
  assume l: "length s = 4" and r: "read_int32 s = Inr v"
  obtain a b c d where s: "s = [a, b, c, d]"
    using l by (auto simp: numeral_eq_Suc length_Suc_conv)
  have byte: "bit (of_char x :: int32) n \<longleftrightarrow> n < 8 \<and> bit (of_char x :: nat) n" for x n
  proof -
    have "(of_char x :: int32) = word_of_nat (of_char x)" by (simp only: of_nat_of_char)
    moreover have "(of_char x :: nat) < 2 ^ 8" by simp
    then have "8 \<le> n \<Longrightarrow> \<not> bit (of_char x :: nat) n"
      by (metis bit_take_bit_iff not_le take_bit_nat_eq_self)
    ultimately show ?thesis by (auto simp: bit_simps not_le[symmetric])
  qed
  have low: "low_byte u = x" if "\<And>n. n < 8 \<Longrightarrow> bit u n = bit (of_char x :: nat) n" for u x
  proof -
    have "take_bit 8 u = (of_char x :: int32)"
      by (rule bit_word_eqI) (auto simp: bit_simps byte that)
    then have "(of_char (low_byte u) :: int32) = of_char x" by (simp add: of_char_low_byte)
    then have "(word_of_nat (of_char (low_byte u)) :: int32) = word_of_nat (of_char x)"
      by (simp only: of_nat_of_char)
    moreover have "unat (word_of_nat (of_char y) :: int32) = of_char y" for y
    proof -
      have "(of_char y :: nat) < 2 ^ 32" by (rule less_trans [of _ 256]) simp_all
      then show ?thesis by (simp only: unsigned_of_nat) (simp add: take_bit_nat_eq_self)
    qed
    ultimately have "(of_char (low_byte u) :: nat) = of_char x" by metis
    then show ?thesis by simp
  qed
  from r have v: "v = of_char a OR push_bit 8 (of_char b) OR push_bit 16 (of_char c) OR push_bit 24 (of_char d)"
    by (simp add: s read_int32_def)
  have "low_byte v = a" "low_byte (drop_bit 8 v) = b" "low_byte (drop_bit 16 v) = c"
    "low_byte (drop_bit 24 v) = d"
    by (rule low; simp add: v bit_simps byte)+
  then show ?thesis by (simp add: append_int32_def s)
qed

interpretation wire_int: canonical_codec "append_int32 []" int32_of_bytes "\<lambda>_. True"
proof unfold_locales
  show "int32_of_bytes (append_int32 [] v) = Some v" for v
    using read_append_int32 [of v "[]"] by (simp add: int32_of_bytes_def)
next
  show "True \<and> append_int32 [] v = s" if "int32_of_bytes s = Some v" for s v
    using that four_bytes [of s v] by (auto simp: int32_of_bytes_def split: if_splits sum.splits)
qed

section \<open>Framing\<close>

definition healthy :: "socket \<Rightarrow> bool" where
  "healthy events \<longleftrightarrow> Failed \<notin> set events \<and> Data [] \<notin> set events"

fun stream :: "socket \<Rightarrow> string" where
  "stream [] = []"
| "stream (Data s # rest) = s @ stream rest"
| "stream (Interrupted # rest) = stream rest"
| "stream (Failed # rest) = []"

lemma read_exact_stream:
  assumes "healthy events" and "length buf \<le> want" and "want \<le> length buf + length (stream events)"
  shows "\<exists>rest. read_exact want buf events = Some (buf @ take (want - length buf) (stream events), rest)
    \<and> healthy rest \<and> stream rest = drop (want - length buf) (stream events)"
  using assms
proof (induction want buf events rule: read_exact.induct)
  case (1 want buf events)
  show ?case
  proof (cases "want \<le> length buf")
    case True
    with 1 show ?thesis by (subst read_exact.simps) simp
  next
    case False
    show ?thesis
    proof (cases events)
      case Nil
      with 1 False show ?thesis by simp
    next
      case (Cons e rest)
      show ?thesis
      proof (cases e)
        case Interrupted
        have "healthy rest" using 1(3) by (simp add: healthy_def Cons)
        with 1(2) [OF False Cons Interrupted] 1(4,5) False show ?thesis
          unfolding Cons Interrupted by (subst read_exact.simps) simp
      next
        case Failed
        with 1(3) Cons show ?thesis by (simp add: healthy_def)
      next
        case (Data s)
        let ?n = "min (length s) (want - length buf)"
        let ?rest = "if ?n < length s then Data (drop ?n s) # rest else rest"
        from 1(3) Cons Data False have n: "?n \<noteq> 0" by (auto simp: healthy_def)
        have h: "healthy ?rest" using 1(3) by (auto simp: healthy_def Cons Data)
        have st: "stream ?rest = drop ?n s @ stream rest" by simp
        have len: "length (buf @ take ?n s) \<le> want"
          "want \<le> length (buf @ take ?n s) + length (stream ?rest)"
          using 1(4,5) unfolding st Cons Data by auto
        from 1(1) [OF False Cons Data refl n h len] obtain r where
          r: "read_exact want (buf @ take ?n s) ?rest =
            Some ((buf @ take ?n s) @ take (want - length (buf @ take ?n s)) (stream ?rest), r)"
          and hr: "healthy r" "stream r = drop (want - length (buf @ take ?n s)) (stream ?rest)" by blast
        have "read_exact want buf events = read_exact want (buf @ take ?n s) ?rest"
          using False n unfolding Cons Data by (subst read_exact.simps) (simp only: Let_def list.case recv.case if_False refl)
        moreover have "(buf @ take ?n s) @ take (want - length (buf @ take ?n s)) (stream ?rest) =
            buf @ take (want - length buf) (stream events)"
          unfolding st Cons Data by (cases "length s \<le> want - length buf") (simp_all add: min_def)
        moreover have "drop (want - length (buf @ take ?n s)) (stream ?rest) =
            drop (want - length buf) (stream events)"
          unfolding st Cons Data by (cases "length s \<le> want - length buf") (simp_all add: min_def)
        ultimately show ?thesis using r hr by metis
      qed
    qed
  qed
qed

definition well_framed :: "string \<Rightarrow> bool" where
  "well_framed m \<longleftrightarrow> 16 \<le> length m \<and> length m \<le> 48000000
     \<and> take 4 m = append_int32 [] (word_of_nat (length m))"

text \<open>A message is read whole and exactly, however the network cuts the byte stream into
  pieces and whenever a signal interrupts the read: what follows it stays in the socket for the
  next read.\<close>

theorem read_message_any_chunking:
  assumes "healthy events" and "stream events = m @ later" and "well_framed m"
  shows "\<exists>rest. read_message events = Inr (Some (m, rest)) \<and> healthy rest \<and> stream rest = later"
proof -
  from assms(3) have len: "16 \<le> length m" "length m \<le> 48000000"
    and pre: "take 4 m = append_int32 [] (word_of_nat (length m))" by (simp_all add: well_framed_def)
  have "\<exists>rest. read_exact 16 [] events = Some (take 16 m, rest)
      \<and> healthy rest \<and> stream rest = drop 16 m @ later"
    using read_exact_stream [OF assms(1), of "[]" 16] assms(2) len by simp
  then obtain r1 where r1: "read_exact 16 [] events = Some (take 16 m, r1)"
    and h1: "healthy r1" "stream r1 = drop 16 m @ later" by blast
  have "take 16 m = take 4 m @ take 12 (drop 4 m)"
    using take_add [of 4 12 m] by simp
  then have read: "read_int32 (take 16 m) = Inr (word_of_nat (length m))"
    by (simp add: pre)
  have s: "sint (word_of_nat (length m) :: int32) = int (length m)"
    using len by (intro sint_of_nat_32) simp
  show ?thesis
  proof (cases "length m = 16")
    case True
    then show ?thesis
      using r1 h1 read s by (simp add: read_message_def kHeaderBytes_def kMaxMessageBytes_def)
  next
    case False
    have "\<exists>rest. read_exact (length m) (take 16 m) r1 = Some (m, rest)
        \<and> healthy rest \<and> stream rest = later"
      using read_exact_stream [OF h1(1), of "take 16 m" "length m"] h1(2) len by simp
    moreover have "read_message events = Inr (read_exact (length m) (take 16 m) r1)"
      using False len r1 read s by (simp add: read_message_def kHeaderBytes_def kMaxMessageBytes_def)
    ultimately show ?thesis by simp
  qed
qed

theorem read_message_any_chunking_witness:
  "\<exists>rest. read_message [Data [CHR 0x10], Interrupted,
       Data ([CHR 0x00, CHR 0x00, CHR 0x00] @ replicate 12 (CHR 0x07) @ ''ab''), Data ''c''] =
     Inr (Some ([CHR 0x10, CHR 0x00, CHR 0x00, CHR 0x00] @ replicate 12 (CHR 0x07), rest))
     \<and> healthy rest \<and> stream rest = ''abc''"
  by (rule read_message_any_chunking) code_simp+

section \<open>What a driver sends\<close>

datatype msg_section = Body document | Sequence string "document list"

fun section_bytes :: "(document \<Rightarrow> string) \<Rightarrow> msg_section \<Rightarrow> string" where
  "section_bytes raw (Body d) = CHR 0x00 # raw d"
| "section_bytes raw (Sequence name ds) =
     CHR 0x01 # append_int32 [] (word_of_nat (4 + length name + 1 + length (concat (map raw ds))))
       @ name @ nul # concat (map raw ds)"

definition op_msg ::
  "(document \<Rightarrow> string) \<Rightarrow> int32 \<Rightarrow> int32 \<Rightarrow> int32 \<Rightarrow> msg_section list \<Rightarrow> string" where
  "op_msg raw rid rto flags secs =
     (let payload = concat (map (section_bytes raw) secs)
      in append_int32 [] (word_of_nat (20 + length payload)) @ append_int32 [] rid
         @ append_int32 [] rto @ append_int32 [] kOpMsg @ append_int32 [] flags @ payload)"

text \<open>libbson's side: the buffer of a document starts with its length and parses back.\<close>

definition framed :: "(document \<Rightarrow> string) \<Rightarrow> (string \<Rightarrow> document option) \<Rightarrow> document \<Rightarrow> bool" where
  "framed raw new_doc d \<longleftrightarrow> new_doc (raw d) = Some d \<and> 5 \<le> length (raw d) \<and> length (raw d) < 2 ^ 31
     \<and> take 4 (raw d) = append_int32 [] (word_of_nat (length (raw d)))"

fun section_ok :: "(document \<Rightarrow> string) \<Rightarrow> (string \<Rightarrow> document option) \<Rightarrow> msg_section \<Rightarrow> bool" where
  "section_ok raw new_doc (Body d) = framed raw new_doc d"
| "section_ok raw new_doc (Sequence name ds) =
     (list_all (framed raw new_doc) ds \<and> nul \<notin> set name
      \<and> 4 + length name + 1 + length (concat (map raw ds)) < 2 ^ 31)"

fun bodies :: "msg_section list \<Rightarrow> document list" where
  "bodies [] = []"
| "bodies (Body d # secs) = d # bodies secs"
| "bodies (Sequence name ds # secs) = bodies secs"

fun seqs :: "msg_section list \<Rightarrow> (string \<times> document list) list" where
  "seqs [] = []"
| "seqs (Body d # secs) = seqs secs"
| "seqs (Sequence name ds # secs) = (name, ds) # seqs secs"

lemma read_framed:
  assumes "framed raw new_doc d"
  shows "document_at_cursor new_doc (p, raw d @ t) = Inr (d, (p + length (raw d), t))"
proof -
  from assms have len: "5 \<le> length (raw d)" "length (raw d) < 2 ^ 31"
    and pre: "take 4 (raw d) = append_int32 [] (word_of_nat (length (raw d)))"
    and parse: "new_doc (raw d) = Some d" by (simp_all add: framed_def)
  have "raw d @ t = take 4 (raw d) @ drop 4 (raw d) @ t" by simp
  then have "read_int32 (raw d @ t) = Inr (word_of_nat (length (raw d)))"
    by (metis pre read_append_int32)
  moreover have "sint (word_of_nat (length (raw d)) :: int32) = int (length (raw d))"
    using len(2) by (rule sint_of_nat_32)
  ultimately show ?thesis
    using len(1) parse by (simp add: document_at_cursor_Inr move_def)
qed

lemma int32_at_text [simp]: "int32_at_cursor (p, append_int32 [] v @ t) = Inr (v, (p + 4, t))"
  by (simp add: int32_at_cursor_def require_def move_def)

lemma byte_at_text [simp]: "byte_at_cursor (p, b # t) = Inr (of_char b, (p + 1, t))"
  by (simp add: byte_at_cursor_def require_def move_def)

lemma cstring_text [simp]:
  "nul \<notin> set s \<Longrightarrow> cstring (p, s @ nul # t) = Inr (s, (p + length s + 1, t))"
proof -
  assume "nul \<notin> set s"
  then have "takeWhile (\<lambda>x. x \<noteq> nul) (s @ nul # t) = s" by (auto simp: takeWhile_append)
  then show ?thesis by (simp add: cstring_def move_def)
qed

lemma read_documents_text:
  assumes "list_all (framed raw new_doc) ds"
  shows "read_documents new_doc (p + length (concat (map raw ds))) (p, concat (map raw ds) @ t) =
    Inr (ds, (p + length (concat (map raw ds)), t))"
  using assms
proof (induction ds arbitrary: p)
  case Nil
  show ?case by (subst read_documents.simps) simp
next
  case (Cons d ds)
  then have d: "framed raw new_doc d" and ds: "list_all (framed raw new_doc) ds" by simp_all
  from d have "5 \<le> length (raw d)" by (simp add: framed_def)
  then have "0 < length (raw d)" by linarith
  then show ?case
    using read_framed [OF d, of p "concat (map raw ds) @ t"] Cons.IH [OF ds, of "p + length (raw d)"]
    by (subst read_documents.simps) (simp add: add.assoc)
qed

lemma read_section_text:
  assumes "section_ok raw new_doc s"
  shows "read_section new_doc st (p, section_bytes raw s @ t) = (case s of
      Body d \<Rightarrow> if body_section st = None
        then Inr (st\<lparr>body_section := Some d\<rparr>, (p + length (section_bytes raw s), t))
        else Inl (failed_to_parse ''OP_MSG carries more than one body section'')
    | Sequence name ds \<Rightarrow>
        Inr (st\<lparr>sequences := sequences st @ [(name, ds)]\<rparr>, (p + length (section_bytes raw s), t)))"
proof (cases s)
  case (Body d)
  with assms show ?thesis by (simp add: read_section_def read_framed)
next
  case (Sequence name ds)
  define n where "n = 4 + length name + 1 + length (concat (map raw ds))"
  from assms Sequence have ds: "list_all (framed raw new_doc) ds" and n: "nul \<notin> set name" "n < 2 ^ 31"
    by (simp_all add: n_def)
  have bytes: "section_bytes raw s @ t =
      CHR 0x01 # append_int32 [] (word_of_nat n) @ name @ nul # concat (map raw ds) @ t"
    and len: "length (section_bytes raw s) = n + 1"
    by (simp_all add: Sequence n_def)
  have size: "sint (word_of_nat n :: int32) = int n" by (rule sint_of_nat_32 [OF n(2)])
  have eq: "p + 1 + 4 + length name + 1 + length (concat (map raw ds)) = p + 1 + n" by (simp add: n_def)
  have docs: "read_documents new_doc (p + 1 + n) (p + 1 + 4 + length name + 1, concat (map raw ds) @ t) =
      Inr (ds, (p + 1 + n, t))"
    using read_documents_text [OF ds, of "p + 1 + 4 + length name + 1" t] unfolding eq .
  have "5 \<le> n" by (simp add: n_def)
  then have "read_sequence new_doc st (p + 1, append_int32 [] (word_of_nat n) @ name @ nul # concat (map raw ds) @ t) =
      Inr (st\<lparr>sequences := sequences st @ [(name, ds)]\<rparr>, (p + 1 + n, t))"
    using docs n(1) size by (simp add: read_sequence_def Let_def)
  then show ?thesis unfolding bytes len by (simp add: Sequence read_section_def)
qed

lemma read_sections_text:
  assumes "list_all (section_ok raw new_doc) secs"
    and "length (bodies secs) + (if body_section st = None then 0 else 1) \<le> 1"
  shows "read_sections new_doc st (p, concat (map (section_bytes raw) secs)) =
    Inr \<lparr>body_section = (case bodies secs of [] \<Rightarrow> body_section st | d # _ \<Rightarrow> Some d),
         sequences = sequences st @ seqs secs\<rparr>"
  using assms
proof (induction secs arbitrary: st p)
  case Nil
  show ?case by (subst read_sections.simps) simp
next
  case (Cons s secs)
  then have s: "section_ok raw new_doc s" and secs: "list_all (section_ok raw new_doc) secs" by simp_all
  have ne: "section_bytes raw s \<noteq> []" by (cases s) simp_all
  note step = read_section_text [OF s, of st p "concat (map (section_bytes raw) secs)"]
  show ?case
  proof (cases s)
    case (Body d)
    with Cons.prems(2) have b: "body_section st = None" and none: "bodies secs = []"
      by (simp_all split: if_splits)
    then show ?thesis
      using step ne Cons.IH [OF secs, of "st\<lparr>body_section := Some d\<rparr>"]
      by (subst read_sections.simps) (simp add: Body)
  next
    case (Sequence name ds)
    then show ?thesis
      using step ne Cons.IH [OF secs, of "st\<lparr>sequences := sequences st @ [(name, ds)]\<rparr>"] Cons.prems(2)
      by (subst read_sections.simps) (simp add: Sequence split: list.split)
  qed
qed

lemma parse_header_text:
  "parse_header (append_int32 [] a @ append_int32 [] b @ append_int32 [] c @ append_int32 [] d @ t) =
    Inr \<lparr>message_length = a, request_id = b, response_to = c, op_code = d\<rparr>"
proof -
  let ?m = "append_int32 [] a @ append_int32 [] b @ append_int32 [] c @ append_int32 [] d @ t"
  have "drop 4 ?m = append_int32 [] b @ append_int32 [] c @ append_int32 [] d @ t"
    "drop 8 ?m = append_int32 [] c @ append_int32 [] d @ t"
    "drop 12 ?m = append_int32 [] d @ t" by simp_all
  then show ?thesis by (simp only: parse_header_def read_append_int32 and_then_simps)
qed

lemma op_msg_parses:
  assumes "bodies secs = [d]" and "list_all (section_ok raw new_doc) secs"
    and "flags AND 0xFFFF AND NOT 2 = 0"
  shows "parse_request new_doc (op_msg raw rid rto flags secs) =
    Inr \<lparr>req_header = \<lparr>message_length = word_of_nat (length (op_msg raw rid rto flags secs)),
           request_id = rid, response_to = rto, op_code = kOpMsg\<rparr>,
         req_body = d @ map (\<lambda>(name, ds). (name, sequence_array ds)) (seqs secs),
         database = database_of (d @ map (\<lambda>(name, ds). (name, sequence_array ds)) (seqs secs)),
         legacy_query = False\<rparr>"
proof -
  define payload where "payload = concat (map (section_bytes raw) secs)"
  have msg: "op_msg raw rid rto flags secs =
      append_int32 [] (word_of_nat (20 + length payload)) @ append_int32 [] rid
      @ append_int32 [] rto @ append_int32 [] kOpMsg @ append_int32 [] flags @ payload"
    by (simp only: op_msg_def payload_def Let_def)
  have flag: "flags AND 0xFFFF AND NOT 3 = 0" "flags AND 1 = 0"
  proof -
    have zero: "flags AND 65533 = 0" using assms(3) by simp
    have "flags AND 65532 = (flags AND 65533) AND 65532" by (simp only: and.assoc) simp
    then show "flags AND 0xFFFF AND NOT 3 = 0" by (simp add: zero)
    have "flags AND 1 = (flags AND 65533) AND 1" by (simp only: and.assoc) simp
    then show "flags AND 1 = 0" by (simp add: zero)
  qed
  have "parse_header (op_msg raw rid rto flags secs) =
      Inr \<lparr>message_length = word_of_nat (20 + length payload), request_id = rid, response_to = rto,
        op_code = kOpMsg\<rparr>"
    unfolding msg by (rule parse_header_text)
  moreover have "drop 16 (op_msg raw rid rto flags secs) = append_int32 [] flags @ payload"
    unfolding msg by simp
  moreover have "read_sections new_doc \<lparr>body_section = None, sequences = []\<rparr> (4, payload) =
      Inr \<lparr>body_section = Some d, sequences = seqs secs\<rparr>"
    unfolding payload_def using read_sections_text [OF assms(2)] assms(1) by simp
  moreover have "length (op_msg raw rid rto flags secs) = 20 + length payload"
    unfolding msg by simp
  ultimately show ?thesis
    using flag by (simp add: parse_request_def parse_op_msg_def kHeaderBytes_def fold_in_sequences_def Let_def)
qed

text \<open>C30. A driver's OP_MSG parses to what the driver meant: with exactly one body section,
  wherever it stands among the document sequences, the request is that body followed by one
  array field per sequence, in order and complete, with the header's ids and the database named
  in the body. The \<open>moreToCome\<close> flag (bit 1) and the optional flags make no difference.\<close>

theorem op_msg_round_trip:
  assumes "bodies secs = [d]" and "list_all (section_ok raw new_doc) secs"
    and "flags AND 0xFFFF AND NOT 2 = 0"
  shows "parse_request new_doc (op_msg raw rid rto flags secs) =
    Inr \<lparr>req_header = \<lparr>message_length = word_of_nat (length (op_msg raw rid rto flags secs)),
           request_id = rid, response_to = rto, op_code = kOpMsg\<rparr>,
         req_body = d @ map (\<lambda>(name, ds). (name, sequence_array ds)) (seqs secs),
         database = database_of (d @ map (\<lambda>(name, ds). (name, sequence_array ds)) (seqs secs)),
         legacy_query = False\<rparr>"
  using assms by (rule op_msg_parses)

text \<open>A concrete library for the witnesses: documents without fields, five bytes each.\<close>

definition empty_raw :: "document \<Rightarrow> string" where
  "empty_raw d = [CHR 0x05, CHR 0x00, CHR 0x00, CHR 0x00, CHR 0x00]"

definition empty_new_doc :: "string \<Rightarrow> document option" where
  "empty_new_doc s = (if s = empty_raw [] then Some [] else None)"

lemma framed_empty: "framed empty_raw empty_new_doc []"
  by code_simp

theorem op_msg_round_trip_witness:
  "\<exists>h. parse_request empty_new_doc (op_msg empty_raw 7 0 2 [Sequence ''documents'' [[], []], Body []]) =
    Inr \<lparr>req_header = h, req_body = [(''documents'', sequence_array [[], []])],
      database = [], legacy_query = False\<rparr> \<and> request_id h = 7"
proof -
  have "list_all (section_ok empty_raw empty_new_doc) [Sequence ''documents'' [[], []], Body []]"
    using framed_empty by (simp add: nul_def empty_raw_def)
  from op_msg_round_trip [OF _ this, of "[]" 2 7 0] show ?thesis
    by (simp add: database_of_def find_field_def nul_def)
qed

text \<open>The client reads a reply with the same rules, so a reply is an OP_MSG of one body.\<close>

lemma encode_reply_op_msg:
  "\<not> legacy_query req \<Longrightarrow>
    encode_reply raw req rid body = op_msg raw rid (request_id (req_header req)) 0 [Body body]"
  by (simp add: encode_reply_def op_msg_def append_int32_append [of "_ @ _"]
      append_int32_append [of "append_int32 _ _"] Let_def)

lemma length_op_msg: "length (op_msg raw rid rto flags secs) =
    20 + length (concat (map (section_bytes raw) secs))"
  by (simp add: op_msg_def Let_def)

lemma well_framed_op_msg:
  "length (op_msg raw rid rto flags secs) \<le> 48000000 \<Longrightarrow> well_framed (op_msg raw rid rto flags secs)"
  unfolding well_framed_def length_op_msg
  by (simp add: op_msg_def Let_def)

text \<open>A reply reaches the client: what the server encodes is one well-framed message, however
  the network delivers it, and read by the same rules it is the body the command produced, in
  answer to exactly the request it was made for.\<close>

theorem reply_round_trip:
  assumes "\<not> legacy_query req" and "framed raw new_doc body"
    and "length (raw body) \<le> 47999979"
    and "healthy events" and "stream events = encode_reply raw req rid body @ later"
  shows "\<exists>rest h. read_message events = Inr (Some (encode_reply raw req rid body, rest))
    \<and> stream rest = later
    \<and> parse_request new_doc (encode_reply raw req rid body) =
        Inr \<lparr>req_header = h, req_body = body, database = database_of body, legacy_query = False\<rparr>
    \<and> response_to h = request_id (req_header req) \<and> request_id h = rid"
proof -
  let ?m = "op_msg raw rid (request_id (req_header req)) 0 [Body body]"
  have m: "encode_reply raw req rid body = ?m" by (rule encode_reply_op_msg [OF assms(1)])
  have "well_framed ?m"
    using assms(3) by (intro well_framed_op_msg) (simp add: length_op_msg)
  from read_message_any_chunking [OF assms(4) _ this] assms(5)
  obtain rest where "read_message events = Inr (Some (?m, rest))" "stream rest = later"
    unfolding m by blast
  moreover have "parse_request new_doc ?m =
      Inr \<lparr>req_header = \<lparr>message_length = word_of_nat (length ?m), request_id = rid,
        response_to = request_id (req_header req), op_code = kOpMsg\<rparr>,
        req_body = body, database = database_of body, legacy_query = False\<rparr>"
    using op_msg_parses [of "[Body body]" body raw new_doc 0 rid "request_id (req_header req)"]
      assms(2) by simp
  ultimately show ?thesis unfolding m by simp
qed

theorem reply_round_trip_witness:
  "\<exists>rest h. read_message [Data (encode_reply empty_raw
        \<lparr>req_header = \<lparr>message_length = 0, request_id = 9, response_to = 0, op_code = kOpMsg\<rparr>,
         req_body = [], database = [], legacy_query = False\<rparr> 3 [] @ ''x'')] =
      Inr (Some (encode_reply empty_raw
        \<lparr>req_header = \<lparr>message_length = 0, request_id = 9, response_to = 0, op_code = kOpMsg\<rparr>,
         req_body = [], database = [], legacy_query = False\<rparr> 3 [], rest))
    \<and> stream rest = ''x'' \<and> response_to (h :: header) = 9 \<and> request_id h = 3"
proof -
  let ?req = "\<lparr>req_header = \<lparr>message_length = 0, request_id = 9, response_to = 0, op_code = kOpMsg\<rparr>,
         req_body = [], database = [], legacy_query = False\<rparr>"
  have "healthy [Data (encode_reply empty_raw ?req 3 [] @ ''x'')]" by (simp add: healthy_def)
  from reply_round_trip [OF _ framed_empty _ this, of ?req 3 "''x''"]
  show ?thesis by (auto simp: empty_raw_def)
qed

section \<open>Safety\<close>

definition wire_error :: "failure \<Rightarrow> bool" where
  "wire_error e \<longleftrightarrow> (\<exists>t. e = Raise t \<and> te_code t \<in> {9, 238})"

definition fails_well :: "'a outcome \<Rightarrow> bool" where
  "fails_well out \<longleftrightarrow> (\<forall>e. out = Inl e \<longrightarrow> wire_error e)"

lemma fails_well_simps [simp]:
  "fails_well (Inr x)" "fails_well (Inl (failed_to_parse m))" "fails_well (Inl (not_implemented m))"
  by (simp_all add: fails_well_def wire_error_def error_simps)

lemma fails_well_then: "fails_well m \<Longrightarrow> (\<And>x. m = Inr x \<Longrightarrow> fails_well (f x)) \<Longrightarrow> fails_well (and_then m f)"
  by (cases m) (auto simp: fails_well_def)

lemma fails_well_require [simp]: "fails_well (require n c)"
  by (simp add: require_def throw_if_def)

lemma fails_well_read: "4 \<le> length p \<Longrightarrow> fails_well (read_int32 p)"
  using read_int32_enough [of p] by auto

lemma fails_well_int32 [simp]: "fails_well (int32_at_cursor c)"
  unfolding int32_at_cursor_def
  by (intro fails_well_then fails_well_require fails_well_read) (auto dest: left_require)

lemma fails_well_byte [simp]: "fails_well (byte_at_cursor c)"
  unfolding byte_at_cursor_def
  by (intro fails_well_then fails_well_require) (auto dest: left_require split: list.split)

lemma fails_well_cstring [simp]: "fails_well (cstring c)"
  by (simp add: cstring_def Let_def)

lemma fails_well_document [simp]: "fails_well (document_at_cursor new_doc c)"
proof -
  have "fails_well (new_from_data new_doc (snd c) n)" if "n \<le> length (snd c)" for n
    using that by (simp add: new_from_data_def)
  then show ?thesis
    unfolding document_at_cursor_def
    by (intro fails_well_then fails_well_require fails_well_read)
      (auto dest: left_require intro!: fails_well_then split: option.split)
qed

lemma fails_well_documents [simp]: "fails_well (read_documents new_doc e c)"
proof (induction new_doc e c rule: read_documents.induct)
  case (1 new_doc e c)
  then show ?case
    by (subst read_documents.simps) (auto intro!: fails_well_then)
qed

lemma fails_well_sequence [simp]: "fails_well (read_sequence new_doc st c)"
  unfolding read_sequence_def Let_def by (auto intro!: fails_well_then)

lemma fails_well_section [simp]: "fails_well (read_section new_doc st c)"
  unfolding read_section_def by (auto intro!: fails_well_then)

lemma fails_well_sections [simp]: "fails_well (read_sections new_doc st c)"
proof (induction new_doc st c rule: read_sections.induct)
  case (1 new_doc st c)
  then show ?case
    by (subst read_sections.simps) (auto intro!: fails_well_then)
qed

lemma fails_well_header: "16 \<le> length m \<Longrightarrow> fails_well (parse_header m)"
  unfolding parse_header_def by (intro fails_well_then fails_well_read) auto

lemma fails_well_request: "16 \<le> length m \<Longrightarrow> fails_well (parse_request new_doc m)"
  unfolding parse_request_def parse_op_msg_def parse_op_query_def Let_def trim_def
  by (auto intro!: fails_well_then fails_well_header split: option.split)

lemma read_exact_length: "read_exact want buf events = Some (m, rest) \<Longrightarrow> length buf \<le> want \<Longrightarrow> length m = want"
proof (induction want buf events rule: read_exact.induct)
  case (1 want buf events)
  show ?case
  proof (cases "want \<le> length buf")
    case True
    with 1(3,4) show ?thesis by (subst (asm) read_exact.simps) simp
  next
    case False
    then show ?thesis
      using 1(3,4) 1(1) [OF False] 1(2) [OF False]
      by (subst (asm) read_exact.simps) (auto simp: Let_def split: list.splits recv.splits if_splits)
  qed
qed

text \<open>C31. No bytes a peer can send lead the server outside the message it read: a message that
  was read is between 16 and 48,000,000 bytes long, and parsing it gives a request or one of two
  errors (FailedToParse, NotImplemented), never a read past the buffer.\<close>

theorem received_message_parses_safely:
  assumes "read_message events = Inr (Some (m, rest))"
  shows "16 \<le> length m \<and> length m \<le> 48000000 \<and>
    ((\<exists>req. parse_request new_doc m = Inr req) \<or>
     (\<exists>e. parse_request new_doc m = Inl (Raise e) \<and> te_code e \<in> {9, 238}))"
proof -
  from assms obtain h r where h: "read_exact 16 [] events = Some (h, r)"
    unfolding read_message_def kHeaderBytes_def by (auto split: option.splits)
  then have len: "length h = 16" by (rule read_exact_length) simp
  from assms h obtain n where n: "read_int32 h = Inr n" "16 \<le> sint n" "sint n \<le> 48000000"
    and m: "m = h \<or> read_exact (nat (sint n)) h r = Some (m, rest)"
    unfolding read_message_def kHeaderBytes_def kMaxMessageBytes_def
    by (auto simp: and_then_Inr_iff split: if_splits)
  have bound: "16 \<le> length m \<and> length m \<le> 48000000"
    using m
  proof
    show "16 \<le> length m \<and> length m \<le> 48000000" if "m = h" using that len by simp
    show "16 \<le> length m \<and> length m \<le> 48000000" if "read_exact (nat (sint n)) h r = Some (m, rest)"
    proof -
      have "16 \<le> nat (sint n)" "nat (sint n) \<le> 48000000"
        using n(2,3) by (simp_all add: le_nat_iff nat_le_iff)
      then show ?thesis using read_exact_length [OF that] len by simp
    qed
  qed
  with fails_well_request [of m new_doc] show ?thesis
    by (cases "parse_request new_doc m") (auto simp: fails_well_def wire_error_def)
qed

theorem received_message_parses_safely_witness:
  "(\<exists>req. parse_request empty_new_doc (append_int32 [] 16 @ replicate 12 (CHR 0x00)) = Inr req) \<or>
   (\<exists>e. parse_request empty_new_doc (append_int32 [] 16 @ replicate 12 (CHR 0x00)) = Inl (Raise e)
    \<and> te_code e \<in> {9, 238})"
proof -
  have "read_message [Data (append_int32 [] 16 @ replicate 12 (CHR 0x00))] =
      Inr (Some (append_int32 [] 16 @ replicate 12 (CHR 0x00), []))"
    by code_simp
  from received_message_parses_safely [OF this, of empty_new_doc] show ?thesis by blast
qed

section \<open>Sending\<close>

text \<open>What successive \<open>send\<close> calls do: take some bytes, meet a signal, or fail.\<close>

datatype send = Sent nat | Send_interrupted | Send_failed

text \<open>The bytes handed to the network and the result; None while a call has not returned.\<close>

fun write_all :: "string \<Rightarrow> string \<Rightarrow> send list \<Rightarrow> (string \<times> bool) option" where
  "write_all out [] events = Some (out, True)"
| "write_all out bytes [] = None"
| "write_all out bytes (Sent n # events) =
     (let k = min n (length bytes) in write_all (out @ take k bytes) (drop k bytes) events)"
| "write_all out bytes (Send_interrupted # events) = write_all out bytes events"
| "write_all out bytes (Send_failed # events) = Some (out, False)"

lemma write_all_sends:
  "write_all out bytes events = Some (sent, ok) \<Longrightarrow>
    \<exists>k. sent = out @ take k bytes \<and> (ok \<longrightarrow> sent = out @ bytes)"
proof (induction out bytes events rule: write_all.induct)
  case (3 out v va n events)
  let ?k = "min n (length (v # va))"
  from 3 obtain k where k: "sent = (out @ take ?k (v # va)) @ take k (drop ?k (v # va))"
    and ok: "ok \<longrightarrow> sent = (out @ take ?k (v # va)) @ drop ?k (v # va)" by (auto simp: Let_def)
  have "take ?k (v # va) @ take k (drop ?k (v # va)) = take (?k + k) (v # va)" by (simp only: take_add)
  with k ok show ?case by (metis append.assoc append_take_drop_id)
qed (auto intro: exI [of _ 0])

end
