(* ===== verification/Replies.thy ===== *)
theory Replies
  imports Indexes SqlGateway Projection Pipeline Wire
begin

text \<open>
  The vocabulary of the command handlers (src/chimera/plugin/chimera_mongo/commands.cc): reading
  arguments off a command document, the replies, and the shaping of a result.
\<close>

section \<open>Arguments\<close>

definition view_field :: "document \<Rightarrow> string \<Rightarrow> document option" where
  "view_field d name = (case find_field d name of None \<Rightarrow> None | Some v \<Rightarrow> sub_fields v)"

definition flag :: "document \<Rightarrow> string \<Rightarrow> bool \<Rightarrow> bool" where
  "flag d name fallback = (case find_field d name of
       None \<Rightarrow> fallback
     | Some v \<Rightarrow> (case v of
         BBool b \<Rightarrow> b
       | _ \<Rightarrow> if value_is_numeric v then \<not> d_eq (as_double v) 0 else fallback))"

definition number :: "document \<Rightarrow> string \<Rightarrow> int \<Rightarrow> int outcome" where
  "number d name fallback = (case find_field d name of
       None \<Rightarrow> Inr fallback
     | Some v \<Rightarrow>
         if \<not> value_is_numeric v then Inr fallback
         else (case d_to_int64 (as_double v) of None \<Rightarrow> Inl Undefined | Some n \<Rightarrow> Inr (sint n)))"

definition text_field :: "document \<Rightarrow> string \<Rightarrow> string" where
  "text_field d name = (case find_field d name of Some (BUtf8 s) \<Rightarrow> s | _ \<Rightarrow> [])"

text \<open>\<open>sub_document\<close>: a field that is no document or array reads as an empty one.\<close>

definition sub_document :: "document \<Rightarrow> string \<Rightarrow> document" where
  "sub_document d name = (case view_field d name of None \<Rightarrow> [] | Some v \<Rightarrow> v)"

section \<open>Replies\<close>

record identity =
  host :: string
  process_id :: string

definition kMaxBsonObjectSize :: int32 where "kMaxBsonObjectSize = 16 * 1024 * 1024"
definition kMaxWireVersion :: int32 where "kMaxWireVersion = 17"
definition kMinWireVersion :: int32 where "kMinWireVersion = 0"
definition kDefaultBatchSize :: int where "kDefaultBatchSize = 101"

definition bone :: bson where "bone = BDouble (d_of_int 1)"

definition utf8 :: "string \<Rightarrow> bson" where
  "utf8 s = BUtf8 (c_str s)"

definition ok_reply :: document where
  "ok_reply = [(''ok'', bone)]"

definition error_reply :: "int \<Rightarrow> string \<Rightarrow> string \<Rightarrow> document" where
  "error_reply code code_name message =
     [(''ok'', BDouble (d_of_int 0)), (''errmsg'', utf8 message), (''code'', BInt32 (word_of_int code)),
      (''codeName'', utf8 code_name)]"

definition hello_reply :: "identity \<Rightarrow> int64 \<Rightarrow> int64 \<Rightarrow> document" where
  "hello_reply who connection_id now_millis =
     [(''helloOk'', BBool True), (''ismaster'', BBool True), (''isWritablePrimary'', BBool True),
      (''setName'', BUtf8 ''chimera''), (''setVersion'', BInt32 1), (''secondary'', BBool False),
      (''hosts'', BArray [(''0'', utf8 (host who))]), (''primary'', utf8 (host who)), (''me'', utf8 (host who)),
      (''topologyVersion'', BDocument [(''processId'', BOid (process_id who)), (''counter'', BInt64 0)]),
      (''maxBsonObjectSize'', BInt32 kMaxBsonObjectSize),
      (''maxMessageSizeBytes'', BInt32 (word_of_int kMaxMessageBytes)),
      (''maxWriteBatchSize'', BInt32 100000), (''localTime'', BDateTime now_millis),
      (''logicalSessionTimeoutMinutes'', BInt32 30), (''connectionId'', BInt32 (ucast connection_id)),
      (''minWireVersion'', BInt32 kMinWireVersion), (''maxWireVersion'', BInt32 kMaxWireVersion),
      (''readOnly'', BBool False), (''ok'', bone)]"

definition build_info_reply :: "string \<Rightarrow> document" where
  "build_info_reply version =
     [(''version'', utf8 (''6.0.0-chimera-'' @ version)),
      (''versionArray'', BArray [(''0'', BInt32 6), (''1'', BInt32 0), (''2'', BInt32 0), (''3'', BInt32 0)]),
      (''gitVersion'', utf8 (''chimera-'' @ version)), (''sysInfo'', BUtf8 ''ChimeraDB on MariaDB''),
      (''bits'', BInt32 64), (''debug'', BBool False), (''maxBsonObjectSize'', BInt32 kMaxBsonObjectSize),
      (''modules'', BArray []), (''ok'', bone)]"

definition repl_set_status_reply :: "identity \<Rightarrow> int64 \<Rightarrow> document" where
  "repl_set_status_reply who now_millis =
     [(''set'', BUtf8 ''chimera''), (''date'', BDateTime now_millis), (''myState'', BInt32 1), (''term'', BInt32 1),
      (''members'', BArray [(''0'', BDocument [(''_id'', BInt32 0), (''name'', utf8 (host who)), (''health'', BInt32 1),
         (''state'', BInt32 1), (''stateStr'', BUtf8 ''PRIMARY''), (''self'', BBool True)])]),
      (''ok'', bone)]"

definition get_parameter_reply :: "document \<Rightarrow> document" where
  "get_parameter_reply body =
     (if find_field body ''featureCompatibilityVersion'' \<noteq> None
      then [(''featureCompatibilityVersion'', BDocument [(''version'', BUtf8 ''6.0'')])] else [])
     @ [(''ok'', bone)]"

definition cursor_reply ::
  "int \<Rightarrow> string \<Rightarrow> string \<Rightarrow> document list \<Rightarrow> nat option \<Rightarrow> document" where
  "cursor_reply cursor_id ns batch_name batch resume_seq =
     [(''cursor'', BDocument
        ([(''id'', BInt64 (word_of_int cursor_id)), (''ns'', utf8 ns),
          (batch_name, BArray (make_array (map BDocument batch)))]
         @ (case resume_seq of None \<Rightarrow> []
            | Some s \<Rightarrow> [(''postBatchResumeToken'', BDocument [(''_data'', utf8 (encode_resume_token (word_of_nat s)))])]))),
      (''ok'', bone)]"

text \<open>
  \<open>current_operation_time_or_initialize\<close>, with the tables it may create; \<open>append_operation_time\<close>
  reads the clock unless it is given a reading.
\<close>

definition clock_reading :: "optime action" where
  "clock_reading s = (let first = current_operation_time (oplog s) in
     if is_raise 26 first
     then bind_action (install_oplog_schema False (oplog s), s) (\<lambda>db s.
       (current_operation_time (Some db), s\<lparr>oplog := Some db\<rparr>))
     else (first, s))"

lemma clock_reading_value: "fst (clock_reading s) = current_operation_time_or_initialize False (oplog s)"
  by (cases "install_oplog_schema False (oplog s)")
    (simp_all add: clock_reading_def current_operation_time_or_initialize_def Let_def)

definition append_operation_time :: "document \<Rightarrow> optime option \<Rightarrow> document action" where
  "append_operation_time reply stamp s =
     bind_action (case stamp of Some t \<Rightarrow> (Inr t, s) | None \<Rightarrow> clock_reading s) (\<lambda>t s.
       (Inr (reply @ [(''operationTime'', BTimestamp (word_of_nat (seconds t)) (word_of_nat (Oplog.increment t)))]), s))"

section \<open>Shaping\<close>

definition shape_results ::
  "document list \<Rightarrow> document \<Rightarrow> document option \<Rightarrow> int \<Rightarrow> int \<Rightarrow> document list outcome" where
  "shape_results docs srt projection skip limit =
     and_then (if srt = [] then Inr docs else sort_documents docs (Some srt)) (\<lambda>docs.
       let docs = (if 0 < skip then drop (min (nat skip) (length docs)) docs else docs) in
       if limit = - (2 ^ 63) then Inl Undefined
       else
         let cap = (if limit < 0 then - limit else limit);
             docs = (if 0 < cap \<and> nat cap < length docs then take (nat cap) docs else docs)
         in case projection of
              None \<Rightarrow> Inr docs
            | Some p \<Rightarrow> if p = [] then Inr docs else map_res (\<lambda>d. project d (Some p)) docs)"

text \<open>The first batch and what is left for getMore.\<close>

definition first_batch :: "int \<Rightarrow> document list \<Rightarrow> document list \<times> document list" where
  "first_batch batch_size docs =
     (let k = min (length docs) (if batch_size < 0 then 0 else nat batch_size)
      in (take k docs, drop k docs))"

end
