(* ===== verification/Reads.thy ===== *)
theory Reads
  imports Replies
begin

text \<open>
  The reading commands (commands.cc): find, getMore, killCursors, count, aggregate, distinct and
  chimeraSql. A handler sees the server and the cursor registry; the clocks, the passes a tailing
  getMore makes while it is parked and the state of the SQL gateway come with the request.
\<close>

section \<open>A request\<close>

record node =
  srv :: server
  reg :: registry

type_synonym 'a handler = "node \<Rightarrow> 'a outcome \<times> node"

record ctx =
  ctx_env :: env
  ctx_gateway :: sql_gateway
  ctx_body :: document
  ctx_db :: string
  ctx_argument :: string
  ctx_seconds :: int
  ctx_passes :: "pass list"

definition ctx_ns :: "ctx \<Rightarrow> namespace outcome" where
  "ctx_ns ctx = parse_namespace (ctx_db ctx) (ctx_argument ctx)"

definition on_server :: "'a action \<Rightarrow> 'a handler" where
  "on_server f n = (case f (srv n) of (r, s) \<Rightarrow> (r, n\<lparr>srv := s\<rparr>))"

definition on_registry :: "(registry \<Rightarrow> 'a outcome \<times> registry) \<Rightarrow> 'a handler" where
  "on_registry f n = (case f (reg n) of (r, g) \<Rightarrow> (r, n\<lparr>reg := g\<rparr>))"

section \<open>The oplog\<close>

definition install_schema :: "oplog_store action" where
  "install_schema s = bind_action (install_oplog_schema False (oplog s), s) (\<lambda>db s.
     (Inr db, s\<lparr>oplog := Some db\<rparr>))"

definition cmd_find_oplog :: "ctx \<Rightarrow> namespace \<Rightarrow> document handler" where
  "cmd_find_oplog ctx ns n =
     bind_action (on_server install_schema n) (\<lambda>db n.
     let body = ctx_body ctx; flt = sub_document body ''filter'' in
     bind_action (number (sub_document body ''sort'') ''$natural'' 1, n) (\<lambda>natural n.
     bind_action (number body ''limit'' 0, n) (\<lambda>limit n.
     bind_action (number body ''batchSize'' kDefaultBatchSize, n) (\<lambda>batch_size n.
     let wanted = nat (if 0 < limit then limit else max batch_size 1) in
     bind_action (find_oplog (bson_lib (ctx_env ctx)) (sql_db (ctx_env ctx)) flt wanted (natural < 0)
        (flag body ''tailable'' False) (flag body ''awaitData'' False) db db, n) (\<lambda>(docs, tail) n.
       case tail of
         None \<Rightarrow> (Inr (cursor_reply 0 (ns_text ns) ''firstBatch'' docs None), n)
       | Some t \<Rightarrow>
           bind_action (on_registry (open_tail (ctx_seconds ctx) (ns_text ns) t) n) (\<lambda>i n.
             (Inr (cursor_reply i (ns_text ns) ''firstBatch'' docs None), n)))))))"

text \<open>The first pass sees the tables as they are; \<open>ctx_passes\<close> are those after it parked.\<close>

definition cmd_tail_batch :: "ctx \<Rightarrow> int \<Rightarrow> namespace \<Rightarrow> tail_state \<Rightarrow> int32 \<Rightarrow> document handler" where
  "cmd_tail_batch ctx cursor_id ns t batch_size n = (case oplog (srv n) of
       None \<Rightarrow> (Inl (namespace_not_found (server_text (ctx_env ctx))), n)
     | Some db \<Rightarrow>
         bind_action (case tail_batch (bson_lib (ctx_env ctx)) (sql_db (ctx_env ctx)) cursor_id (ns_text ns) t
               batch_size \<lparr>at_head = db, at_read = db, at_check = db\<rparr> (ctx_passes ctx) (reg n) of
             Inl e \<Rightarrow> (Inl e, n) | Inr (x, g) \<Rightarrow> (Inr x, n\<lparr>reg := g\<rparr>)) (\<lambda>(docs, next_after) n.
           if \<not> is_change_stream t
           then (Inr (cursor_reply cursor_id (ns_text ns) ''nextBatch'' docs None), n)
           else on_server (append_operation_time
             (cursor_reply cursor_id (ns_text ns) ''nextBatch'' docs (Some next_after)) None) n))"

section \<open>find\<close>

definition cmd_find :: "ctx \<Rightarrow> document handler" where
  "cmd_find ctx n =
     bind_action (ctx_ns ctx, n) (\<lambda>ns n.
     if is_oplog_namespace ns then cmd_find_oplog ctx ns n
     else
       let body = ctx_body ctx in
       bind_action (if coll_exists ns (srv n)
           then and_then (load (ctx_env ctx) ns (sub_document body ''filter'') (srv n)) (\<lambda>docs.
                and_then (number body ''skip'' 0) (\<lambda>skip.
                and_then (number body ''limit'' 0) (\<lambda>limit.
                  shape_results docs (sub_document body ''sort'') (Some (sub_document body ''projection''))
                    skip limit)))
           else Inr [], n) (\<lambda>docs n.
       bind_action (number body ''batchSize'' kDefaultBatchSize, n) (\<lambda>batch_size n.
       bind_action (if flag body ''singleBatch'' False then Inr True
           else and_then (number body ''limit'' 0) (\<lambda>limit. Inr (limit < 0)), n) (\<lambda>single_batch n.
       let (first, rest) = first_batch batch_size docs in
       bind_action (if single_batch then (Inr 0, n)
           else on_registry (open_cursor (ctx_seconds ctx) (ns_text ns) rest) n) (\<lambda>i n.
         (Inr (cursor_reply i (ns_text ns) ''firstBatch'' first None), n))))))"

definition cmd_get_more :: "ctx \<Rightarrow> document handler" where
  "cmd_get_more ctx n = (let body = ctx_body ctx in
     bind_action (case find_field body ''getMore'' of
         Some v \<Rightarrow> if value_is_numeric v then number body ''getMore'' 0
                   else Inl (type_mismatch ''getMore requires the cursor id as a 64-bit integer'')
       | None \<Rightarrow> Inl (type_mismatch ''getMore requires the cursor id as a 64-bit integer''), n) (\<lambda>cursor_id n.
     bind_action (parse_namespace (ctx_db ctx) (text_field body ''collection''), n) (\<lambda>ns n.
     bind_action (number body ''batchSize'' kDefaultBatchSize, n) (\<lambda>batch_size n.
     let batch_size = (word_of_int batch_size :: int32) in
     bind_action (on_registry (\<lambda>g. case tail_of (ctx_seconds ctx) cursor_id (ns_text ns) g of
         (t, g') \<Rightarrow> (Inr t, g')) n) (\<lambda>tail n.
       case tail of
         Some t \<Rightarrow>
           bind_action (number body ''maxTimeMS'' 1000, n) (\<lambda>_ n.
             cmd_tail_batch ctx cursor_id ns t batch_size n)
       | None \<Rightarrow>
           bind_action (on_registry (next_batch (ctx_seconds ctx) cursor_id (ns_text ns) batch_size) n)
             (\<lambda>(batch, exhausted) n.
               (Inr (cursor_reply (if exhausted then 0 else cursor_id) (ns_text ns) ''nextBatch'' batch None), n)))))))"

text \<open>The ids that were killed and those that were not there, each in the order they came.\<close>

fun kill_each :: "bson list \<Rightarrow> registry \<Rightarrow> (bson list \<times> bson list) outcome \<times> registry" where
  "kill_each [] g = (Inr ([], []), g)"
| "kill_each (v # vs) g =
     (if \<not> value_is_numeric v then kill_each vs g
      else case d_to_int64 (as_double v) of
          None \<Rightarrow> (Inl Undefined, g)
        | Some w \<Rightarrow> (case kill (sint w) g of (was_there, g1) \<Rightarrow>
            bind_action (kill_each vs g1) (\<lambda>(killed, missing) g2.
              (Inr (if was_there then (BInt64 w # killed, missing) else (killed, BInt64 w # missing)), g2))))"

definition cmd_kill_cursors :: "ctx \<Rightarrow> document handler" where
  "cmd_kill_cursors ctx n =
     bind_action (on_registry (kill_each (case find_field (ctx_body ctx) ''cursors'' of
         Some (BArray d) \<Rightarrow> map snd d | _ \<Rightarrow> [])) n) (\<lambda>(killed, missing) n.
       (Inr [(''cursorsKilled'', BArray (make_array killed)), (''cursorsNotFound'', BArray (make_array missing)),
             (''cursorsAlive'', BArray []), (''cursorsUnknown'', BArray []), (''ok'', bone)], n))"

definition cmd_count :: "ctx \<Rightarrow> document action" where
  "cmd_count ctx s =
     bind_action (ctx_ns ctx, s) (\<lambda>ns s.
     bind_action (count_documents (ctx_env ctx) ns (sub_document (ctx_body ctx) ''query'') s, s) (\<lambda>k s.
     bind_action (number (ctx_body ctx) ''skip'' 0, s) (\<lambda>skip s.
     bind_action (throw_if (2 ^ 63 \<le> int k - skip) Undefined, s) (\<lambda>_ s.
     let k = max 0 (int k - skip) in
     bind_action (number (ctx_body ctx) ''limit'' 0, s) (\<lambda>limit s.
     let k = (if 0 < limit then min k limit else k) in
       (Inr [(''n'', BInt32 (word_of_int k)), (''ok'', bone)], s))))))"

section \<open>aggregate\<close>

definition stage_name :: "document list \<Rightarrow> string option outcome" where
  "stage_name sts = (case sts of
       [] \<Rightarrow> Inr None
     | st # _ \<Rightarrow> and_then (stage_operator st) (\<lambda>(name, _). Inr (Some name)))"

definition cmd_open_change_stream :: "ctx \<Rightarrow> document list \<Rightarrow> document handler" where
  "cmd_open_change_stream ctx sts n =
     bind_action (throw_if (1 < length sts) (not_implemented
       ''$changeStream must be the only stage in the pipeline (see changestream-plan.md)''), n) (\<lambda>_ n.
     bind_action (throw_if (ctx_argument ctx = []) (not_implemented
       ''database-level watch (aggregate: 1) is not supported (see changestream-plan.md)''), n) (\<lambda>_ n.
     bind_action (ctx_ns ctx, n) (\<lambda>ns n.
     bind_action (throw_if (is_oplog_namespace ns) (not_implemented
       ''$changeStream on local.oplog.rs: tail it directly instead (see changestream-plan.md)''), n) (\<lambda>_ n.
     bind_action (stage_operator (hd sts), n) (\<lambda>(_, options) n.
     bind_action (throw_if (\<not> is_document options) (type_mismatch
       ''$changeStream takes a document of options''), n) (\<lambda>_ n.
     bind_action (parse_change_stream (sub_fields options), n) (\<lambda>opts n.
     bind_action (on_server install_schema n) (\<lambda>db n.
     bind_action (open_change_stream opts db db, n) (\<lambda>t n.
     bind_action (on_registry (open_tail (ctx_seconds ctx) (ns_text ns) t) n) (\<lambda>i n.
       on_server (append_operation_time
         (cursor_reply i (ns_text ns) ''firstBatch'' [] (Some (unat (Cursors.after_seq t)))) None) n))))))))))"

definition take_sql_source :: "ctx \<Rightarrow> document list \<Rightarrow> (document list \<times> document list) action" where
  "take_sql_source ctx sts s = (case sts of
       [] \<Rightarrow> (Inr ([], []), s)
     | st # rest \<Rightarrow>
         bind_action (stage_operator st, s) (\<lambda>(name, sql) s.
           if name \<noteq> ''$sql'' then (Inr ([], sts), s)
           else case sql of
               BUtf8 text \<Rightarrow> bind_action (run_sql_gateway (ctx_gateway ctx) text s) (\<lambda>r s.
                 (Inr (sql_documents r, rest), s))
             | _ \<Rightarrow> (Inl (type_mismatch ''$sql takes a statement string''), s)))"

text \<open>The documents of a pipeline, and the name its cursor is given.\<close>

definition aggregate_documents :: "ctx \<Rightarrow> document list \<Rightarrow> (document list \<times> string) action" where
  "aggregate_documents ctx sts s =
     bind_action (stage_name sts, s) (\<lambda>name s.
       if name = Some ''$sql''
       then
         bind_action (take_sql_source ctx sts s) (\<lambda>(docs, rest) s.
         bind_action (run_stages (raw_bytes (ctx_env ctx)) docs rest, s) (\<lambda>docs s.
           (Inr (docs, ctx_db ctx @ ''.$cmd.aggregate''), s)))
       else
         bind_action (split_pipeline sts, s) (\<lambda>plan s.
         bind_action (ctx_ns ctx, s) (\<lambda>ns s.
         bind_action (if coll_exists ns s then load (ctx_env ctx) ns (prefilter plan) s else Inr [], s) (\<lambda>docs s.
         bind_action (run_stages (raw_bytes (ctx_env ctx)) docs (stages plan), s) (\<lambda>docs s.
           (Inr (docs, ns_text ns), s))))))"

definition later_change_stream :: "document list \<Rightarrow> unit outcome" where
  "later_change_stream sts = fold_res (\<lambda>st _. and_then (stage_operator st) (\<lambda>(name, _).
     throw_if (name = ''$changeStream'') (not_implemented
       ''$changeStream is only valid as the first pipeline stage (see changestream-plan.md)''))) sts ()"

definition cmd_aggregate :: "ctx \<Rightarrow> document handler" where
  "cmd_aggregate ctx n =
     bind_action (pipeline_stages (Some (sub_document (ctx_body ctx) ''pipeline'')), n) (\<lambda>sts n.
     bind_action (stage_name sts, n) (\<lambda>name n.
       if name = Some ''$changeStream'' then cmd_open_change_stream ctx sts n
       else
         bind_action (later_change_stream sts, n) (\<lambda>_ n.
         bind_action (on_server (aggregate_documents ctx sts) n) (\<lambda>(docs, ns) n.
         bind_action (number (ctx_body ctx) ''batchSize'' kDefaultBatchSize, n) (\<lambda>batch_size n.
         let (first, rest) = first_batch batch_size docs in
         bind_action (on_registry (open_cursor (ctx_seconds ctx) ns rest) n) (\<lambda>i n.
           (Inr (cursor_reply i ns ''firstBatch'' first None), n)))))))"

definition cmd_chimera_sql :: "ctx \<Rightarrow> document action" where
  "cmd_chimera_sql ctx s =
     bind_action (run_sql_gateway (ctx_gateway ctx) (ctx_argument ctx) s) (\<lambda>r s.
       (Inr (if \<not> had_result_set r then [(''n'', BInt64 (affected_rows r)), (''ok'', bone)]
             else cursor_reply 0 (ctx_db ctx @ ''.$cmd.chimeraSql'') ''firstBatch'' (sql_documents r) None), s))"

section \<open>distinct\<close>

definition remember :: "(document \<Rightarrow> string) \<Rightarrow> bson \<Rightarrow> bson list \<Rightarrow> bson list" where
  "remember raw candidate seen = (if list_ex (\<lambda>v. value_equal raw v candidate) seen then seen else seen @ [candidate])"

definition distinct_values :: "(document \<Rightarrow> string) \<Rightarrow> path \<Rightarrow> document list \<Rightarrow> bson list" where
  "distinct_values raw path docs = foldl (\<lambda>seen d. case path_get d path of
       None \<Rightarrow> seen
     | Some (BArray elements) \<Rightarrow> foldl (\<lambda>seen v. remember raw v seen) seen (map snd elements)
     | Some v \<Rightarrow> remember raw v seen) [] docs"

definition cmd_distinct :: "ctx \<Rightarrow> document action" where
  "cmd_distinct ctx s = (let key = text_field (ctx_body ctx) ''key'' in
     if key = [] then (Inl (missing_command_field (''BSON field '' @ sq @ ''distinct.key'' @ sq @ '' is missing but a required field'')), s)
     else
       bind_action (ctx_ns ctx, s) (\<lambda>ns s.
       bind_action (if coll_exists ns s
           then and_then (split_path key) (\<lambda>path.
                and_then (load (ctx_env ctx) ns (sub_document (ctx_body ctx) ''query'') s) (\<lambda>docs.
                  Inr (distinct_values (raw_bytes (ctx_env ctx)) path docs)))
           else Inr [], s) (\<lambda>values s.
         (Inr [(''values'', BArray (make_array values)), (''ok'', bone)], s))))"

end
