(* ===== verification/Writes.thy ===== *)
theory Writes
  imports Reads
begin

text \<open>
  The writing commands (commands.cc): insert, update, delete and findAndModify. Every element of a
  batch is a transaction of its own; what fails is reported by its place in the batch.
\<close>

section \<open>Batches\<close>

text \<open>
  The loop the three batch commands share: an element that is not a document and one that throws a
  \<open>TranslatorError\<close> are recorded, and end the loop when it is ordered.
\<close>

fun batch ::
  "bool \<Rightarrow> string \<Rightarrow> (document \<Rightarrow> 'a action) \<Rightarrow> nat \<Rightarrow> bson list
    \<Rightarrow> ((nat \<times> 'a) list \<times> (nat \<times> translator_error) list) action" where
  "batch in_order what f i [] s = (Inr ([], []), s)"
| "batch in_order what f i (v # vs) s =
     (case (case sub_fields v of
         None \<Rightarrow> (Inl (type_mismatch (what @ ''[] entries must be objects'')), s)
       | Some d \<Rightarrow> f d s) of
        (Inr x, s1) \<Rightarrow>
          bind_action (batch in_order what f (i + 1) vs s1) (\<lambda>(oks, errors) s2. (Inr ((i, x) # oks, errors), s2))
      | (Inl (Raise e), s1) \<Rightarrow>
          if in_order then (Inr ([], [(i, e)]), s1)
          else bind_action (batch in_order what f (i + 1) vs s1) (\<lambda>(oks, errors) s2. (Inr (oks, (i, e) # errors), s2))
      | (Inl e, s1) \<Rightarrow> (Inl e, s1))"

definition write_error :: "nat \<times> translator_error \<Rightarrow> bson" where
  "write_error = (\<lambda>(op_index, e). BDocument [(''index'', BInt32 (word_of_nat op_index)),
     (''code'', BInt32 (word_of_int (te_code e))), (''errmsg'', utf8 (te_what e))])"

definition append_write_errors :: "document \<Rightarrow> (nat \<times> translator_error) list \<Rightarrow> document" where
  "append_write_errors reply errors =
     (if errors = [] then reply
      else reply @ [(''writeErrors'', BArray (make_array (map write_error errors)))])"

definition array_field :: "document \<Rightarrow> string \<Rightarrow> failure \<Rightarrow> bson list outcome" where
  "array_field d name e = (case find_field d name of Some (BArray vs) \<Rightarrow> Inr (map snd vs) | _ \<Rightarrow> Inl e)"

text \<open>The stamp of the last element that was written.\<close>

definition last_stamp :: "(nat \<times> 'a \<times> optime) list \<Rightarrow> optime option" where
  "last_stamp oks = (if oks = [] then None else Some (snd (snd (last oks))))"

definition cmd_insert :: "ctx \<Rightarrow> document action" where
  "cmd_insert ctx s = (let body = ctx_body ctx; env = ctx_env ctx in
     bind_action (array_field body ''documents'' (failed_to_parse
       (''insert requires a '' @ sq @ ''documents'' @ sq @ '' array'')), s) (\<lambda>values s.
     let in_order = flag body ''ordered'' True in
     bind_action (ctx_ns ctx, s) (\<lambda>ns s.
     bind_action (create env False ns s) (\<lambda>_ s.
     bind_action (batch in_order ''documents'' (\<lambda>d. run_atomically (insert_document env ns d)) 0 values s)
       (\<lambda>(oks, errors) s.
         append_operation_time (append_write_errors [] errors
           @ [(''n'', BInt32 (word_of_nat (length oks))), (''ok'', bone)]) (last_stamp oks) s)))))"

definition update_statement :: "env \<Rightarrow> namespace \<Rightarrow> document \<Rightarrow> (update_outcome \<times> optime) action" where
  "update_statement env ns spec s =
     (case view_field spec ''q'' of
        None \<Rightarrow> (Inl (failed_to_parse ''update.q must be an object''), s)
      | Some flt \<Rightarrow> (case view_field spec ''u'' of
          None \<Rightarrow> (Inl (failed_to_parse ''update.u must be an object''), s)
        | Some upd \<Rightarrow> run_atomically (update_documents env ns flt upd (flag spec ''multi'' False)
            (flag spec ''upsert'' False)) s))"

definition upserted_ids :: "(nat \<times> update_outcome \<times> optime) list \<Rightarrow> (nat \<times> bson) list" where
  "upserted_ids oks = concat (map (\<lambda>(i, out, _). case upserted_id out of None \<Rightarrow> [] | Some v \<Rightarrow> [(i, v)]) oks)"

definition cmd_update :: "ctx \<Rightarrow> document action" where
  "cmd_update ctx s = (let body = ctx_body ctx; env = ctx_env ctx in
     bind_action (array_field body ''updates'' (failed_to_parse
       (''update requires an '' @ sq @ ''updates'' @ sq @ '' array'')), s) (\<lambda>values s.
     let in_order = flag body ''ordered'' True in
     bind_action (ctx_ns ctx, s) (\<lambda>ns s.
     bind_action (create env False ns s) (\<lambda>_ s.
     bind_action (batch in_order ''updates'' (update_statement env ns) 0 values s) (\<lambda>(oks, errors) s.
       let upserted = upserted_ids oks;
           n = sum_list (map (\<lambda>(_, out, _). matched out) oks) + length upserted;
           nModified = sum_list (map (\<lambda>(_, out, _). modified out) oks)
       in append_operation_time (append_write_errors [] errors
           @ [(''n'', BInt32 (word_of_nat n)), (''nModified'', BInt32 (word_of_nat nModified))]
           @ (if upserted = [] then [] else [(''upserted'', BArray (make_array (map (\<lambda>(i, v).
                BDocument [(''index'', BInt32 (word_of_nat i)), (''_id'', v)]) upserted)))])
           @ [(''ok'', bone)]) (last_stamp oks) s)))))"

definition delete_entry :: "env \<Rightarrow> namespace \<Rightarrow> document \<Rightarrow> (nat \<times> optime) action" where
  "delete_entry env ns spec s =
     (case view_field spec ''q'' of
        None \<Rightarrow> (Inl (failed_to_parse ''delete.q must be an object''), s)
      | Some flt \<Rightarrow> bind_action (number spec ''limit'' 0, s) (\<lambda>limit s.
          run_atomically (remove_documents env ns flt (limit = 1)) s))"

definition cmd_delete :: "ctx \<Rightarrow> document action" where
  "cmd_delete ctx s = (let body = ctx_body ctx; env = ctx_env ctx in
     bind_action (array_field body ''deletes'' (failed_to_parse
       (''delete requires a '' @ sq @ ''deletes'' @ sq @ '' array'')), s) (\<lambda>values s.
     let in_order = flag body ''ordered'' True in
     bind_action (ctx_ns ctx, s) (\<lambda>ns s.
     bind_action (if coll_exists ns s then batch in_order ''deletes'' (delete_entry env ns) 0 values s
         else (Inr ([], []), s)) (\<lambda>(oks, errors) s.
       append_operation_time (append_write_errors [] errors
         @ [(''n'', BInt32 (word_of_nat (sum_list (map (\<lambda>(_, k, _). k) oks)))), (''ok'', bone)])
         (last_stamp oks) s))))"

section \<open>findAndModify\<close>

record modified_one =
  reported :: "document option"
  touched :: nat
  updated_existing :: bool
  new_id :: "bson option"

definition reload :: "env \<Rightarrow> namespace \<Rightarrow> bson \<Rightarrow> server \<Rightarrow> document option outcome" where
  "reload env ns i s = and_then (load env ns [(''_id'', i)] s) (\<lambda>docs.
     Inr (case docs of [] \<Rightarrow> None | d # _ \<Rightarrow> Some d))"

definition modify_one ::
  "env \<Rightarrow> namespace \<Rightarrow> document \<Rightarrow> document \<Rightarrow> document \<Rightarrow> bool \<Rightarrow> bool \<Rightarrow> bool \<Rightarrow> modified_one action" where
  "modify_one env ns query srt upd removing return_new upsert s =
     bind_action (if coll_exists ns s then and_then (load env ns query s) (\<lambda>docs. shape_results docs srt None 0 1)
         else Inr [], s) (\<lambda>matches s.
       case matches of
         d # _ \<Rightarrow> (case path_get d id_path of
             None \<Rightarrow> (Inl (internal_error ''stored document has no _id''), s)
           | Some i \<Rightarrow>
               if removing
               then bind_action (remove_documents env ns [(''_id'', i)] True s) (\<lambda>_ s.
                 (Inr \<lparr>reported = Some d, touched = 1, updated_existing = False, new_id = None\<rparr>, s))
               else bind_action (update_documents env ns [(''_id'', i)] upd False False s) (\<lambda>_ s.
                 bind_action (if return_new then reload env ns i s else Inr (Some d), s) (\<lambda>value s.
                 (Inr \<lparr>reported = value, touched = 1, updated_existing = True, new_id = None\<rparr>, s))))
       | [] \<Rightarrow>
           if \<not> removing \<and> upsert
           then bind_action (update_documents env ns query upd False True s) (\<lambda>out s.
             bind_action (case upserted_id out of
                 Some i \<Rightarrow> if return_new then reload env ns i s else Inr None
               | None \<Rightarrow> Inr None, s) (\<lambda>value s.
             (Inr \<lparr>reported = value, touched = 0, updated_existing = False, new_id = upserted_id out\<rparr>, s)))
           else (Inr \<lparr>reported = None, touched = 0, updated_existing = False, new_id = None\<rparr>, s))"

definition cmd_find_and_modify :: "ctx \<Rightarrow> document action" where
  "cmd_find_and_modify ctx s = (let body = ctx_body ctx; env = ctx_env ctx;
       removing = flag body ''remove'' False; upd = view_field body ''update'';
       fields = sub_document body ''fields'' in
     bind_action (throw_if (\<not> removing \<and> upd = None) (failed_to_parse (''findAndModify requires either ''
       @ sq @ ''remove'' @ sq @ '' or an '' @ sq @ ''update'' @ sq @ '' object'')), s) (\<lambda>_ s.
     bind_action (ctx_ns ctx, s) (\<lambda>ns s.
     bind_action (if \<not> removing then create env False ns s
         else bind_action (clock_reading s) (\<lambda>_ s. (Inr (), s))) (\<lambda>_ s.
     bind_action (run_atomically (modify_one env ns (sub_document body ''query'') (sub_document body ''sort'')
         (case upd of None \<Rightarrow> [] | Some u \<Rightarrow> u) removing (flag body ''new'' False) (flag body ''upsert'' False)) s)
       (\<lambda>(m, stamp) s.
     bind_action (case reported m of
         None \<Rightarrow> Inr BNull
       | Some d \<Rightarrow> and_then (if fields = [] then Inr d else project d (Some fields)) (\<lambda>d. Inr (BDocument d)), s)
       (\<lambda>value s.
         append_operation_time
           [(''lastErrorObject'', BDocument ([(''n'', BInt32 (word_of_nat (if new_id m \<noteq> None then 1 else touched m))),
               (''updatedExisting'', BBool (updated_existing m))]
               @ (case new_id m of None \<Rightarrow> [] | Some i \<Rightarrow> [(''upserted'', i)]))),
            (''value'', value), (''ok'', bone)] (Some stamp) s))))))"

section \<open>What a batch reports\<close>

lemma batch_step:
  assumes "batch in_order what f i (v # vs) s = (Inr (oks, errors), s')"
  obtains (Done) x s1 oks' where "batch in_order what f (i + 1) vs s1 = (Inr (oks', errors), s')"
      "oks = (i, x) # oks'" "\<exists>d. sub_fields v = Some d \<and> f d s = (Inr x, s1)"
    | (Stopped) e where "in_order" "oks = []" "errors = [(i, e)]"
        "sub_fields v = None \<and> s' = s \<or> (\<exists>d. sub_fields v = Some d \<and> f d s = (Inl (Raise e), s'))"
    | (Skipped) e s1 errors' where "\<not> in_order" "batch in_order what f (i + 1) vs s1 = (Inr (oks, errors'), s')"
        "errors = (i, e) # errors'"
        "sub_fields v = None \<and> s1 = s \<or> (\<exists>d. sub_fields v = Some d \<and> f d s = (Inl (Raise e), s1))"
proof -
  obtain r s1 where r: "(case sub_fields v of None \<Rightarrow> (Inl (type_mismatch (what @ ''[] entries must be objects'')), s)
       | Some d \<Rightarrow> f d s) = (r, s1)" by (cases "case sub_fields v of None \<Rightarrow> (Inl (type_mismatch (what @ ''[] entries must be objects'')), s)
       | Some d \<Rightarrow> f d s")
  show thesis
  proof (cases r)
    case (Inr x)
    with r have f: "\<exists>d. sub_fields v = Some d \<and> f d s = (Inr x, s1)" by (cases "sub_fields v") auto
    from assms r Inr obtain oks' where "batch in_order what f (i + 1) vs s1 = (Inr (oks', errors), s')"
      "oks = (i, x) # oks'" by (auto elim!: bind_actionE)
    then show thesis using f by (rule Done)
  next
    case (Inl e0)
    with assms r obtain e where e: "e0 = Raise e" by (cases e0) auto
    have src: "sub_fields v = None \<and> s1 = s \<or> (\<exists>d. sub_fields v = Some d \<and> f d s = (Inl (Raise e), s1))"
      using r Inl e by (cases "sub_fields v") auto
    show thesis
    proof (cases in_order)
      case True
      with assms r Inl e have "oks = []" "errors = [(i, e)]" "s' = s1" by simp_all
      with src True show thesis by (intro Stopped [of e]) auto
    next
      case False
      with assms r Inl e obtain errors' where "batch in_order what f (i + 1) vs s1 = (Inr (oks, errors'), s')"
        "errors = (i, e) # errors'" by (auto elim!: bind_actionE)
      then show thesis using src False by (intro Skipped) auto
    qed
  qed
qed

text \<open>
  A batch accounts for every element it looked at, once: as written or as an error under its own
  index. It looks at all of them, unless it is ordered and one failed; then that one, the last it
  looked at, is the only error.
\<close>

theorem batch_accounts_for_every_element:
  assumes "batch in_order what f i vs s = (Inr (oks, errors), s')"
  shows "\<exists>k. mset (map fst oks @ map fst errors) = mset [i..<i + k] \<and>
    (if in_order \<and> errors \<noteq> [] then k \<le> length vs \<and> map fst errors = [i + k - 1] else k = length vs)"
  using assms
proof (induction vs arbitrary: i s oks errors)
  case (Cons v vs)
  have up: "[i..<i + Suc k] = i # [i + 1..<i + 1 + k]" for k
    using upt_conv_Cons [of i "i + Suc k"] by simp
  from Cons.prems show ?case
  proof (cases rule: batch_step)
    case (Done x s1 oks')
    from Cons.IH [OF Done(1)] obtain k where
      "mset (map fst oks' @ map fst errors) = mset [i + 1..<i + 1 + k]"
      "if in_order \<and> errors \<noteq> [] then k \<le> length vs \<and> map fst errors = [i + 1 + k - 1] else k = length vs" by blast
    then show ?thesis using Done(2) up [of k] by (intro exI [of _ "Suc k"]) (auto split: if_splits)
  next
    case (Stopped e)
    then show ?thesis by (intro exI [of _ "Suc 0"]) simp
  next
    case (Skipped e s1 errors')
    from Cons.IH [OF Skipped(2)] Skipped(1) obtain k where
      "mset (map fst oks @ map fst errors') = mset [i + 1..<i + 1 + k]" "k = length vs" by auto
    then show ?thesis using Skipped(1,3) up [of k] by (intro exI [of _ "Suc k"]) simp
  qed
qed simp

theorem batch_accounts_for_every_element_witness:
  "\<exists>k. mset (map fst [(0::nat, ())] @ map fst [(1::nat, \<lparr>te_code = 14, te_code_name = ''TypeMismatch'',
        te_what = ''documents[] entries must be objects''\<rparr>)]) = mset [0..<0 + k]
    \<and> (if True \<and> [(1::nat, \<lparr>te_code = 14, te_code_name = ''TypeMismatch'',
        te_what = ''documents[] entries must be objects''\<rparr>)] \<noteq> []
       then k \<le> length [BDocument [], BNull, BDocument []]
         \<and> map fst [(1::nat, \<lparr>te_code = 14, te_code_name = ''TypeMismatch'',
             te_what = ''documents[] entries must be objects''\<rparr>)] = [0 + k - 1]
       else k = length [BDocument [], BNull, BDocument []])"
  by (rule batch_accounts_for_every_element [where what = "''documents''" and f = "\<lambda>_ s. (Inr (), s)"
      and s = fresh_server and s' = fresh_server])
    (simp add: type_mismatch_def mk_error_def)

text \<open>Every element that is written adds a row, and no other does.\<close>

lemma batch_inserts:
  "batch in_order what (\<lambda>d. run_atomically (insert_document env ns d)) i vs s = (Inr (oks, errors), s') \<Longrightarrow>
    length (docs_of ns s') = length (docs_of ns s) + length oks \<and> (errors = [] \<longleftrightarrow> length oks = length vs)
    \<and> length oks \<le> length vs"
proof (induction vs arbitrary: i s oks errors)
  case (Cons v vs)
  have failed: "s1 = s" if "run_atomically (insert_document env ns d) s = (Inl e, s1)" for d e s1
    using that by (cases rule: atomically) auto
  from Cons.prems show ?case
  proof (cases rule: batch_step)
    case (Done x s1 oks')
    then obtain d where d: "run_atomically (insert_document env ns d) s = (Inr x, s1)" by blast
    then obtain i' where "insert_document env ns d s = (Inr i', s1)"
      by (cases rule: atomically) auto
    then obtain key json where "sql_insert env ns key json s = (Inr (), s1)"
      by (auto simp: insert_document_def Let_def elim!: bind_actionE split: option.splits)
    from insert_rows [OF this] have "length (docs_of ns s1) = Suc (length (docs_of ns s))" by simp
    with Cons.IH [OF Done(1)] Done(2) show ?thesis by auto
  next
    case (Stopped e)
    then have "s' = s" using failed by blast
    with Stopped show ?thesis by simp
  next
    case (Skipped e s1 errors')
    then have "s1 = s" using failed by blast
    with Cons.IH [OF Skipped(2)] Skipped(3) show ?thesis by auto
  qed
qed simp

lemma create_docs: "create env e ns s = (Inr u, s1) \<Longrightarrow> docs_of ns s1 = docs_of ns s"
  by (auto simp: create_def install_oplog_triggers_def adopt_table_def docs_of_def coll_exists_def
      split: if_splits sum.splits option.splits)

lemma appended_time:
  "append_operation_time reply stamp s = (Inr r, s') \<Longrightarrow>
    \<exists>t. r = reply @ [(''operationTime'', t)] \<and> (stamp = None \<or> s' = s)"
  by (auto simp: append_operation_time_def elim!: bind_actionE split: option.splits)

lemma clock_reading_docs: "docs_of ns (snd (clock_reading s)) = docs_of ns s"
  by (simp add: clock_reading_def Let_def docs_of_def)
    (cases "install_oplog_schema False (oplog s)"; simp)

lemma append_operation_time_docs: "docs_of ns (snd (append_operation_time reply stamp s)) = docs_of ns s"
proof (cases stamp)
  case None
  obtain r s1 where c: "clock_reading s = (r, s1)" by (cases "clock_reading s")
  then have "docs_of ns s1 = docs_of ns s" using clock_reading_docs [of ns s] by simp
  then show ?thesis using None c by (cases r) (simp_all add: append_operation_time_def)
qed (simp add: append_operation_time_def)

text \<open>
  C8. The reply to an insert tells the truth: its \<open>n\<close> is the number of rows the collection gained, and
  it carries \<open>writeErrors\<close> exactly when some document of the batch was not written.
\<close>

theorem insert_reply_counts_the_rows:
  assumes "cmd_insert ctx s = (Inr reply, s')" and "ctx_ns ctx = Inr ns"
    and "find_field (ctx_body ctx) ''documents'' = Some (BArray elements)"
  shows "\<exists>k. find_field reply ''n'' = Some (BInt32 (word_of_nat k))
    \<and> length (docs_of ns s') = length (docs_of ns s) + k \<and> k \<le> length elements
    \<and> (find_field reply ''writeErrors'' = None \<longleftrightarrow> k = length elements)"
proof -
  from assms obtain s1 s2 oks errors where c: "create (ctx_env ctx) False ns s = (Inr (), s1)"
    and b: "batch (flag (ctx_body ctx) ''ordered'' True) ''documents''
        (\<lambda>d. run_atomically (insert_document (ctx_env ctx) ns d)) 0 (map snd elements) s1
      = (Inr (oks, errors), s2)"
    and r: "append_operation_time (append_write_errors [] errors
        @ [(''n'', BInt32 (word_of_nat (length oks))), (''ok'', bone)]) (last_stamp oks) s2 = (Inr reply, s')"
    by (auto simp: cmd_insert_def Let_def array_field_def elim!: bind_actionE)
  from appended_time [OF r] obtain t where reply: "reply = (append_write_errors [] errors
        @ [(''n'', BInt32 (word_of_nat (length oks))), (''ok'', bone)]) @ [(''operationTime'', t)]" by blast
  have "docs_of ns s' = docs_of ns s2"
    using append_operation_time_docs [of ns _ "last_stamp oks" s2] r by (metis snd_conv)
  with batch_inserts [OF b] create_docs [OF c] show ?thesis
    by (intro exI [of _ "length oks"])
      (auto simp: reply append_write_errors_def find_field_def c_str_def nul_def)
qed

definition demo_ctx :: "document \<Rightarrow> ctx" where
  "demo_ctx body = \<lparr>ctx_env = demo_env, ctx_gateway = \<lparr>network_exposed = False, write_flag = None,
       execute = (\<lambda>_ _ s. (Inl (1064, ''syntax''), s))\<rparr>, ctx_body = body, ctx_db = ''app'', ctx_argument = ''a'',
     ctx_seconds = 0, ctx_passes = []\<rparr>"

definition twice :: document where
  "twice = [(''insert'', BUtf8 ''a''), (''documents'', BArray [(''0'', BDocument doc_a), (''1'', BDocument doc_a)])]"

lemma succeeds: "\<not> isl (fst m) \<Longrightarrow> m = (Inr (projr (fst m)), snd m)"
  by (cases "fst m") (auto simp: prod_eq_iff)

theorem insert_reply_counts_the_rows_witness:
  "\<exists>k. find_field (projr (fst (cmd_insert (demo_ctx twice) fresh_server))) ''n'' = Some (BInt32 (word_of_nat k))
    \<and> length (docs_of demo_ns (snd (cmd_insert (demo_ctx twice) fresh_server))) = length (docs_of demo_ns fresh_server) + k
    \<and> k \<le> length [(''0'', BDocument doc_a), (''1'', BDocument doc_a)]
    \<and> (find_field (projr (fst (cmd_insert (demo_ctx twice) fresh_server))) ''writeErrors'' = None
      \<longleftrightarrow> k = length [(''0'', BDocument doc_a), (''1'', BDocument doc_a)])"
proof (rule insert_reply_counts_the_rows)
  have "\<not> isl (fst (cmd_insert (demo_ctx twice) fresh_server))" by code_simp
  then show "cmd_insert (demo_ctx twice) fresh_server = (Inr (projr (fst (cmd_insert (demo_ctx twice) fresh_server))),
      snd (cmd_insert (demo_ctx twice) fresh_server))"
    by (rule succeeds)
  show "ctx_ns (demo_ctx twice) = Inr demo_ns" by code_simp
  show "find_field (ctx_body (demo_ctx twice)) ''documents''
      = Some (BArray [(''0'', BDocument doc_a), (''1'', BDocument doc_a)])" by code_simp
qed

text \<open>Every row that is gone is counted.\<close>

lemma delete_shrinks:
  "sql_delete env ns doomed s = (Inr num, s') \<Longrightarrow> length (docs_of ns s) = length (docs_of ns s') + num"
  using delete_rows [of env ns doomed s num s'] sum_length_filter_compl [of doomed "docs_of ns s"] by simp

lemma remove_shrinks:
  assumes "remove_documents env ns flt just_one s = (Inr num, s')"
  shows "length (docs_of ns s) = length (docs_of ns s') + num"
proof (cases "s' = s \<and> num = 0")
  case False
  with assms obtain doomed where "sql_delete env ns doomed s = (Inr num, s')"
    by (auto simp: remove_documents_def elim!: bind_actionE split: if_splits list.splits prod.splits)
  then show ?thesis by (rule delete_shrinks)
qed simp

lemma delete_entry_shrinks:
  assumes "delete_entry env ns spec s = (r, s')"
  shows "length (docs_of ns s) = length (docs_of ns s') + (case r of Inr (num, _) \<Rightarrow> num | Inl _ \<Rightarrow> 0)"
proof -
  have atomic: "length (docs_of ns s) = length (docs_of ns s') + (case r of Inr (num, _) \<Rightarrow> num | Inl _ \<Rightarrow> 0)"
    if "run_atomically (remove_documents env ns flt b) s = (r, s')" for flt b
    using that by (cases rule: atomically) (auto dest: remove_shrinks)
  show ?thesis
  proof (cases "s' = s \<and> isl r")
    case True
    then show ?thesis by (cases r) simp_all
  next
    case False
    with assms obtain flt b where "run_atomically (remove_documents env ns flt b) s = (r, s')"
      by (auto simp: delete_entry_def elim!: bind_actionE split: option.splits)
    then show ?thesis by (rule atomic)
  qed
qed

lemma batch_deletes:
  "batch in_order what (delete_entry env ns) i vs s = (Inr (oks, errors), s') \<Longrightarrow>
    length (docs_of ns s) = length (docs_of ns s') + sum_list (map (\<lambda>(_, k, _). k) oks)"
proof (induction vs arbitrary: i s oks errors)
  case (Cons v vs)
  from Cons.prems show ?case
  proof (cases rule: batch_step)
    case (Done x s1 oks')
    then obtain d where "delete_entry env ns d s = (Inr x, s1)" by blast
    from delete_entry_shrinks [OF this] Cons.IH [OF Done(1)] Done(2) show ?thesis
      by (simp add: case_prod_unfold)
  next
    case (Stopped e)
    then show ?thesis using delete_entry_shrinks by fastforce
  next
    case (Skipped e s1 errors')
    then have "length (docs_of ns s) = length (docs_of ns s1)" using delete_entry_shrinks by fastforce
    with Cons.IH [OF Skipped(2)] show ?thesis by simp
  qed
qed simp

text \<open>
  The \<open>n\<close> of a delete is the number of rows the collection lost, whatever its statements, their
  limits and their failures.
\<close>

theorem delete_reply_counts_the_rows:
  assumes "cmd_delete ctx s = (Inr reply, s')" and "ctx_ns ctx = Inr ns"
  shows "\<exists>k. find_field reply ''n'' = Some (BInt32 (word_of_nat k))
    \<and> length (docs_of ns s) = length (docs_of ns s') + k"
proof -
  from assms obtain elements s2 oks errors where
    b: "(if coll_exists ns s then batch (flag (ctx_body ctx) ''ordered'' True) ''deletes''
        (delete_entry (ctx_env ctx) ns) 0 elements s else (Inr ([], []), s)) = (Inr (oks, errors), s2)"
    and r: "append_operation_time (append_write_errors [] errors
        @ [(''n'', BInt32 (word_of_nat (sum_list (map (\<lambda>(_, k, _). k) oks)))), (''ok'', bone)]) (last_stamp oks) s2
      = (Inr reply, s')"
    by (auto simp: cmd_delete_def Let_def elim!: bind_actionE)
  from appended_time [OF r] obtain t where reply: "reply = (append_write_errors [] errors
        @ [(''n'', BInt32 (word_of_nat (sum_list (map (\<lambda>(_, k, _). k) oks)))), (''ok'', bone)])
      @ [(''operationTime'', t)]" by blast
  have "docs_of ns s' = docs_of ns s2"
    using append_operation_time_docs [of ns _ "last_stamp oks" s2] r by (metis snd_conv)
  moreover have "length (docs_of ns s) = length (docs_of ns s2) + sum_list (map (\<lambda>(_, k, _). k) oks)"
    using b batch_deletes by (cases "coll_exists ns s") auto
  ultimately show ?thesis
    by (intro exI [of _ "sum_list (map (\<lambda>(_, k, _). k) oks)"])
      (auto simp: reply append_write_errors_def find_field_def c_str_def nul_def)
qed

definition delete_all :: document where
  "delete_all = [(''delete'', BUtf8 ''a''), (''deletes'', BArray [(''0'', BDocument [(''q'', BDocument [])])])]"

theorem delete_reply_counts_the_rows_witness:
  "\<exists>k. find_field (projr (fst (cmd_delete (demo_ctx delete_all) demo_server))) ''n'' = Some (BInt32 (word_of_nat k))
    \<and> length (docs_of demo_ns demo_server) = length (docs_of demo_ns (snd (cmd_delete (demo_ctx delete_all) demo_server))) + k"
proof (rule delete_reply_counts_the_rows)
  have "\<not> isl (fst (cmd_delete (demo_ctx delete_all) demo_server))" by code_simp
  then show "cmd_delete (demo_ctx delete_all) demo_server
      = (Inr (projr (fst (cmd_delete (demo_ctx delete_all) demo_server))),
      snd (cmd_delete (demo_ctx delete_all) demo_server))"
    by (rule succeeds)
  show "ctx_ns (demo_ctx delete_all) = Inr demo_ns" by code_simp
qed

end
