(* ===== verification/Dispatch.thy ===== *)
theory Dispatch
  imports Writes
begin

text \<open>
  The commands on namespaces and indexes, and \<open>dispatch_command\<close> (commands.cc): the first field of a
  request names its command, and whatever a handler throws becomes an error reply.
\<close>

section \<open>Namespaces and indexes\<close>

definition cmd_create :: "ctx \<Rightarrow> document action" where
  "cmd_create ctx s =
     bind_action (ctx_ns ctx, s) (\<lambda>ns s.
     bind_action (create (ctx_env ctx) False ns s) (\<lambda>_ s. (Inr ok_reply, s)))"

definition cmd_drop :: "ctx \<Rightarrow> document action" where
  "cmd_drop ctx s =
     bind_action (ctx_ns ctx, s) (\<lambda>ns s.
     bind_action (if coll_exists ns s then list_indexes (ctx_env ctx) ns s else Inr [], s) (\<lambda>indexes s.
       (Inr [(''nIndexesWas'', BInt32 (word_of_nat (length indexes))), (''ns'', utf8 (ns_text ns)), (''ok'', bone)],
        drop_collection ns s)))"

definition cmd_drop_database :: "ctx \<Rightarrow> document action" where
  "cmd_drop_database ctx s =
     bind_action (drop_database (ctx_env ctx) (ctx_db ctx) s) (\<lambda>_ s.
       (Inr [(''dropped'', utf8 (ctx_db ctx)), (''ok'', bone)], s))"

definition cmd_list_databases :: "ctx \<Rightarrow> document action" where
  "cmd_list_databases ctx s =
     (Inr [(''databases'', BArray (make_array (map (\<lambda>name. BDocument [(''name'', utf8 name),
              (''sizeOnDisk'', BInt64 0), (''empty'', BBool False)]) (list_databases s)))),
           (''totalSize'', BInt64 0), (''ok'', bone)], s)"

definition cmd_list_collections :: "ctx \<Rightarrow> document action" where
  "cmd_list_collections ctx s = (let name_only = flag (ctx_body ctx) ''nameOnly'' False in
     (Inr (cursor_reply 0 (ctx_db ctx @ ''.$cmd.listCollections'') ''firstBatch''
        (map (\<lambda>name. [(''name'', utf8 name), (''type'', BUtf8 ''collection'')]
            @ (if name_only then []
               else [(''options'', BDocument []), (''info'', BDocument [(''readOnly'', BBool False)])]))
          (list_collections (ctx_db ctx) s)) None), s))"

definition index_document :: "index_spec \<Rightarrow> document" where
  "index_document spec =
     [(''v'', BInt32 2), (''key'', BDocument (map (\<lambda>(key, d). (key, BInt32 (word_of_int d))) (spec_keys spec))),
      (''name'', utf8 (spec_name spec))]
     @ (if spec_unique spec then [(''unique'', BBool True)] else [])"

definition cmd_list_indexes :: "ctx \<Rightarrow> document action" where
  "cmd_list_indexes ctx s =
     bind_action (ctx_ns ctx, s) (\<lambda>ns s.
     bind_action (list_indexes (ctx_env ctx) ns s, s) (\<lambda>specs s.
       (Inr (cursor_reply 0 (ns_text ns) ''firstBatch'' (map index_document specs) None), s)))"

fun each_action :: "('a \<Rightarrow> unit action) \<Rightarrow> 'a list \<Rightarrow> unit action" where
  "each_action f [] s = (Inr (), s)"
| "each_action f (x # xs) s = bind_action (f x s) (\<lambda>_ s. each_action f xs s)"

definition read_index_key :: "string \<times> bson \<Rightarrow> (string \<times> int) outcome" where
  "read_index_key = (\<lambda>(name, v).
     if \<not> value_is_numeric v
     then Inl (not_implemented ''only ascending and descending index keys are supported'')
     else Inr (name, if d_less (as_double v) (d_of_int 0) then - 1 else 1))"

definition read_index_spec :: "bson \<Rightarrow> index_spec outcome" where
  "read_index_spec v = (case sub_fields v of
       None \<Rightarrow> Inl (type_mismatch ''indexes[] entries must be objects'')
     | Some entry \<Rightarrow> (case view_field entry ''key'' of
         None \<Rightarrow> Inl (failed_to_parse (''an index needs a '' @ sq @ ''key'' @ sq))
       | Some keys \<Rightarrow>
           and_then (map_res read_index_key keys) (\<lambda>ks.
             let name = text_field entry ''name'' in
             and_then (throw_if (name = []) (failed_to_parse (''an index needs a '' @ sq @ ''name'' @ sq))) (\<lambda>_.
               Inr \<lparr>spec_name = name, spec_keys = ks, spec_unique = flag entry ''unique'' False\<rparr>))))"

definition cmd_create_indexes :: "ctx \<Rightarrow> document action" where
  "cmd_create_indexes ctx s = (let env = ctx_env ctx in
     bind_action (array_field (ctx_body ctx) ''indexes'' (failed_to_parse
       (''createIndexes requires an '' @ sq @ ''indexes'' @ sq @ '' array'')), s) (\<lambda>values s.
     bind_action (ctx_ns ctx, s) (\<lambda>ns s.
     let created_collection = \<not> coll_exists ns s in
     bind_action (create env False ns s) (\<lambda>_ s.
     bind_action (list_indexes env ns s, s) (\<lambda>before s.
     bind_action (each_action (\<lambda>v s. bind_action (read_index_spec v, s) (create_index env ns)) values s) (\<lambda>_ s.
     bind_action (list_indexes env ns s, s) (\<lambda>after s.
       (Inr [(''createdCollectionAutomatically'', BBool created_collection),
             (''numIndexesBefore'', BInt32 (word_of_nat (length before))),
             (''numIndexesAfter'', BInt32 (word_of_nat (length after))), (''ok'', bone)], s))))))))"

definition cmd_drop_indexes :: "ctx \<Rightarrow> document action" where
  "cmd_drop_indexes ctx s = (let env = ctx_env ctx; named = text_field (ctx_body ctx) ''index'' in
     bind_action (ctx_ns ctx, s) (\<lambda>ns s.
     bind_action (list_indexes env ns s, s) (\<lambda>before s.
     bind_action (
       if named = ''*''
       then each_action (\<lambda>spec s. if spec_name spec = ''_id_'' then (Inr (), s)
              else bind_action (drop_index env ns (spec_name spec) s) (\<lambda>_ s. (Inr (), s))) before s
       else if named \<noteq> []
       then bind_action (drop_index env ns named s) (\<lambda>found s.
              (throw_if (\<not> found) (index_not_found (''index not found with name ['' @ named @ '']'')), s))
       else (Inl (not_implemented ''dropIndexes by key document is not supported; name the index''), s))
       (\<lambda>_ s. (Inr [(''nIndexesWas'', BInt32 (word_of_nat (length before))), (''ok'', bone)], s)))))"

section \<open>Dispatch\<close>

record session =
  ses_env :: env
  ses_gateway :: sql_gateway
  ses_identity :: identity
  ses_connection :: int64
  ses_version :: string
  ses_millis :: int64
  ses_seconds :: int
  ses_passes :: "pass list"
  ses_what :: string

text \<open>The handlers of the commands that reach a collection, by name.\<close>

definition handlers :: "(string \<times> (ctx \<Rightarrow> document handler)) list" where
  "handlers =
     [(''find'', cmd_find), (''getMore'', cmd_get_more), (''killCursors'', cmd_kill_cursors),
      (''count'', \<lambda>c. on_server (cmd_count c)), (''aggregate'', cmd_aggregate),
      (''distinct'', \<lambda>c. on_server (cmd_distinct c)), (''chimeraSql'', \<lambda>c. on_server (cmd_chimera_sql c)),
      (''insert'', \<lambda>c. on_server (cmd_insert c)), (''update'', \<lambda>c. on_server (cmd_update c)),
      (''delete'', \<lambda>c. on_server (cmd_delete c)),
      (''findAndModify'', \<lambda>c. on_server (cmd_find_and_modify c)),
      (''findandmodify'', \<lambda>c. on_server (cmd_find_and_modify c)),
      (''create'', \<lambda>c. on_server (cmd_create c)), (''drop'', \<lambda>c. on_server (cmd_drop c)),
      (''dropDatabase'', \<lambda>c. on_server (cmd_drop_database c)),
      (''listDatabases'', \<lambda>c. on_server (cmd_list_databases c)),
      (''listCollections'', \<lambda>c. on_server (cmd_list_collections c)),
      (''listIndexes'', \<lambda>c. on_server (cmd_list_indexes c)),
      (''createIndexes'', \<lambda>c. on_server (cmd_create_indexes c)),
      (''dropIndexes'', \<lambda>c. on_server (cmd_drop_indexes c))]"

definition run_command_named :: "session \<Rightarrow> request \<Rightarrow> string \<Rightarrow> bson \<Rightarrow> document handler" where
  "run_command_named ses req name arg n =
     (if name \<in> {''hello'', ''isMaster'', ''ismaster''}
      then (Inr (hello_reply (ses_identity ses) (ses_connection ses) (ses_millis ses)), n)
      else if name = ''ping'' then on_server (append_operation_time ok_reply None) n
      else if name \<in> {''buildInfo'', ''buildinfo''} then (Inr (build_info_reply (ses_version ses)), n)
      else if name = ''replSetGetStatus''
      then (Inr (repl_set_status_reply (ses_identity ses) (ses_millis ses)), n)
      else if name = ''getParameter'' then (Inr (get_parameter_reply (req_body req)), n)
      else if name \<in> {''endSessions'', ''refreshSessions''} then (Inr ok_reply, n)
      else case map_of handlers name of
          None \<Rightarrow> (Inr (error_reply 59 ''CommandNotFound'' (''no such command: '' @ sq @ name @ sq)), n)
        | Some h \<Rightarrow> h \<lparr>ctx_env = ses_env ses, ctx_gateway = ses_gateway ses, ctx_body = req_body req,
            ctx_db = database req, ctx_argument = (case arg of BUtf8 s \<Rightarrow> s | _ \<Rightarrow> []),
            ctx_seconds = ses_seconds ses, ctx_passes = ses_passes ses\<rparr> n)"

fun failure_reply :: "string \<Rightarrow> failure \<Rightarrow> document outcome" where
  "failure_reply what (Raise e) = Inr (error_reply (te_code e) (te_code_name e) (te_what e))"
| "failure_reply what Std_exception = Inr (error_reply 1 ''InternalError'' what)"
| "failure_reply what Undefined = Inl Undefined"

definition dispatch_command :: "session \<Rightarrow> request \<Rightarrow> document handler" where
  "dispatch_command ses req n = (case document_fields (req_body req) of
       [] \<Rightarrow> (Inr (error_reply 9 ''FailedToParse'' ''command document is empty''), n)
     | (name, arg) # _ \<Rightarrow> (case run_command_named ses req name arg n of
           (Inl e, n') \<Rightarrow> (failure_reply (ses_what ses) e, n')
         | (Inr reply, n') \<Rightarrow> (Inr reply, n')))"

section \<open>Every request is answered\<close>

definition answers :: "document outcome \<times> 's \<Rightarrow> bool" where
  "answers m \<longleftrightarrow> (case fst m of Inl _ \<Rightarrow> True | Inr reply \<Rightarrow> find_field reply ''ok'' = Some bone)"

lemma answers_simps [simp]:
  "answers (Inl e, s)" "answers (Inr reply, s) \<longleftrightarrow> find_field reply ''ok'' = Some bone"
  by (simp_all add: answers_def)

lemma answers_bind: "(\<And>x s. answers (f x s)) \<Longrightarrow> answers (bind_action m f)"
  by (auto simp: bind_action_def split: prod.split sum.split)

lemma answers_on_server [simp]: "(\<And>s. answers (f s)) \<Longrightarrow> answers (on_server f n)"
proof -
  assume f: "\<And>s. answers (f s)"
  obtain r s where "f (srv n) = (r, s)" by (cases "f (srv n)")
  with f [of "srv n"] show "answers (on_server f n)" by (simp add: on_server_def answers_def)
qed

lemma find_ok [simp]: "find_field d ''ok'' = map_of d ''ok''"
  by (simp add: find_field_def nul_def)

lemma answers_timed [simp]:
  "map_of reply ''ok'' = Some bone \<Longrightarrow> answers (append_operation_time reply stamp s)"
  by (auto simp: append_operation_time_def intro!: answers_bind)

lemma cursor_reply_ok [simp]: "map_of (cursor_reply i ns name docs resume) ''ok'' = Some bone"
  by (simp add: cursor_reply_def)

lemma append_errors_find [simp]:
  "map_of (append_write_errors [] errors) ''ok'' = None"
  by (simp add: append_write_errors_def)

named_theorems handler_defs \<open>the command handlers, unfolded\<close>

lemmas read_handler_defs [handler_defs] =
  cmd_find_def cmd_find_oplog_def cmd_get_more_def cmd_tail_batch_def cmd_kill_cursors_def cmd_count_def
  cmd_aggregate_def cmd_open_change_stream_def cmd_chimera_sql_def cmd_distinct_def

lemmas write_handler_defs [handler_defs] =
  cmd_insert_def cmd_update_def cmd_delete_def cmd_find_and_modify_def

lemmas namespace_handler_defs [handler_defs] =
  cmd_create_def cmd_drop_def cmd_drop_database_def cmd_list_databases_def cmd_list_collections_def
  cmd_list_indexes_def cmd_create_indexes_def cmd_drop_indexes_def

lemma tail_batch_answers: "answers (cmd_tail_batch ctx i ns t k n)"
  by (auto simp: cmd_tail_batch_def split: option.split intro!: answers_bind)

lemma find_oplog_answers: "answers (cmd_find_oplog ctx ns n)"
  by (auto simp: cmd_find_oplog_def Let_def split: option.split intro!: answers_bind)

lemma open_change_stream_answers: "answers (cmd_open_change_stream ctx sts n)"
  by (auto simp: cmd_open_change_stream_def intro!: answers_bind)

lemma read_answers:
  "answers (cmd_find ctx n)" "answers (cmd_get_more ctx n)" "answers (cmd_kill_cursors ctx n)"
  "answers (cmd_count ctx s)" "answers (cmd_aggregate ctx n)" "answers (cmd_distinct ctx s)"
  "answers (cmd_chimera_sql ctx s)"
  by (auto simp: cmd_find_def find_oplog_answers Let_def first_batch_def intro!: answers_bind)
    (auto simp: cmd_get_more_def tail_batch_answers cmd_kill_cursors_def cmd_count_def cmd_aggregate_def
      open_change_stream_answers cmd_chimera_sql_def cmd_distinct_def Let_def first_batch_def
      split: option.split intro!: answers_bind)

lemma write_answers:
  "answers (cmd_insert ctx s)" "answers (cmd_update ctx s)" "answers (cmd_delete ctx s)"
  "answers (cmd_find_and_modify ctx s)"
  by (auto simp: write_handler_defs Let_def map_add_def intro!: answers_bind)

lemma namespace_answers:
  "answers (cmd_create ctx s)" "answers (cmd_drop ctx s)" "answers (cmd_drop_database ctx s)"
  "answers (cmd_list_databases ctx s)" "answers (cmd_list_collections ctx s)"
  "answers (cmd_list_indexes ctx s)" "answers (cmd_create_indexes ctx s)" "answers (cmd_drop_indexes ctx s)"
  by (auto simp: namespace_handler_defs Let_def ok_reply_def intro!: answers_bind)

lemma handler_answers: "map_of handlers name = Some h \<Longrightarrow> answers (h ctx n)"
proof -
  assume "map_of handlers name = Some h"
  then have "h \<in> snd ` set handlers" by (force dest: map_of_SomeD)
  then show ?thesis by (auto simp: handlers_def read_answers write_answers namespace_answers)
qed

text \<open>The names \<open>dispatch_command\<close> knows.\<close>

definition known_command :: "string \<Rightarrow> bool" where
  "known_command name \<longleftrightarrow> name \<in> {''hello'', ''isMaster'', ''ismaster'', ''ping'', ''buildInfo'', ''buildinfo'',
     ''replSetGetStatus'', ''getParameter'', ''endSessions'', ''refreshSessions''} \<or> map_of handlers name \<noteq> None"

lemma run_command_named_answers:
  "known_command name \<Longrightarrow> answers (run_command_named ses req name arg n)"
  "\<not> known_command name \<Longrightarrow> run_command_named ses req name arg n
      = (Inr (error_reply 59 ''CommandNotFound'' (''no such command: '' @ sq @ name @ sq)), n)"
  by (auto simp: known_command_def run_command_named_def hello_reply_def build_info_reply_def repl_set_status_reply_def
      get_parameter_reply_def ok_reply_def handler_answers split: option.split)

text \<open>
  A number no int64 holds is cast to one: what a C++ program does then is undefined, and a client can
  send such a number.
\<close>

lemma huge_limit_is_undefined: "number [(''limit'', BDouble 0x43E0000000000000)] ''limit'' 0 = Inl Undefined"
  using to_int64_max by (simp add: number_def find_field_def nul_def)

text \<open>
  C10. What becomes of what a handler does. A body without fields is refused with \<open>FailedToParse\<close>, an
  unknown command with \<open>CommandNotFound\<close>. For a known one, the reply of the handler goes out as it is, and
  its \<open>ok\<close> is 1; a translator error goes out as an error reply with the code, the name and the message of
  that error, and any other exception as \<open>InternalError\<close>; an error reply has \<open>ok\<close> 0. What the handler did
  to the server stays in each case. Nothing is claimed where the handler itself runs into undefined
  behaviour of C++ (an out-of-range cast of a number, a value taken for a document that is none).
\<close>

theorem every_request_is_answered:
  "(case req_body req of
      [] \<Rightarrow> dispatch_command ses req n = (Inr (error_reply 9 ''FailedToParse'' ''command document is empty''), n)
    | (name, arg) # _ \<Rightarrow>
        if \<not> known_command name
        then dispatch_command ses req n
          = (Inr (error_reply 59 ''CommandNotFound'' (''no such command: '' @ sq @ name @ sq)), n)
        else (case run_command_named ses req name arg n of
            (Inr reply, n') \<Rightarrow> dispatch_command ses req n = (Inr reply, n') \<and> find_field reply ''ok'' = Some bone
          | (Inl (Raise e), n') \<Rightarrow> dispatch_command ses req n
              = (Inr (error_reply (te_code e) (te_code_name e) (te_what e)), n')
          | (Inl Std_exception, n') \<Rightarrow> dispatch_command ses req n
              = (Inr (error_reply 1 ''InternalError'' (ses_what ses)), n')
          | (Inl Undefined, n') \<Rightarrow> dispatch_command ses req n = (Inl Undefined, n')))
   \<and> find_field (error_reply code code_name message) ''ok'' = Some (BDouble (d_of_int 0))
   \<and> find_field (error_reply code code_name message) ''code'' = Some (BInt32 (word_of_int code))"
proof -
  have err: "find_field (error_reply code code_name message) ''ok'' = Some (BDouble (d_of_int 0))"
    "find_field (error_reply code code_name message) ''code'' = Some (BInt32 (word_of_int code))"
    by (simp_all add: error_reply_def find_field_def nul_def)
  show ?thesis
  proof (cases "req_body req")
    case Nil
    with err show ?thesis by (simp add: dispatch_command_def document_fields_def)
  next
    case (Cons f fs)
    obtain name arg where f: "f = (name, arg)" by (cases f)
    obtain r n' where r: "run_command_named ses req name arg n = (r, n')"
      by (cases "run_command_named ses req name arg n")
    have d: "dispatch_command ses req n = (case r of Inl e \<Rightarrow> failure_reply (ses_what ses) e | Inr reply \<Rightarrow> Inr reply, n')"
      using Cons f r by (cases r) (simp_all add: dispatch_command_def document_fields_def)
    show ?thesis
    proof (cases "known_command name")
      case True
      from run_command_named_answers(1) [OF this, of ses req arg n] r Cons f d err True show ?thesis
        by (cases r; cases "projl r") auto
    next
      case False
      from run_command_named_answers(2) [OF this, of ses req arg n] r Cons f d err False show ?thesis by auto
    qed
  qed
qed

section \<open>Reading leaves the data alone\<close>

definition same_data :: "server \<Rightarrow> server \<Rightarrow> bool" where
  "same_data s t \<longleftrightarrow> tables t = tables s \<and> catalog t = catalog s \<and> index_rows t = index_rows s
     \<and> events t = events s"

definition reads_only :: "server \<Rightarrow> 'a outcome \<times> node \<Rightarrow> bool" where
  "reads_only s m \<longleftrightarrow> same_data s (srv (snd m))"

lemma reads_only_simps [simp]: "reads_only s (r, n) \<longleftrightarrow> same_data s (srv n)"
  by (simp add: reads_only_def)

lemma same_data_refl [simp]: "same_data s s"
  by (simp add: same_data_def)

lemma same_data_trans: "same_data s t \<Longrightarrow> same_data t u \<Longrightarrow> same_data s u"
  by (simp add: same_data_def)

lemma reads_bind:
  "reads_only s m \<Longrightarrow> (\<And>x n. same_data s (srv n) \<Longrightarrow> reads_only s (f x n)) \<Longrightarrow> reads_only s (bind_action m f)"
  by (cases m; cases "fst m") auto

lemma reads_on_registry [simp]: "reads_only s (on_registry f n) \<longleftrightarrow> same_data s (srv n)"
  by (simp add: on_registry_def split: prod.split)

lemma install_keeps_rows:
  "install_oplog_schema False lg = Inr db \<Longrightarrow> rows db = (case lg of None \<Rightarrow> [] | Some old \<Rightarrow> rows old)"
  by (cases lg) (auto simp: install_oplog_schema_def seed_history_def empty_store_def Let_def
      split: if_splits option.splits)

lemma installed_same_data:
  "install_oplog_schema False (oplog s) = Inr db \<Longrightarrow> same_data s (s\<lparr>oplog := Some db\<rparr>)"
  by (auto simp: same_data_def events_def dest!: install_keeps_rows split: option.splits)

lemma clock_reading_same_data: "same_data s (snd (clock_reading s))"
  using installed_same_data [of s]
  by (cases "install_oplog_schema False (oplog s)") (simp_all add: clock_reading_def Let_def)

lemma timed_same_data: "same_data s (snd (append_operation_time reply stamp s))"
proof (cases stamp)
  case None
  obtain r s1 where c: "clock_reading s = (r, s1)" by (cases "clock_reading s")
  then have "same_data s s1" using clock_reading_same_data [of s] by simp
  then show ?thesis using None c by (cases r) (simp_all add: append_operation_time_def)
qed (simp add: append_operation_time_def)

lemma install_schema_same_data: "same_data s (snd (install_schema s))"
  using installed_same_data [of s]
  by (cases "install_oplog_schema False (oplog s)") (simp_all add: install_schema_def)

lemma reads_on_server:
  "same_data s (srv n) \<Longrightarrow> (\<And>t. same_data t (snd (f t))) \<Longrightarrow> reads_only s (on_server f n)"
  by (auto simp: on_server_def same_data_def split: prod.split) (metis snd_conv)+

lemma find_oplog_reads: "same_data s (srv n) \<Longrightarrow> reads_only s (cmd_find_oplog ctx ns n)"
  by (auto simp: cmd_find_oplog_def Let_def split: option.split
      intro!: reads_bind reads_on_server install_schema_same_data)

lemma tail_batch_reads: "same_data s (srv n) \<Longrightarrow> reads_only s (cmd_tail_batch ctx i ns t k n)"
  by (auto simp: cmd_tail_batch_def split: option.split sum.split
      intro!: reads_bind reads_on_server timed_same_data)

lemma cmd_find_reads: "same_data s (srv n) \<Longrightarrow> reads_only s (cmd_find ctx n)"
  by (auto simp: cmd_find_def Let_def first_batch_def find_oplog_reads intro!: reads_bind)

lemma cmd_get_more_reads: "same_data s (srv n) \<Longrightarrow> reads_only s (cmd_get_more ctx n)"
  by (auto simp: cmd_get_more_def Let_def tail_batch_reads split: option.split intro!: reads_bind)

lemma cmd_kill_cursors_reads: "same_data s (srv n) \<Longrightarrow> reads_only s (cmd_kill_cursors ctx n)"
  by (auto simp: cmd_kill_cursors_def intro!: reads_bind)

lemma value_only: "snd (bind_action m f) = s" if "snd m = s" "\<And>x. snd (f x s) = s"
  using that by (cases m; cases "fst m") auto

lemma pure_reads: "snd (cmd_count ctx s) = s" "snd (cmd_distinct ctx s) = s" "snd (cmd_list_databases ctx s) = s"
  "snd (cmd_list_collections ctx s) = s" "snd (cmd_list_indexes ctx s) = s"
  by (auto simp: cmd_count_def cmd_distinct_def cmd_list_databases_def cmd_list_collections_def
      cmd_list_indexes_def Let_def intro!: value_only)

definition read_commands :: "string list" where
  "read_commands = [''find'', ''getMore'', ''killCursors'', ''count'', ''distinct'', ''listDatabases'',
     ''listCollections'', ''listIndexes'', ''ping'', ''hello'', ''buildInfo'', ''replSetGetStatus'', ''getParameter'']"

lemma handler_lookups:
  "map_of handlers ''find'' = Some cmd_find" "map_of handlers ''getMore'' = Some cmd_get_more"
  "map_of handlers ''killCursors'' = Some cmd_kill_cursors"
  "map_of handlers ''count'' = Some (\<lambda>c. on_server (cmd_count c))"
  "map_of handlers ''distinct'' = Some (\<lambda>c. on_server (cmd_distinct c))"
  "map_of handlers ''listDatabases'' = Some (\<lambda>c. on_server (cmd_list_databases c))"
  "map_of handlers ''listCollections'' = Some (\<lambda>c. on_server (cmd_list_collections c))"
  "map_of handlers ''listIndexes'' = Some (\<lambda>c. on_server (cmd_list_indexes c))"
  by (simp_all add: handlers_def)

lemma pure_reads_only: "(\<And>s. snd (f s) = s) \<Longrightarrow> reads_only (srv n) (on_server f n)"
  by (rule reads_on_server) simp_all

lemma named_reads:
  assumes "name \<in> set read_commands"
  shows "reads_only (srv n) (run_command_named ses req name arg n)"
proof -
  have "list_all (\<lambda>name. reads_only (srv n) (run_command_named ses req name arg n)) read_commands"
    by (simp add: read_commands_def run_command_named_def handler_lookups cmd_find_reads cmd_get_more_reads
        cmd_kill_cursors_reads pure_reads_only pure_reads reads_on_server timed_same_data)
  then show ?thesis using assms by (simp only: list_all_iff)
qed

text \<open>
  C17. A command that reads leaves every table, the catalog, the indexes and the events of the oplog as
  they are; the most it does to the server is to set up the oplog.
\<close>

theorem reading_leaves_the_data:
  assumes "req_body req = (name, arg) # rest" and "name \<in> set read_commands"
  shows "same_data (srv n) (srv (snd (dispatch_command ses req n)))"
proof -
  have "reads_only (srv n) (run_command_named ses req name arg n)"
    using assms(2) by (rule named_reads)
  then show ?thesis
    using assms(1) by (auto simp: dispatch_command_def document_fields_def split: prod.split sum.split)
qed

definition demo_session :: session where
  "demo_session = \<lparr>ses_env = demo_env, ses_gateway = ctx_gateway (demo_ctx []),
     ses_identity = \<lparr>host = ''localhost:27017'', process_id = replicate 12 (CHR ''p'')\<rparr>, ses_connection = 1,
     ses_version = ''0'', ses_millis = 0, ses_seconds = 0, ses_passes = [], ses_what = ''what''\<rparr>"

definition demo_node :: node where
  "demo_node = \<lparr>srv = demo_server, reg = fresh_registry\<rparr>"

definition find_request :: request where
  "find_request = \<lparr>req_header = \<lparr>message_length = 0, request_id = 7, response_to = 0, op_code = kOpMsg\<rparr>,
     req_body = [(''find'', BUtf8 ''a'')], database = ''app'', legacy_query = False\<rparr>"

theorem reading_leaves_the_data_witness:
  "same_data demo_server (srv (snd (dispatch_command demo_session find_request demo_node)))"
  using reading_leaves_the_data [of find_request "''find''" "BUtf8 ''a''" "[]" demo_node demo_session]
  by (simp add: find_request_def demo_node_def read_commands_def)

end
