(* ===== verification/Listener.thy ===== *)
theory Listener
  imports Dispatch
begin

text \<open>
  The listener (src/chimera/plugin/chimera_mongo/listener.cc): opening the socket, accepting
  connections, and \<open>serve\<close>, the loop of a connection: read a message, parse it, dispatch it, send the
  reply. What the sockets do is an argument: the events of \<open>recv\<close>, of \<open>send\<close> for each reply, of
  \<open>accept\<close>, and the values the shutdown flag is read with.
\<close>

section \<open>Start and stop\<close>

text \<open>\<open>os what\<close> is the text of \<open>errno\<close> when the call fails.\<close>

definition errno_message :: "string \<Rightarrow> string \<Rightarrow> string" where
  "errno_message what text = what @ '': '' @ text"

definition listener_identity :: "string \<Rightarrow> nat \<Rightarrow> string \<Rightarrow> identity" where
  "listener_identity bind_address port process = \<lparr>host = bind_address @ '':'' @ nat_text port, process_id = process\<rparr>"

definition start_listener ::
  "(string \<Rightarrow> 32 word option) \<Rightarrow> (string \<Rightarrow> string option) \<Rightarrow> string \<Rightarrow> string + unit" where
  "start_listener inet_pton os bind_address = (case os ''socket'' of
       Some e \<Rightarrow> Inl (errno_message ''socket'' e)
     | None \<Rightarrow>
         if inet_pton (c_str bind_address) = None
         then Inl (''chimera_mongo_bind is not a valid IPv4 address: '' @ bind_address)
         else case os ''bind'' of
             Some e \<Rightarrow> Inl (errno_message ''bind'' e)
           | None \<Rightarrow> (case os ''listen'' of
               Some e \<Rightarrow> Inl (errno_message ''listen'' e)
             | None \<Rightarrow> Inr ()))"

record listener =
  next_connection :: int64
  live_fds :: "int list"
  connection_threads :: "(int \<times> int64) list"

definition fresh_listener :: listener where
  "fresh_listener = \<lparr>next_connection = 1, live_fds = [], connection_threads = []\<rparr>"

datatype accept_event = Poll_again | Poll_failed | Accept_again | Accept_failed | Accepted int

text \<open>
  An entry is one turn of the loop: the flag at its head, what \<open>poll\<close> and \<open>accept\<close> answer, and the
  flag as it is read under the lock.
\<close>

fun accept_loop :: "(bool \<times> accept_event \<times> bool) list \<Rightarrow> listener \<Rightarrow> listener" where
  "accept_loop [] l = l"
| "accept_loop ((stopping, event, stopping_now) # rest) l =
     (if stopping then l
      else case event of
        Poll_again \<Rightarrow> accept_loop rest l
      | Poll_failed \<Rightarrow> l
      | Accept_again \<Rightarrow> accept_loop rest l
      | Accept_failed \<Rightarrow> l
      | Accepted fd \<Rightarrow>
          let connection_id = next_connection l;
              l = l\<lparr>next_connection := connection_id + 1\<rparr>
          in if stopping_now then l
             else accept_loop rest (l\<lparr>live_fds := List.insert fd (live_fds l),
               connection_threads := connection_threads l @ [(fd, connection_id)]\<rparr>))"

definition forget :: "int \<Rightarrow> listener \<Rightarrow> listener" where
  "forget fd l = l\<lparr>live_fds := filter (\<lambda>x. x \<noteq> fd) (live_fds l)\<rparr>"

text \<open>\<open>stop\<close>, once the threads are joined: every cursor is gone.\<close>

definition stop_listener :: "listener \<Rightarrow> registry \<Rightarrow> listener \<times> registry" where
  "stop_listener l r = (l\<lparr>connection_threads := []\<rparr>, kill_all r)"

text \<open>Connections are numbered in the order they are accepted.\<close>

lemma accept_loop_ids:
  "\<exists>k. map snd (connection_threads (accept_loop turns l))
    = map snd (connection_threads l) @ map (\<lambda>j. next_connection l + of_nat j) [0..<k]"
proof (induction turns l rule: accept_loop.induct)
  case (1 l)
  then show ?case by (intro exI [of _ 0]) simp
next
  case (2 stopping event stopping_now rest l)
  show ?case
  proof (cases "\<not> stopping \<and> (\<exists>fd. event = Accepted fd) \<and> \<not> stopping_now")
    case True
    then obtain fd where e: "\<not> stopping" "event = Accepted fd" "\<not> stopping_now" by blast
    let ?l = "l\<lparr>next_connection := next_connection l + 1, live_fds := List.insert fd (live_fds l),
      connection_threads := connection_threads l @ [(fd, next_connection l)]\<rparr>"
    from 2(3) [OF e(1,2) refl refl e(3)] obtain k where
      "map snd (connection_threads (accept_loop rest ?l)) = map snd (connection_threads ?l)
        @ map (\<lambda>j. next_connection ?l + of_nat j) [0..<k]" by auto
    moreover have "map (\<lambda>j. next_connection l + of_nat j) [0..<Suc k]
      = next_connection l # map (\<lambda>j. next_connection l + 1 + of_nat j) [0..<k]"
      by (simp add: upt_conv_Cons map_Suc_upt [symmetric] ac_simps del: upt_Suc)
    ultimately show ?thesis using e by (intro exI [of _ "Suc k"]) (simp add: Let_def del: upt_Suc)
  next
    case False
    then have "accept_loop ((stopping, event, stopping_now) # rest) l \<in> {l, l\<lparr>next_connection := next_connection l + 1\<rparr>}
      \<or> (event \<in> {Poll_again, Accept_again} \<and> \<not> stopping)"
      by (cases event) auto
    with 2(1,2) show ?thesis by (cases event) (auto intro: exI [of _ 0])
  qed
qed

section \<open>One connection\<close>

record connection =
  con_session :: "nat \<Rightarrow> session"
  con_raw :: "document \<Rightarrow> string"
  con_new_doc :: "string \<Rightarrow> document option"
  con_stop :: "nat \<Rightarrow> bool"
  con_sends :: "nat \<Rightarrow> string \<Rightarrow> send list"
  con_id :: int64

definition default_request :: request where
  "default_request = \<lparr>req_header = \<lparr>message_length = 0, request_id = 0, response_to = 0, op_code = 0\<rparr>,
     req_body = [], database = [], legacy_query = False\<rparr>"

text \<open>
  The reply to a message, with the request it answers: what was read of the request before a
  \<open>TranslatorError\<close> is thrown is what the reply is framed by.
\<close>

definition answer ::
  "session \<Rightarrow> (string \<Rightarrow> document option) \<Rightarrow> string \<Rightarrow> (request \<times> document) handler" where
  "answer ses new_doc raw n =
     (let refuse = (\<lambda>req e. case e of
          Raise t \<Rightarrow> (Inr (req, error_reply (te_code t) (te_code_name t) (te_what t)), n)
        | _ \<Rightarrow> (Inl e, n))
      in case parse_header raw of
           Inl e \<Rightarrow> refuse default_request e
         | Inr h \<Rightarrow> (case parse_request new_doc raw of
             Inl e \<Rightarrow> refuse (default_request\<lparr>req_header := h, legacy_query := op_code h = kOpQuery\<rparr>) e
           | Inr req \<Rightarrow> bind_action (dispatch_command ses req n) (\<lambda>reply n. (Inr (req, reply), n))))"

text \<open>How a connection ends: closed by the server, in a \<open>send\<close> that does not return, or undefined.\<close>

datatype serve_end = Closed | Stuck | Crashed

fun socket_size :: "socket \<Rightarrow> nat" where
  "socket_size [] = 0"
| "socket_size (Data s # rest) = Suc (length s) + socket_size rest"
| "socket_size (_ # rest) = Suc (socket_size rest)"

lemma read_exact_size:
  "read_exact want buf inbox = Some (m, rest) \<Longrightarrow> length buf \<le> want \<Longrightarrow>
    socket_size rest + want \<le> socket_size inbox + length buf"
proof (induction want buf inbox rule: read_exact.induct)
  case (1 want buf inbox)
  show ?case
  proof (cases "want \<le> length buf \<or> inbox = []")
    case True
    with 1(3,4) show ?thesis by (subst (asm) read_exact.simps) (auto split: if_splits)
  next
    case False
    then obtain x later where more: "\<not> want \<le> length buf" "inbox = x # later" by (cases inbox) auto
    note read = 1(3) [unfolded read_exact.simps [of want buf inbox]]
    show ?thesis
    proof (cases x)
      case (Data s)
      let ?n = "min (length s) (want - length buf)"
      from read more Data have n: "?n \<noteq> 0"
        and rec: "read_exact want (buf @ take ?n s) (if ?n < length s then Data (drop ?n s) # later else later)
          = Some (m, rest)" by (auto simp: Let_def split: if_splits)
      have "length (buf @ take ?n s) \<le> want" using more(1) by simp
      with 1(1) [OF more(1,2) Data refl n rec] more Data show ?thesis by (auto split: if_splits)
    next
      case Interrupted
      with read more 1(2) [OF more Interrupted] 1(4) show ?thesis by auto
    next
      case Failed
      with read more show ?thesis by simp
    qed
  qed
qed

lemma read_message_size:
  assumes "read_message inbox = Inr (Some (m, rest))"
  shows "16 \<le> length m \<and> socket_size rest < socket_size inbox"
proof -
  from assms obtain h r where h: "read_exact 16 [] inbox = Some (h, r)"
    unfolding read_message_def kHeaderBytes_def by (auto split: option.splits)
  then have len: "length h = 16" by (rule read_exact_length) simp
  have r: "socket_size r + 16 \<le> socket_size inbox" using read_exact_size [OF h] by simp
  from assms h obtain k where k: "read_int32 h = Inr k" "16 \<le> sint k"
    and m: "m = h \<and> rest = r \<or> read_exact (nat (sint k)) h r = Some (m, rest)"
    unfolding read_message_def kHeaderBytes_def by (auto simp: and_then_Inr_iff split: if_splits)
  have "16 \<le> nat (sint k)" using k(2) by (simp add: le_nat_iff)
  with m r len show ?thesis
    using read_exact_size [of "nat (sint k)" h r m rest] read_exact_length [of "nat (sint k)" h r m rest] by auto
qed

function serve :: "connection \<Rightarrow> nat \<Rightarrow> socket \<Rightarrow> node \<Rightarrow> (string \<times> serve_end) \<times> node" where
  "serve con k inbox n =
     (if con_stop con k then (([], Closed), n)
      else case read_message inbox of
        Inl _ \<Rightarrow> (([], Closed), n)
      | Inr None \<Rightarrow> (([], Closed), n)
      | Inr (Some (raw, rest)) \<Rightarrow> (case answer (con_session con k) (con_new_doc con) raw n of
            (Inl Undefined, n1) \<Rightarrow> (([], Crashed), n1)
          | (Inl _, n1) \<Rightarrow> (([], Closed), n1)
          | (Inr (req, reply), n1) \<Rightarrow>
              let bytes = encode_reply (con_raw con) req (ucast (con_id con)) reply
              in case write_all [] bytes (con_sends con k bytes) of
                   None \<Rightarrow> (([], Stuck), n1)
                 | Some (sent, False) \<Rightarrow> ((sent, Closed), n1)
                 | Some (sent, True) \<Rightarrow> (case serve con (k + 1) rest n1 of
                     ((sent1, e), n2) \<Rightarrow> ((sent @ sent1, e), n2))))"
  by pat_completeness auto
termination
  by (relation "measure (\<lambda>(con, k, inbox, n). socket_size inbox)") (auto dest: read_message_size)

declare serve.simps [simp del]

section \<open>What a connection answers\<close>

lemma parse_header_long:
  assumes "16 \<le> length m"
  obtains h where "parse_header m = Inr h" and "append_int32 [] (request_id h) = take 4 (drop 4 m)"
proof -
  have enough: "\<exists>v. read_int32 (drop k m) = Inr v" if "k \<le> 12" for k
    using that assms by (simp add: read_int32_enough)
  from enough [of 0] enough [of 4] enough [of 8] enough [of 12]
  obtain a b c d where r: "read_int32 m = Inr a" "read_int32 (drop 4 m) = Inr b" "read_int32 (drop 8 m) = Inr c"
      "read_int32 (drop 12 m) = Inr d" by auto
  then have "parse_header m = Inr \<lparr>message_length = a, request_id = b, response_to = c, op_code = d\<rparr>"
    by (simp add: parse_header_def)
  moreover have "read_int32 (take 4 (drop 4 m)) = Inr b"
    using r(2) assms by (auto simp: read_int32_def split: list.splits if_splits)
  then have "append_int32 [] b = take 4 (drop 4 m)" using assms by (intro four_bytes) simp_all
  ultimately show thesis by (rule that [of "\<lparr>message_length = a, request_id = b, response_to = c, op_code = d\<rparr>", simplified])
qed

lemma parsed_header: "parse_request new_doc m = Inr req \<Longrightarrow> parse_header m = Inr (req_header req)"
proof -
  have msg: "req_header req = h" if op: "parse_op_msg new_doc h c = Inr req" for h c
  proof -
    from op obtain p :: "int32 \<times> (nat \<times> string)" where p: "(case p of (flags, c1) \<Rightarrow>
       if flags AND 0xFFFF AND NOT 3 \<noteq> 0
       then Inl (failed_to_parse ''OP_MSG sets flag bits this server does not implement'')
       else
       and_then (if flags AND 1 \<noteq> 0 then trim 4 c1 else Inr c1) (\<lambda>c2.
       and_then (read_sections new_doc \<lparr>body_section = None, sequences = []\<rparr> c2) (\<lambda>st.
         case body_section st of
           None \<Rightarrow> Inl (failed_to_parse ''OP_MSG has no body section'')
         | Some d \<Rightarrow>
             let body = (if sequences st \<noteq> [] then fold_in_sequences d (sequences st) else d) in
             Inr \<lparr>req_header = h, req_body = body, database = database_of body, legacy_query = False\<rparr>))) = Inr req"
      unfolding parse_op_msg_def by (rule and_then_InrE)
    obtain flags c1 where pair: "p = (flags, c1)" by (cases p)
    note q = p [unfolded pair prod.case Let_def]
    show ?thesis
    proof (cases "flags AND 0xFFFF AND NOT 3 \<noteq> 0")
      case True
      from q [unfolded if_P [OF True]] show ?thesis by (simp only: sum.distinct)
    next
      case False
      from q [unfolded if_not_P [OF False]] show ?thesis
        by (elim and_then_InrE) (auto split: option.split_asm)
    qed
  qed
  have query: "req_header req = h" if "parse_op_query new_doc h c = Inr req" for h c
    using that by (auto simp: parse_op_query_def and_then_Inr_iff)
  assume "parse_request new_doc m = Inr req"
  then show ?thesis by (auto simp: parse_request_def Let_def and_then_Inr_iff dest: msg query split: if_splits)
qed

lemma dispatch_fails:
  assumes "dispatch_command ses req n = (Inl e, n')"
  shows "e = Undefined"
proof (cases "document_fields (req_body req)")
  case Nil
  with assms show ?thesis by (simp add: dispatch_command_def)
next
  case (Cons f fs)
  obtain name arg where f: "f = (name, arg)" by (cases f)
  obtain r n1 where r: "run_command_named ses req name arg n = (r, n1)"
    by (cases "run_command_named ses req name arg n")
  from assms have "(case r of Inl x \<Rightarrow> failure_reply (ses_what ses) x | Inr reply \<Rightarrow> Inr reply) = Inl e"
    by (simp add: dispatch_command_def Cons f r split: sum.splits)
  then obtain x where "failure_reply (ses_what ses) x = Inl e" by (cases r) auto
  then show ?thesis by (cases x) auto
qed

text \<open>A message long enough to have a header is answered in the name of the id in that header.\<close>

lemma answer_outcome:
  assumes "16 \<le> length m" and "answer ses new_doc m n = (r, n')"
  obtains (Answered) req reply where "r = Inr (req, reply)"
      "append_int32 [] (request_id (req_header req)) = take 4 (drop 4 m)"
  | (Undef) "r = Inl Undefined"
proof -
  obtain h where h: "parse_header m = Inr h" "append_int32 [] (request_id h) = take 4 (drop 4 m)"
    by (rule parse_header_long [OF assms(1)])
  show thesis
  proof (cases "parse_request new_doc m")
    case (Inl e)
    then obtain t where "e = Raise t"
      using fails_well_request [OF assms(1), of new_doc] by (auto simp: fails_well_def wire_error_def)
    with Inl assms(2) h show thesis by (intro Answered) (auto simp: answer_def Let_def)
  next
    case (Inr req)
    with parsed_header [OF Inr] h have hd: "req_header req = h" by simp
    obtain res n1 where d: "dispatch_command ses req n = (res, n1)" by (cases "dispatch_command ses req n")
    then show thesis
      using Inr hd h assms(2) dispatch_fails [of ses req n _ n1] Answered Undef
      by (cases res) (auto simp: answer_def Let_def)
  qed
qed

definition answers_to :: "string \<Rightarrow> string \<Rightarrow> bool" where
  "answers_to m reply \<longleftrightarrow> take 4 reply = append_int32 [] (word_of_nat (length reply))
     \<and> take 4 (drop 8 reply) = take 4 (drop 4 m)"

lemma encoded_answers:
  assumes "append_int32 [] (request_id (req_header req)) = take 4 (drop 4 m)"
  shows "answers_to m (encode_reply raw req rid body)"
proof -
  let ?tail = "\<lambda>tl. append_int32 (append_int32 (append_int32 [] 0) rid) (request_id (req_header req)) @ tl"
  have frame: "append_int32 [] t @ drop 4 (?tail tl) = append_int32 [] t @ append_int32 [] rid @ take 4 (drop 4 m) @ tl" for t tl
    by (subst append_int32_append, subst append_int32_append) (simp add: assms)
  obtain tl where tl: "encode_reply raw req rid body
      = append_int32 [] (word_of_nat (length (?tail tl))) @ drop 4 (?tail tl)"
    by (cases "legacy_query req") (auto simp: encode_reply_def Let_def append_int64_def append_int32_def)
  show ?thesis unfolding answers_to_def tl frame using arg_cong [OF assms, of length] by simp
qed

text \<open>The replies to messages one after the other, with no network in between.\<close>

fun answer_all :: "connection \<Rightarrow> nat \<Rightarrow> string list \<Rightarrow> node \<Rightarrow> (string list \<times> serve_end) \<times> node" where
  "answer_all con k [] n = (([], Closed), n)"
| "answer_all con k (m # ms) n = (case answer (con_session con k) (con_new_doc con) m n of
       (Inl _, n1) \<Rightarrow> (([], Crashed), n1)
     | (Inr (req, reply), n1) \<Rightarrow> (case answer_all con (k + 1) ms n1 of
         ((replies, e), n2) \<Rightarrow> ((encode_reply (con_raw con) req (ucast (con_id con)) reply # replies, e), n2)))"

lemma answer_all_accounts:
  "answer_all con k ms n = ((replies, e), n') \<Longrightarrow> list_all well_framed ms \<Longrightarrow>
    list_all2 answers_to (take (length replies) ms) replies
    \<and> (e = Closed \<and> length replies = length ms \<or> e = Crashed \<and> length replies < length ms)"
proof (induction ms arbitrary: k n replies)
  case (Cons m ms)
  then have "16 \<le> length m" by (simp add: well_framed_def)
  obtain r n1 where a: "answer (con_session con k) (con_new_doc con) m n = (r, n1)"
    by (cases "answer (con_session con k) (con_new_doc con) m n")
  from \<open>16 \<le> length m\<close> a show ?case
  proof (cases rule: answer_outcome)
    case (Answered req reply)
    with a Cons.prems obtain rs where rec: "answer_all con (Suc k) ms n1 = ((rs, e), n')"
      and rs: "replies = encode_reply (con_raw con) req (ucast (con_id con)) reply # rs"
      by (auto split: prod.splits)
    from Cons.IH [OF rec] Cons.prems(2) rs Answered(2) show ?thesis by (auto simp: encoded_answers)
  next
    case Undef
    with a Cons.prems show ?thesis by auto
  qed
qed auto

lemma read_drained: "healthy inbox \<Longrightarrow> stream inbox = [] \<Longrightarrow> read_message inbox = Inr None"
proof -
  assume "healthy inbox" "stream inbox = []"
  then have "read_exact 16 [] inbox = None"
  proof (induction inbox)
    case (Cons x inbox)
    then show ?case by (cases x) (auto simp: healthy_def read_exact.simps [of 16 "[]"])
  qed (simp add: read_exact.simps)
  then show ?thesis by (simp add: read_message_def kHeaderBytes_def)
qed

lemma served_framed:
  assumes "\<forall>k. \<not> con_stop con k" and "\<forall>k bytes. write_all [] bytes (con_sends con k bytes) = Some (bytes, True)"
  shows "healthy inbox \<Longrightarrow> stream inbox = concat msgs \<Longrightarrow> list_all well_framed msgs \<Longrightarrow>
    serve con k inbox n = (case answer_all con k msgs n of ((replies, e), n') \<Rightarrow> ((concat replies, e), n'))"
proof (induction msgs arbitrary: inbox k n)
  case Nil
  then show ?case using assms(1) read_drained [of inbox] by (subst serve.simps) simp
next
  case (Cons m msgs)
  then have m: "well_framed m" "16 \<le> length m" by (simp_all add: well_framed_def)
  obtain rest where r: "read_message inbox = Inr (Some (m, rest))" "healthy rest" "stream rest = concat msgs"
    using read_message_any_chunking [OF Cons.prems(1) _ m(1), of "concat msgs"] Cons.prems(2) by auto
  obtain out n1 where a: "answer (con_session con k) (con_new_doc con) m n = (out, n1)"
    by (cases "answer (con_session con k) (con_new_doc con) m n")
  from m(2) a show ?case
  proof (cases rule: answer_outcome)
    case (Answered req reply)
    with Cons.IH [OF r(2,3)] Cons.prems(3) a r(1) assms show ?thesis
      by (subst serve.simps) (simp add: Let_def split: prod.split)
  next
    case Undef
    with a r(1) assms(1) show ?thesis by (subst serve.simps) simp
  qed
qed

text \<open>
  C11. A connection serves what it is sent. However the network cuts the requests into pieces and
  however many a client sends ahead, the bytes that come back are the replies to the messages one after
  the other: one for each, in their order, each framed with its length and with \<open>responseTo\<close> the id of its
  request, be it understood or refused. Only undefined behaviour of a handler ends this early.
\<close>

theorem connection_answers_in_order:
  assumes "healthy inbox" and "stream inbox = concat msgs" and "list_all well_framed msgs"
    and "\<forall>k. \<not> con_stop con k" and "\<forall>k bytes. write_all [] bytes (con_sends con k bytes) = Some (bytes, True)"
  shows "\<exists>replies e n'. answer_all con 0 msgs n = ((replies, e), n')
    \<and> serve con 0 inbox n = ((concat replies, e), n')
    \<and> list_all2 answers_to (take (length replies) msgs) replies
    \<and> (e = Closed \<and> length replies = length msgs \<or> e = Crashed \<and> length replies < length msgs)"
proof -
  obtain replies e n' where a: "answer_all con 0 msgs n = ((replies, e), n')"
    by (metis prod.exhaust)
  with answer_all_accounts [OF a assms(3)] served_framed [OF assms(4,5,1-3), of 0 n] show ?thesis by simp
qed

definition demo_connection :: connection where
  "demo_connection = \<lparr>con_session = (\<lambda>_. demo_session), con_raw = empty_raw, con_new_doc = empty_new_doc,
     con_stop = (\<lambda>_. False), con_sends = (\<lambda>_ bytes. [Sent (length bytes)]), con_id = 3\<rparr>"

definition bare_message :: "int32 \<Rightarrow> string" where
  "bare_message i = append_int32 [] 16 @ append_int32 [] i @ append_int32 [] 0 @ append_int32 [] 9"

theorem connection_answers_in_order_witness:
  "\<exists>replies e n'. answer_all demo_connection 0 [bare_message 7, bare_message 8] demo_node = ((replies, e), n')
    \<and> serve demo_connection 0 [Data (take 5 (bare_message 7)), Interrupted,
        Data (drop 5 (bare_message 7) @ bare_message 8)] demo_node = ((concat replies, e), n')
    \<and> list_all2 answers_to (take (length replies) [bare_message 7, bare_message 8]) replies
    \<and> (e = Closed \<and> length replies = length [bare_message 7, bare_message 8]
      \<or> e = Crashed \<and> length replies < length [bare_message 7, bare_message 8])"
proof (rule connection_answers_in_order)
  show "healthy [Data (take 5 (bare_message 7)), Interrupted, Data (drop 5 (bare_message 7) @ bare_message 8)]"
    by code_simp
  show "stream [Data (take 5 (bare_message 7)), Interrupted, Data (drop 5 (bare_message 7) @ bare_message 8)]
    = concat [bare_message 7, bare_message 8]" by code_simp
  show "list_all well_framed [bare_message 7, bare_message 8]" by code_simp
  show "\<forall>k. \<not> con_stop demo_connection k" by (simp add: demo_connection_def)
  show "\<forall>k bytes. write_all [] bytes (con_sends demo_connection k bytes) = Some (bytes, True)"
  proof (intro allI)
    show "write_all [] bytes (con_sends demo_connection k bytes) = Some (bytes, True)" for k bytes
      by (cases bytes) (simp_all add: demo_connection_def)
  qed
qed

end
