(* ===== verification/MongoGateway.thy ===== *)
theory MongoGateway
  imports Dispatch
begin

text \<open>
  Mongo for clients that speak SQL (src/chimera/plugin/chimera_mongo/mongogateway.cc): a shell
  statement becomes a command, goes through \<open>dispatch_command\<close>, and its cursor is drained. The loop
  that drains it may never end; not ending is None.
\<close>

section \<open>Running a command\<close>

definition gateway_request :: "document \<Rightarrow> string \<Rightarrow> request" where
  "gateway_request cmd db = \<lparr>req_header = \<lparr>message_length = 0, request_id = 0, response_to = 0, op_code = 0\<rparr>,
     req_body = cmd, database = db, legacy_query = False\<rparr>"

definition reply_failure :: "document \<Rightarrow> failure" where
  "reply_failure reply = Raise \<lparr>
     te_code = (case find_field reply ''code'' of None \<Rightarrow> 1 | Some (BInt32 c) \<Rightarrow> sint c | Some _ \<Rightarrow> 0),
     te_code_name = (case find_field reply ''codeName'' of Some (BUtf8 s) \<Rightarrow> c_str s | _ \<Rightarrow> ''InternalError''),
     te_what = (case find_field reply ''errmsg'' of Some (BUtf8 s) \<Rightarrow> c_str s | _ \<Rightarrow> ''the command failed'')\<rparr>"

definition run_command :: "session \<Rightarrow> document \<Rightarrow> string \<Rightarrow> document handler" where
  "run_command ses cmd db n =
     bind_action (dispatch_command ses (gateway_request cmd db) n) (\<lambda>reply n.
       (case find_field reply ''ok'' of
          None \<Rightarrow> Inl (reply_failure reply)
        | Some v \<Rightarrow> and_then (value_as_double v) (\<lambda>d.
            if d_eq d (d_of_int 1) then Inr reply else Inl (reply_failure reply)), n))"

section \<open>Draining a cursor\<close>

definition batch_documents :: "document \<Rightarrow> string \<Rightarrow> document list outcome" where
  "batch_documents cursor batch_name = (case view_field cursor batch_name of
       None \<Rightarrow> Inr []
     | Some elements \<Rightarrow> map_res (\<lambda>(key, v). case sub_fields v of None \<Rightarrow> Inl Undefined | Some d \<Rightarrow> Inr d) elements)"

definition cursor_id_of :: "document \<Rightarrow> int64" where
  "cursor_id_of cursor = (case find_field cursor ''id'' of Some (BInt64 i) \<Rightarrow> i | _ \<Rightarrow> 0)"

definition more_command :: "document \<Rightarrow> document" where
  "more_command cursor =
     [(''getMore'', BInt64 (cursor_id_of cursor)),
      (''collection'', utf8 (after_dot (case find_field cursor ''ns'' of Some (BUtf8 s) \<Rightarrow> c_str s | _ \<Rightarrow> [])))]"

partial_function (option) collect_cursor ::
  "session \<Rightarrow> string \<Rightarrow> document \<Rightarrow> string \<Rightarrow> document list \<Rightarrow> node \<Rightarrow> (document list outcome \<times> node) option"
where
  "collect_cursor ses db reply batch_name acc n =
     (case view_field reply ''cursor'' of
        None \<Rightarrow> Some (Inr acc, n)
      | Some cursor \<Rightarrow> (case batch_documents cursor batch_name of
            Inl e \<Rightarrow> Some (Inl e, n)
          | Inr docs \<Rightarrow>
              if cursor_id_of cursor = 0 then Some (Inr (acc @ docs), n)
              else (case run_command ses (more_command cursor) db n of
                  (Inl e, n') \<Rightarrow> Some (Inl e, n')
                | (Inr reply1, n') \<Rightarrow> collect_cursor ses db reply1 ''nextBatch'' (acc @ docs) n')))"

section \<open>The gateway\<close>

fun join_texts :: "string list \<Rightarrow> string" where
  "join_texts [] = []"
| "join_texts [t] = t"
| "join_texts (t # rest) = t @ '', '' @ join_texts rest"

definition render_array :: "libbson \<Rightarrow> document list \<Rightarrow> string outcome" where
  "render_array lib docs = and_then (map_res (to_extjson lib) docs) (\<lambda>texts. Inr (''['' @ join_texts texts @ '']''))"

definition count_text :: "document \<Rightarrow> string outcome" where
  "count_text reply = (case find_field reply ''n'' of
       None \<Rightarrow> Inr ''0''
     | Some v \<Rightarrow> and_then (value_as_double v) (\<lambda>d. case d_to_int64 d of
           None \<Rightarrow> Inl Undefined | Some k \<Rightarrow> Inr (int_text (sint k))))"

definition run_mongo_gateway ::
  "session \<Rightarrow> oid_reader \<Rightarrow> string \<Rightarrow> string \<Rightarrow> node \<Rightarrow> (string outcome \<times> node) option" where
  "run_mongo_gateway ses lib db sql n =
     (if db = []
      then Some (Inl (bad_value (''mongo() needs a database: USE one first, or call mongo('' @ sq @ ''<database>''
        @ sq @ '', '' @ sq @ ''<statement>'' @ sq @ '')'')), n)
      else case and_then (parse_shell_call lib sql) build_shell_command of
          Inl e \<Rightarrow> Some (Inl e, n)
        | Inr shell \<Rightarrow> (case run_command ses (command shell) db n of
            (Inl e, n1) \<Rightarrow> Some (Inl e, n1)
          | (Inr reply, n1) \<Rightarrow>
              let printer = bson_lib (ses_env ses) in
              (case result shell of
                 Documents \<Rightarrow> map_option (\<lambda>(r, n2). (and_then r (render_array printer), n2))
                   (collect_cursor ses db reply ''firstBatch'' [] n1)
               | FirstDocument \<Rightarrow> map_option (\<lambda>(r, n2). (and_then r (\<lambda>docs.
                   case docs of [] \<Rightarrow> Inr ''null'' | d # _ \<Rightarrow> to_extjson printer d), n2))
                   (collect_cursor ses db reply ''firstBatch'' [] n1)
               | Count \<Rightarrow> Some (count_text reply, n1)
               | Reply \<Rightarrow> Some (to_extjson printer reply, n1))))"

section \<open>A getMore of the gateway\<close>

lemma sint_safe: "safe_int i \<Longrightarrow> sint (word_of_int i :: int64) = i"
proof -
  assume "safe_int i"
  then have "signed_take_bit 63 i = i"
    by (intro signed_take_bit_int_eq_self) (simp_all add: safe_int_def abs_less_iff)
  then show "sint (word_of_int i :: int64) = i" by (simp add: signed_of_int)
qed

lemma number_safe: "find_field d name = Some (BInt64 (word_of_int i)) \<Longrightarrow> safe_int i \<Longrightarrow> number d name k = Inr i"
  by (simp add: number_def sint_safe d_to_int64_of_int)

lemma find_field_literal: "nul \<notin> set name \<Longrightarrow> find_field d name = map_of d name"
  by (simp add: find_field_def)

lemma valid_identifier: "validate_identifier name what = Inr () \<Longrightarrow> nul \<notin> set name"
  by (auto simp: validate_identifier_def unnameable_def list_ex_iff split: if_splits)

lemma parsed_namespace:
  assumes "parse_namespace db coll = Inr ns"
  shows "ns = \<lparr>ns_db = db, ns_collection = coll\<rparr>" "nul \<notin> set db" "nul \<notin> set coll" "c_str (ns_text ns) = ns_text ns"
proof -
  from assms have v: "validate_identifier db ''database name'' = Inr ()"
      "validate_identifier coll ''collection name'' = Inr ()"
    and ns: "ns = \<lparr>ns_db = db, ns_collection = coll\<rparr>"
    by (auto simp: parse_namespace_def and_then_Inr_iff)
  from v [THEN valid_identifier] show "nul \<notin> set db" "nul \<notin> set coll" by simp_all
  then show "c_str (ns_text ns) = ns_text ns" by (intro c_str_id) (simp add: ns ns_text_def nul_def)
  show "ns = \<lparr>ns_db = db, ns_collection = coll\<rparr>" by (rule ns)
qed

lemma after_dot_ns:
  assumes "CHR ''.'' \<notin> set (ns_db ns)"
  shows "after_dot (ns_text ns) = ns_collection ns"
proof -
  have "dropWhile (\<lambda>c. c \<noteq> CHR ''.'') (ns_db ns @ rest) = dropWhile (\<lambda>c. c \<noteq> CHR ''.'') rest" for rest
    using assms by (intro dropWhile_append2) auto
  then show ?thesis by (simp add: after_dot_def ns_text_def)
qed

definition cursor_document :: "int \<Rightarrow> string \<Rightarrow> string \<Rightarrow> document list \<Rightarrow> document" where
  "cursor_document i ns batch_name docs =
     [(''id'', BInt64 (word_of_int i)), (''ns'', utf8 ns), (batch_name, BArray (make_array (map BDocument docs)))]"

lemma view_cursor: "view_field (cursor_reply i ns name docs None) ''cursor'' = Some (cursor_document i ns name docs)"
  by (simp add: view_field_def find_field_literal nul_def cursor_reply_def cursor_document_def)

lemma cursor_document_id [simp]: "cursor_id_of (cursor_document i ns name docs) = word_of_int i"
  by (simp add: cursor_id_of_def find_field_literal nul_def cursor_document_def)

lemma map_res_views: "map_res (\<lambda>(key, v). case sub_fields v of None \<Rightarrow> Inl Undefined | Some d \<Rightarrow> Inr d)
    (make_array (map BDocument docs)) = Inr docs"
  by (auto simp: map_res_Inr_iff make_array_def list_all2_conv_all_nth)

lemma cursor_document_batch:
  "nul \<notin> set name \<Longrightarrow> name \<noteq> ''id'' \<Longrightarrow> name \<noteq> ''ns'' \<Longrightarrow>
    batch_documents (cursor_document i ns name docs) name = Inr docs"
  by (simp add: batch_documents_def view_field_def find_field_literal cursor_document_def map_res_views)

lemma collect_reply:
  assumes "name = ''firstBatch'' \<or> name = ''nextBatch''" and "safe_int i"
  shows "collect_cursor ses db (cursor_reply i ns name docs None) name acc n =
    (if i = 0 then Some (Inr (acc @ docs), n)
     else case run_command ses (more_command (cursor_document i ns name docs)) db n of
         (Inl e, n') \<Rightarrow> Some (Inl e, n')
       | (Inr reply, n') \<Rightarrow> collect_cursor ses db reply ''nextBatch'' (acc @ docs) n')"
proof -
  have "batch_documents (cursor_document i ns name docs) name = Inr docs"
    using assms(1) by (intro cursor_document_batch) (auto simp: nul_def)
  moreover have "(word_of_int i :: int64) = 0 \<longleftrightarrow> i = 0"
    using sint_safe [OF assms(2)] by (metis of_int_0 signed_0)
  ultimately show ?thesis by (subst collect_cursor.simps) (simp add: view_cursor)
qed

lemma ok_reply_passes:
  "fst (dispatch_command ses (gateway_request cmd db) n) = Inr reply \<Longrightarrow> map_of reply ''ok'' = Some bone \<Longrightarrow>
    run_command ses cmd db n = (Inr reply, snd (dispatch_command ses (gateway_request cmd db) n))"
proof -
  have "d_eq (d_of_int 1) (d_of_int 1)" by (simp add: d_eq_of_int safe_int_def)
  then show "fst (dispatch_command ses (gateway_request cmd db) n) = Inr reply \<Longrightarrow> map_of reply ''ok'' = Some bone \<Longrightarrow>
      ?thesis"
    by (cases "dispatch_command ses (gateway_request cmd db) n") (simp add: run_command_def bone_def)
qed

text \<open>Where a buffered cursor waits: the documents left, and the reply a getMore for it gives.\<close>

definition waiting :: "int \<Rightarrow> namespace \<Rightarrow> document list \<Rightarrow> registry \<Rightarrow> bool" where
  "waiting i ns docs g \<longleftrightarrow> (\<exists>e. cursors g i = Some e \<and> entry_ns e = ns_text ns \<and> \<not> tailing e
     \<and> offset e \<le> length (remaining e) \<and> drop (offset e) (remaining e) = docs)"

lemma next_batch_waiting:
  assumes "waiting i ns docs g"
  obtains g' where "next_batch now i (ns_text ns) 101 g = (Inr (take 101 docs, length docs \<le> 101), g')"
    and "101 < length docs \<Longrightarrow> waiting i ns (drop 101 docs) g'"
proof -
  from assms obtain e where e: "cursors g i = Some e" "entry_ns e = ns_text ns" "\<not> tailing e"
    "offset e \<le> length (remaining e)" "drop (offset e) (remaining e) = docs" by (auto simp: waiting_def)
  have len: "length (remaining e) = offset e + length docs" using e(4,5) by auto
  let ?pos = "min (offset e + 101) (length (remaining e))"
  let ?g = "g\<lparr>cursors := (cursors g)(i := if length (remaining e) \<le> ?pos then None
      else Some (e\<lparr>last_used_seconds := now, offset := ?pos\<rparr>))\<rparr>"
  have "take_batch 101 (remaining e) (offset e) [] = (take 101 docs, ?pos)"
    using take_batch_eq [OF e(4), of "[]" 101] e(5) by simp
  moreover have "sint (101 :: int32) = 101" by simp
  ultimately have "next_batch now i (ns_text ns) 101 g = (Inr (take 101 docs, length (remaining e) \<le> ?pos), ?g)"
    using e(1,2) by (simp add: next_batch_def)
  moreover have "length (remaining e) \<le> ?pos \<longleftrightarrow> length docs \<le> 101" using len by auto
  moreover have "waiting i ns (drop 101 docs) ?g" if "101 < length docs"
  proof -
    have "drop (offset e + 101) (remaining e) = drop 101 docs"
      using e(5) by (metis add.commute drop_drop)
    with that len e(2,3) show ?thesis by (simp add: waiting_def min_def)
  qed
  ultimately show thesis by (intro that [of ?g]) simp_all
qed

text \<open>One round trip of the loop.\<close>

lemma get_more_reply:
  assumes ns: "parse_namespace db coll = Inr ns" and dot: "CHR ''.'' \<notin> set db"
    and i: "safe_int i" and wait: "waiting i ns docs (reg n)"
  shows "\<exists>n'. run_command ses (more_command (cursor_document i (ns_text ns) name first)) db n
      = (Inr (cursor_reply (if length docs \<le> 101 then 0 else i) (ns_text ns) ''nextBatch'' (take 101 docs) None), n')
    \<and> srv n' = srv n \<and> (101 < length docs \<longrightarrow> waiting i ns (drop 101 docs) (reg n'))"
proof -
  note p = parsed_namespace [OF ns]
  let ?cmd = "more_command (cursor_document i (ns_text ns) name first)"
  have cmd: "?cmd = [(''getMore'', BInt64 (word_of_int i)), (''collection'', BUtf8 coll)]"
    using after_dot_ns [of ns] p dot
    by (simp add: more_command_def find_field_literal nul_def) (simp add: cursor_document_def utf8_def nul_def)
  obtain e where e: "cursors (reg n) i = Some e" "\<not> tailing e" using wait by (auto simp: waiting_def)
  obtain g' where g: "next_batch (ses_seconds ses) i (ns_text ns) 101 (reg n)
      = (Inr (take 101 docs, length docs \<le> 101), g')"
    "101 < length docs \<Longrightarrow> waiting i ns (drop 101 docs) g'"
    using next_batch_waiting [OF wait] by blast
  let ?reply = "cursor_reply (if length docs \<le> 101 then 0 else i) (ns_text ns) ''nextBatch'' (take 101 docs) None"
  have "dispatch_command ses (gateway_request ?cmd db) n = (Inr ?reply, n\<lparr>reg := g'\<rparr>)"
    using ns e g(1) number_safe [OF _ i, of ?cmd "''getMore''" 0]
    by (simp add: dispatch_command_def document_fields_def gateway_request_def cmd run_command_named_def
        handler_lookups cmd_get_more_def find_field_literal nul_def Let_def text_field_def number_def
        kDefaultBatchSize_def on_registry_def tail_of_def)
  then have "run_command ses ?cmd db n = (Inr ?reply, n\<lparr>reg := g'\<rparr>)"
    using ok_reply_passes [of ses ?cmd db n ?reply] by simp
  with g(2) show ?thesis by simp
qed

lemma drained:
  assumes "parse_namespace db coll = Inr ns" and "CHR ''.'' \<notin> set db" and "safe_int i"
    and "name = ''firstBatch'' \<or> name = ''nextBatch''" and "if i = 0 then docs = [] else waiting i ns docs (reg n)"
  shows "\<exists>n'. collect_cursor ses db (cursor_reply i (ns_text ns) name first None) name acc n
      = Some (Inr (acc @ first @ docs), n') \<and> srv n' = srv n"
  using assms(4,5)
proof (induction "length docs" arbitrary: docs name first acc n rule: less_induct)
  case less
  let ?cmd = "more_command (cursor_document i (ns_text ns) name first)"
  show ?case
  proof (cases "i = 0")
    case True
    with less.prems have "docs = []" by simp
    with True show ?thesis using collect_reply [OF less.prems(1) assms(3)] by simp
  next
    case False
    with less.prems(2) have w: "waiting i ns docs (reg n)" by simp
    from get_more_reply [OF assms(1-3) w, of ses name first] obtain n1 where
      run: "run_command ses ?cmd db n = (Inr (cursor_reply (if length docs \<le> 101 then 0 else i) (ns_text ns)
        ''nextBatch'' (take 101 docs) None), n1)"
      and n1: "srv n1 = srv n" "101 < length docs \<longrightarrow> waiting i ns (drop 101 docs) (reg n1)" by blast
    have step: "collect_cursor ses db (cursor_reply i (ns_text ns) name first None) name acc n =
        collect_cursor ses db (cursor_reply (if length docs \<le> 101 then 0 else i) (ns_text ns)
          ''nextBatch'' (take 101 docs) None) ''nextBatch'' (acc @ first) n1"
      using collect_reply [OF less.prems(1) assms(3)] False run by simp
    show ?thesis
    proof (cases "length docs \<le> 101")
      case True
      then show ?thesis using step n1(1) collect_reply [of "''nextBatch''" 0] by (simp add: safe_int_def)
    next
      case big: False
      then have "length (drop 101 docs) < length docs" by simp
      from less.hyps [OF this, of "''nextBatch''" n1 "take 101 docs" "acc @ first"] big n1 False
      obtain n2 where "collect_cursor ses db (cursor_reply i (ns_text ns) ''nextBatch'' (take 101 docs) None)
          ''nextBatch'' (acc @ first) n1 = Some (Inr ((acc @ first) @ take 101 docs @ drop 101 docs), n2)"
        "srv n2 = srv n1" by auto
      then show ?thesis using step big n1(1) by simp
    qed
  qed
qed

section \<open>What the gateway returns\<close>

definition find_command :: "string \<Rightarrow> document \<Rightarrow> document" where
  "find_command coll flt = [(''find'', BUtf8 coll), (''filter'', BDocument flt)]"

definition find_projected :: "string \<Rightarrow> document \<Rightarrow> document list \<Rightarrow> document" where
  "find_projected coll flt ps = find_command coll flt @ map (\<lambda>p. (''projection'', BDocument p)) ps"

text \<open>What a \<open>find\<close> shows of the documents it loads: these, or what the projection leaves of each.\<close>

definition shown_as :: "document list \<Rightarrow> document list \<Rightarrow> document list outcome" where
  "shown_as ps docs =
     (if first_document ps = [] then Inr docs else map_res (\<lambda>d. project d (Some (first_document ps))) docs)"

lemma shaped_shown: "shape_results docs [] (Some (first_document ps)) 0 0 = shown_as ps docs"
  by (simp add: shape_results_def shown_as_def Let_def)

lemma gateway_find:
  assumes "parse_namespace db coll = Inr ns" and "\<not> is_oplog_namespace ns" and "coll_exists ns (srv n)"
    and "load (ses_env ses) ns flt (srv n) = Inr docs" and "length ps \<le> 1" and "shown_as ps docs = Inr shown"
    and "safe_int (next_id (reg n))" and "1 \<le> next_id (reg n)"
  obtains i n1 where "run_command ses (find_projected coll flt ps) db n
      = (Inr (cursor_reply i (ns_text ns) ''firstBatch'' (take 101 shown) None), n1)"
    and "srv n1 = srv n" and "safe_int i" and "if i = 0 then drop 101 shown = [] else waiting i ns (drop 101 shown) (reg n1)"
    and "length shown \<le> 101 \<Longrightarrow> i = 0"
proof -
  let ?cmd = "find_projected coll flt ps"
  obtain r g where o: "open_cursor (ses_seconds ses) (ns_text ns) (drop 101 shown) (reg n) = (r, g)"
    by (cases "open_cursor (ses_seconds ses) (ns_text ns) (drop 101 shown) (reg n)")
  have nid: "next_id (reg n) \<noteq> 2 ^ 63 - 1" using assms(7) by (auto simp: safe_int_def)
  define i where "i = (if drop 101 shown = [] then 0 else next_id (reg n))"
  have "r = Inr i" and w: "if i = 0 then drop 101 shown = [] else waiting i ns (drop 101 shown) g"
    using o nid assms(8)
    by (auto simp: i_def open_cursor_def emplace_def expire_idle_def waiting_def Let_def split: if_splits)
  let ?reply = "cursor_reply i (ns_text ns) ''firstBatch'' (take 101 shown) None"
  have batches: "first_batch 101 shown = (take 101 shown, drop 101 shown)"
    by (simp add: first_batch_def Let_def min_def)
  have projection: "sub_document (?cmd @ [(''$db'', BUtf8 db)]) ''projection'' = first_document ps"
    "sub_document ?cmd ''projection'' = first_document ps"
    using assms(5) by (cases ps; simp add: find_projected_def find_command_def sub_document_def view_field_def
        find_field_literal nul_def first_document_def)+
  have absent: "map_of (map (\<lambda>p. (''projection'', BDocument p)) ps) name = None" if "name \<noteq> ''projection''" for name
    using that by (auto simp: map_of_eq_None_iff)
  have "dispatch_command ses (gateway_request ?cmd db) n = (Inr ?reply, n\<lparr>reg := g\<rparr>)"
    using assms(1-4,6) o \<open>r = Inr i\<close> shaped_shown [of docs ps] projection
    by (simp add: dispatch_command_def document_fields_def gateway_request_def find_projected_def find_command_def
        run_command_named_def handler_lookups cmd_find_def ctx_ns_def find_field_literal nul_def Let_def
        sub_document_def view_field_def number_def flag_def kDefaultBatchSize_def batches on_registry_def absent)
  then have "run_command ses ?cmd db n = (Inr ?reply, n\<lparr>reg := g\<rparr>)"
    using ok_reply_passes [of ses ?cmd db n ?reply] by simp
  moreover have "safe_int i" using assms(7) by (simp add: i_def safe_int_def)
  moreover have "length shown \<le> 101 \<Longrightarrow> i = 0" by (simp add: i_def)
  ultimately show thesis using that [of i "n\<lparr>reg := g\<rparr>"] w by simp
qed

text \<open>The whole of \<open>mongo()\<close> on a find, from the first batch to the last.\<close>

lemma found_documents:
  assumes "and_then (parse_shell_call lib sql) build_shell_command
      = Inr \<lparr>command = find_projected coll flt ps, result = Documents\<rparr>"
    and "parse_namespace db coll = Inr ns" and "CHR ''.'' \<notin> set db \<or> length docs \<le> 101" and "\<not> is_oplog_namespace ns"
    and "coll_exists ns (srv n)" and "load (ses_env ses) ns flt (srv n) = Inr docs"
    and "length ps \<le> 1" and "shown_as ps docs = Inr shown"
    and "safe_int (next_id (reg n))" and "1 \<le> next_id (reg n)"
  shows "\<exists>n'. run_mongo_gateway ses lib db sql n = Some (render_array (bson_lib (ses_env ses)) shown, n')
    \<and> srv n' = srv n"
proof -
  from gateway_find [OF assms(2,4-10)] obtain i n1 where
    run: "run_command ses (find_projected coll flt ps) db n
      = (Inr (cursor_reply i (ns_text ns) ''firstBatch'' (take 101 shown) None), n1)"
    and n1: "srv n1 = srv n" "safe_int i" "if i = 0 then drop 101 shown = [] else waiting i ns (drop 101 shown) (reg n1)"
      "length shown \<le> 101 \<Longrightarrow> i = 0"
    by blast
  have "length shown = length docs"
    using assms(8) by (auto simp: shown_as_def split: if_splits dest: map_res_Inr_length)
  then have "i = 0 \<or> CHR ''.'' \<notin> set db" using assms(3) n1(4) by auto
  then obtain n2 where "collect_cursor ses db (cursor_reply i (ns_text ns) ''firstBatch'' (take 101 shown) None) ''firstBatch'' [] n1
      = Some (Inr shown, n2)" "srv n2 = srv n1"
  proof (cases "i = 0")
    case True
    then have "take 101 shown = shown" using n1(3) by simp
    with True that [of n1] show thesis using collect_reply [OF _ n1(2), of "''firstBatch''"] by simp
  next
    case False
    with \<open>i = 0 \<or> _\<close> have "CHR ''.'' \<notin> set db" by simp
    from drained [OF assms(2) this n1(2) _ n1(3), of "''firstBatch''" ses "take 101 shown" "[]"] that
    show thesis by auto
  qed
  moreover have "db \<noteq> []" using assms(2) by (auto simp: parse_namespace_def validate_identifier_def)
  ultimately show ?thesis using run n1(1) assms(1) by (simp add: run_mongo_gateway_def)
qed

text \<open>
  C6. From shell text to the answer: a \<open>find\<close> through \<open>mongo()\<close>, with or without a projection, ends and
  returns the array of all documents the filter selects, each projected, in the order of the table and
  over as many batches as that takes; the server is as before. This is for a database whose name has no
  dot, or for at most 101 documents, which the first batch holds.
\<close>

theorem gateway_find_returns_every_document:
  assumes "and_then (parse_shell_call lib sql) build_shell_command
      = Inr \<lparr>command = find_projected coll flt ps, result = Documents\<rparr>"
    and "parse_namespace db coll = Inr ns" and "CHR ''.'' \<notin> set db \<or> length docs \<le> 101" and "\<not> is_oplog_namespace ns"
    and "coll_exists ns (srv n)" and "load (ses_env ses) ns flt (srv n) = Inr docs"
    and "length ps \<le> 1" and "shown_as ps docs = Inr shown"
    and "safe_int (next_id (reg n))" and "1 \<le> next_id (reg n)"
  shows "\<exists>n'. run_mongo_gateway ses lib db sql n = Some (render_array (bson_lib (ses_env ses)) shown, n')
    \<and> srv n' = srv n"
  using assms by (rule found_documents)

lemma error_fails:
  "dispatch_command ses (gateway_request cmd db) n = (Inr (error_reply code code_name m), n') \<Longrightarrow>
    \<exists>e. run_command ses cmd db n = (Inl (Raise e), n') \<and> te_code e = sint (word_of_int code :: int32)"
proof -
  have "\<not> d_eq (d_of_int 0) (d_of_int 1)" by (simp add: d_eq_of_int safe_int_def)
  then show "dispatch_command ses (gateway_request cmd db) n = (Inr (error_reply code code_name m), n') \<Longrightarrow> ?thesis"
    by (simp add: run_command_def error_reply_def reply_failure_def find_field_literal nul_def)
qed

lemma get_more_fails:
  assumes "safe_int i" and "parse_namespace db coll = Inl e"
  shows "dispatch_command ses (gateway_request [(''getMore'', BInt64 (word_of_int i)), (''collection'', BUtf8 coll)] db) n
    = (failure_reply (ses_what ses) e, n)"
  using assms number_safe [OF _ assms(1), of "[(''getMore'', BInt64 (word_of_int i)), (''collection'', BUtf8 coll)]" "''getMore''" 0]
  by (simp add: dispatch_command_def document_fields_def gateway_request_def run_command_named_def
      handler_lookups cmd_get_more_def find_field_literal nul_def Let_def text_field_def)

lemma get_more_lost:
  assumes "safe_int i" and "parse_namespace db coll = Inr ns" and "cursors (reg n) i = Some e"
    and "entry_ns e \<noteq> ns_text ns"
  shows "dispatch_command ses (gateway_request [(''getMore'', BInt64 (word_of_int i)), (''collection'', BUtf8 coll)] db) n
    = (Inr (error_reply 43 ''CursorNotFound'' (''cursor id '' @ int_text i @ '' is not on '' @ ns_text ns)), n)"
  using assms number_safe [OF _ assms(1), of "[(''getMore'', BInt64 (word_of_int i)), (''collection'', BUtf8 coll)]" "''getMore''" 0]
  by (simp add: dispatch_command_def document_fields_def gateway_request_def run_command_named_def
      handler_lookups cmd_get_more_def find_field_literal nul_def Let_def text_field_def on_registry_def tail_of_def
      next_batch_def number_def kDefaultBatchSize_def cursor_not_found_def mk_error_def)

text \<open>
  In a database whose name has a dot the loop asks for the wrong collection: it takes what follows
  the first dot of the cursor's name, and the rest of a result that needs a second batch is lost in an
  error.
\<close>

theorem gateway_fails_on_a_dotted_database:
  assumes "parse_namespace db coll = Inr ns" and "CHR ''.'' \<in> set db" and "safe_int i" and "i \<noteq> 0"
    and "waiting i ns docs (reg n)"
  shows "case collect_cursor ses db (cursor_reply i (ns_text ns) ''firstBatch'' first None) ''firstBatch'' acc n of
      Some (r, _) \<Rightarrow> is_raise 43 r \<or> is_raise 2 r
    | None \<Rightarrow> False"
proof -
  note p = parsed_namespace [OF assms(1)]
  let ?cmd = "more_command (cursor_document i (ns_text ns) ''firstBatch'' first)"
  define rest where "rest = after_dot (ns_text ns)"
  obtain a b where db: "db = a @ CHR ''.'' # b" "CHR ''.'' \<notin> set a" using split_list_first [OF assms(2)] by blast
  then have rest: "rest = b @ CHR ''.'' # coll"
    by (simp add: rest_def after_dot_def p(1) ns_text_def) (subst dropWhile_append2; auto)
  then have nul: "nul \<notin> set rest" using p(2,3) db by (simp add: nul_def)
  have cmd: "?cmd = [(''getMore'', BInt64 (word_of_int i)), (''collection'', BUtf8 rest)]"
    using p(4) nul by (simp add: more_command_def find_field_literal nul_def rest_def)
      (simp add: cursor_document_def utf8_def nul_def rest_def)
  have fails: "\<exists>e n'. run_command ses ?cmd db n = (Inl (Raise e), n') \<and> te_code e \<in> {43, 2}"
  proof (cases "parse_namespace db rest")
    case (Inl e)
    then obtain m where "e = bad_value m"
      by (auto simp: parse_namespace_def validate_identifier_def and_then_Inl_iff throw_if_def split: if_splits)
    then have "dispatch_command ses (gateway_request ?cmd db) n = (Inr (error_reply 2 ''BadValue'' m), n)"
      using Inl get_more_fails [OF assms(3)] cmd by (simp add: bad_value_def mk_error_def)
    from error_fails [OF this] show ?thesis by auto
  next
    case (Inr ns')
    from assms(5) obtain e where e: "cursors (reg n) i = Some e" "entry_ns e = ns_text ns" "\<not> tailing e"
      by (auto simp: waiting_def)
    have "ns_text ns' \<noteq> ns_text ns"
    proof
      assume "ns_text ns' = ns_text ns"
      then have "length (ns_text ns') = length (ns_text ns)" by simp
      then show False using parsed_namespace(1) [OF Inr] p(1) rest by (simp add: ns_text_def)
    qed
    then have "dispatch_command ses (gateway_request ?cmd db) n = (Inr (error_reply 43 ''CursorNotFound''
        (''cursor id '' @ int_text i @ '' is not on '' @ ns_text ns')), n)"
      unfolding cmd using e by (intro get_more_lost [OF assms(3) Inr e(1)]) simp
    from error_fails [OF this] show ?thesis by auto
  qed
  then show ?thesis using collect_reply [OF _ assms(3), of "''firstBatch''"] assms(4) by auto
qed

definition plain_oids :: oid_reader where
  "plain_oids = \<lparr>oid_is_valid = (\<lambda>_. True), oid_from_string = (\<lambda>s. s)\<rparr>"

lemma demo_find: "and_then (parse_shell_call plain_oids ''db.a.find({})'') build_shell_command
    = Inr \<lparr>command = find_command ''a'' [], result = Documents\<rparr>"
  by code_simp

lemma demo_load: "load demo_env demo_ns [] demo_server = Inr [doc_a]"
  by code_simp

theorem gateway_find_returns_every_document_witness:
  "\<exists>n'. run_mongo_gateway demo_session plain_oids ''app'' ''db.a.find({})'' demo_node = Some (Inr ''[A]'', n')
    \<and> srv n' = demo_server"
proof -
  have "parse_namespace ''app'' ''a'' = Inr demo_ns" by code_simp
  moreover have "\<not> is_oplog_namespace demo_ns" "coll_exists demo_ns demo_server" by code_simp+
  moreover have "render_array (bson_lib demo_env) [doc_a] = Inr ''[A]''" by code_simp
  ultimately show ?thesis
    using gateway_find_returns_every_document [of plain_oids "''db.a.find({})''" "''a''" "[]" "[]" "''app''" demo_ns "[doc_a]"
        demo_node demo_session "[doc_a]"]
    by (simp add: demo_node_def demo_session_def demo_load fresh_registry_def safe_int_def demo_find find_projected_def
        shown_as_def first_document_def)
qed

definition dotted_ns :: namespace where
  "dotted_ns = \<lparr>ns_db = ''a.b'', ns_collection = ''c''\<rparr>"

theorem gateway_fails_on_a_dotted_database_witness:
  "case collect_cursor demo_session ''a.b'' (cursor_reply 1 (ns_text dotted_ns) ''firstBatch'' [] None) ''firstBatch'' []
        \<lparr>srv = demo_server, reg = \<lparr>cursors = [1 \<mapsto> \<lparr>entry_ns = ns_text dotted_ns, remaining = [doc_a], offset = 0,
          last_used_seconds = 0, tailing = False, tail = fresh_tail\<rparr>], next_id = 2\<rparr>\<rparr> of
      Some (r, _) \<Rightarrow> is_raise 43 r \<or> is_raise 2 r
    | None \<Rightarrow> False"
proof (rule gateway_fails_on_a_dotted_database [where docs = "[doc_a]"])
  show "parse_namespace ''a.b'' ''c'' = Inr dotted_ns" by code_simp
qed (simp_all add: safe_int_def waiting_def)

section \<open>A cursor that never ends\<close>

text \<open>
  What a change stream leaves behind as long as nobody prunes: a tail of this namespace whose position
  is not before the history, in an oplog whose events read as documents.
\<close>

definition streaming :: "session \<Rightarrow> int \<Rightarrow> namespace \<Rightarrow> node \<Rightarrow> bool" where
  "streaming ses i ns n \<longleftrightarrow> (\<exists>e tbl h. cursors (reg n) i = Some e \<and> entry_ns e = ns_text ns \<and> tailing e
     \<and> is_change_stream (tail e) \<and> oplog (srv n) = Some tbl \<and> history tbl = Some h
     \<and> max (pruned_seq h) (baseline_seq h) \<le> unat (Cursors.after_seq (tail e))
     \<and> (unat (Cursors.after_seq (tail e)) = 0 \<or> rows tbl \<noteq> [])
     \<and> (\<forall>r \<in> set (rows tbl). seq r < 2 ^ 64 \<and> (\<exists>d. event_document (sql_db (ses_env ses)) r = Inr d)))"

lemma streaming_read:
  assumes "\<forall>r \<in> set (rows tbl). \<exists>d. event_document db r = Inr d" and "history tbl = Some h"
    and "max (pruned_seq h) (baseline_seq h) \<le> after" and "after = 0 \<or> rows tbl \<noteq> []"
  obtains b where "read_changestream db ns after limit tbl tbl = Inr b"
    and "last_seq b = after \<or> after < last_seq b \<and> last_seq b \<in> seq ` set (rows tbl)"
proof -
  let ?rs = "take limit (sort_key seq (filter (\<lambda>r. after < seq r \<and> row_ns r = ns) (rows tbl)))"
  have sub: "r \<in> set (rows tbl) \<and> after < seq r" if "r \<in> set ?rs" for r
    using in_set_takeD [OF that] by simp
  have "event_document db r = Inr (projr (event_document db r))" if "r \<in> set ?rs" for r
    using assms(1) sub [OF that] by auto
  then have "map_res (event_document db) ?rs = Inr (map (\<lambda>r. projr (event_document db r)) ?rs)"
    by (rule map_res_total)
  then have "batch_of (event_document db) after ?rs = Inr \<lparr>documents = map (\<lambda>r. projr (event_document db r)) ?rs,
      last_seq = (if ?rs = [] then after else seq (last ?rs))\<rparr>" (is "_ = Inr ?b")
    by (simp add: batch_of_def)
  moreover have "require_change_stream_history after tbl = Inr ()"
    using assms(2-4) by (auto simp: require_change_stream_history_def Let_def)
  ultimately have "read_changestream db ns after limit tbl tbl = Inr ?b"
    by (simp add: read_changestream_def Let_def)
  moreover have "last_seq ?b = after \<or> after < last_seq ?b \<and> last_seq ?b \<in> seq ` set (rows tbl)"
  proof (cases "?rs = []")
    case False
    from sub [OF last_in_set [OF False]] have "seq (last ?rs) \<in> seq ` set (rows tbl) \<and> after < seq (last ?rs)"
      by blast
    with False show ?thesis by (simp only: oplog_batch.simps if_False) blast
  qed (simp only: oplog_batch.simps if_True simp_thms)
  ultimately show thesis by (rule that)
qed

lemma head_bound: "oplog_head tbl = 0 \<or> oplog_head tbl \<in> seq ` set (rows tbl)"
  using head_in [of tbl] by blast

lemma streaming_advances:
  assumes "streaming ses i ns n"
  obtains t tbl docs s g where "tail_of (ses_seconds ses) i (ns_text ns) (reg n) = (Some t, g)"
    and "is_change_stream t" and "oplog (srv n) = Some tbl"
    and "tail_batch (bson_lib (ses_env ses)) (sql_db (ses_env ses)) i (ns_text ns) t 101
      \<lparr>at_head = tbl, at_read = tbl, at_check = tbl\<rparr> [] g = Inr ((docs, s), advance_tail i (word_of_nat s) g)"
    and "streaming ses i ns (n\<lparr>reg := advance_tail i (word_of_nat s) g\<rparr>)"
proof -
  from assms obtain e tbl h where e: "cursors (reg n) i = Some e" "entry_ns e = ns_text ns" "tailing e"
      "is_change_stream (tail e)" and tbl: "oplog (srv n) = Some tbl" "history tbl = Some h"
    and pos: "max (pruned_seq h) (baseline_seq h) \<le> unat (Cursors.after_seq (tail e))"
      "unat (Cursors.after_seq (tail e)) = 0 \<or> rows tbl \<noteq> []"
    and rs: "\<forall>r \<in> set (rows tbl). seq r < 2 ^ 64 \<and> (\<exists>d. event_document (sql_db (ses_env ses)) r = Inr d)"
    unfolding streaming_def by blast
  let ?after = "unat (Cursors.after_seq (tail e))"
  let ?g = "(reg n)\<lparr>cursors := (cursors (reg n))(i := Some (e\<lparr>last_used_seconds := ses_seconds ses\<rparr>))\<rparr>"
  obtain b where b: "read_changestream (sql_db (ses_env ses)) (ns_text ns) ?after 101 tbl tbl = Inr b"
    and l: "last_seq b = ?after \<or> ?after < last_seq b \<and> last_seq b \<in> seq ` set (rows tbl)"
    using streaming_read [OF _ tbl(2) pos] rs by blast
  define s where "s = next_after 101 (oplog_head tbl) b"
  have s_in: "s = ?after \<or> ?after < s \<and> s \<in> seq ` set (rows tbl)"
    using l head_bound [of tbl] by (auto simp: s_def next_after_def max_def split: if_splits)
  then have "s < 2 ^ 64" using rs unat_64 by auto
  then have us: "unat (word_of_nat s :: 64 word) = s" by (simp add: unat_of_nat take_bit_nat_eq_self)
  have clone: "clone (tail e) = tail e" by (simp add: clone_def)
  have "tail_of (ses_seconds ses) i (ns_text ns) (reg n) = (Some (tail e), ?g)"
    using e by (simp add: tail_of_def clone)
  moreover have "tail_batch (bson_lib (ses_env ses)) (sql_db (ses_env ses)) i (ns_text ns) (tail e) 101
      \<lparr>at_head = tbl, at_read = tbl, at_check = tbl\<rparr> [] ?g = Inr ((documents b, s), advance_tail i (word_of_nat s) ?g)"
    using b e(4) by (simp add: tail_batch_def tail_reader_def s_def)
  moreover have "streaming ses i ns (n\<lparr>reg := advance_tail i (word_of_nat s) ?g\<rparr>)"
    unfolding streaming_def
  proof (intro exI conjI)
    show "cursors (reg (n\<lparr>reg := advance_tail i (word_of_nat s) ?g\<rparr>)) i
        = Some (e\<lparr>last_used_seconds := ses_seconds ses, tail := (tail e)\<lparr>Cursors.after_seq := word_of_nat s\<rparr>\<rparr>)"
      by (simp add: advance_tail_def)
  qed (use e tbl pos rs s_in us in auto)
  ultimately show thesis using e(4) tbl(1) by (intro that)
qed

lemma streaming_round:
  assumes "parse_namespace db coll = Inr ns" and "safe_int i" and "ses_passes ses = []" and "streaming ses i ns n"
  shows "\<exists>docs resume t n'. run_command ses
      [(''getMore'', BInt64 (word_of_int i)), (''collection'', BUtf8 coll)] db n
      = (Inr (cursor_reply i (ns_text ns) ''nextBatch'' docs (Some resume) @ [(''operationTime'', t)]), n')
    \<and> streaming ses i ns n'"
proof -
  obtain t tbl docs s g where
    t: "tail_of (ses_seconds ses) i (ns_text ns) (reg n) = (Some t, g)" "is_change_stream t" "oplog (srv n) = Some tbl"
    and b: "tail_batch (bson_lib (ses_env ses)) (sql_db (ses_env ses)) i (ns_text ns) t 101
      \<lparr>at_head = tbl, at_read = tbl, at_check = tbl\<rparr> [] g = Inr ((docs, s), advance_tail i (word_of_nat s) g)"
    and st: "streaming ses i ns (n\<lparr>reg := advance_tail i (word_of_nat s) g\<rparr>)"
    by (rule streaming_advances [OF assms(4)])
  let ?cmd = "[(''getMore'', BInt64 (word_of_int i)), (''collection'', BUtf8 coll)]"
  let ?n = "n\<lparr>reg := advance_tail i (word_of_nat s) g\<rparr>"
  obtain c where clock: "clock_reading (srv n) = (Inr c, srv n)"
    using t(3) by (simp add: clock_reading_def current_operation_time_def Let_def)
  let ?t = "BTimestamp (word_of_nat (seconds c)) (word_of_nat (Oplog.increment c))"
  let ?reply = "cursor_reply i (ns_text ns) ''nextBatch'' docs (Some s) @ [(''operationTime'', ?t)]"
  have "dispatch_command ses (gateway_request ?cmd db) n = (Inr ?reply, ?n)"
    using assms(1,3) t b clock number_safe [OF _ assms(2), of ?cmd "''getMore''" 0]
    by (simp add: dispatch_command_def document_fields_def gateway_request_def run_command_named_def
        handler_lookups cmd_get_more_def find_field_literal nul_def Let_def text_field_def number_def
        kDefaultBatchSize_def on_registry_def cmd_tail_batch_def on_server_def append_operation_time_def)
  then have "run_command ses ?cmd db n = (Inr ?reply, ?n)"
    using ok_reply_passes [of ses ?cmd db n ?reply] by (simp add: map_add_def)
  with st show ?thesis by blast
qed

text \<open>The replies of such a cursor, as the loop reads them.\<close>

lemma tail_reply_views:
  assumes "name = ''firstBatch'' \<or> name = ''nextBatch''"
  obtains cursor where "view_field (cursor_reply i ns name docs resume @ extra) ''cursor'' = Some cursor"
    and "batch_documents cursor name = Inr docs" and "cursor_id_of cursor = word_of_int i"
    and "more_command cursor = more_command (cursor_document i ns name docs)"
proof -
  define token where "token = (case resume of None \<Rightarrow> []
    | Some s \<Rightarrow> [(''postBatchResumeToken'', BDocument [(''_data'', utf8 (encode_resume_token (word_of_nat s)))])])"
  let ?c = "cursor_document i ns name docs @ token"
  have same: "find_field ?c k = find_field (cursor_document i ns name docs) k" if "k = ''id'' \<or> k = ''ns'' \<or> k = name" for k
    using that assms by (auto simp: find_field_literal nul_def cursor_document_def map_add_def)
  show thesis
  proof (rule that [of ?c])
    show "view_field (cursor_reply i ns name docs resume @ extra) ''cursor'' = Some ?c"
      by (simp add: view_field_def find_field_literal nul_def cursor_reply_def cursor_document_def token_def)
    have "nul \<notin> set name" "name \<noteq> ''id''" "name \<noteq> ''ns''" using assms by (auto simp: nul_def)
    from cursor_document_batch [OF this] show "batch_documents ?c name = Inr docs"
      using same [of name] by (simp add: batch_documents_def view_field_def)
    have "cursor_id_of ?c = cursor_id_of (cursor_document i ns name docs)"
      using same [of "''id''"] by (simp add: cursor_id_of_def)
    then show "cursor_id_of ?c = word_of_int i"
      and "more_command ?c = more_command (cursor_document i ns name docs)"
      using same [of "''ns''"] by (simp_all add: more_command_def)
  qed
qed

lemma more_of_reply:
  assumes "parse_namespace db coll = Inr ns" and "CHR ''.'' \<notin> set db"
  shows "more_command (cursor_document i (ns_text ns) name docs)
    = [(''getMore'', BInt64 (word_of_int i)), (''collection'', BUtf8 coll)]"
  using after_dot_ns [of ns] parsed_namespace [OF assms(1)] assms(2)
  by (simp add: more_command_def find_field_literal nul_def) (simp add: cursor_document_def utf8_def nul_def)

text \<open>
  Draining a change stream never ends: while the stream stays healthy and nobody else writes, the
  loop that \<open>mongo()\<close> runs over the cursor of a \<open>$changeStream\<close> pipeline gets the same id back from every
  getMore and does not return.
\<close>

theorem gateway_never_leaves_a_change_stream:
  assumes "parse_namespace db coll = Inr ns" and "CHR ''.'' \<notin> set db" and "safe_int i" and "i \<noteq> 0"
    and "ses_passes ses = []" and "streaming ses i ns n" and "name = ''firstBatch'' \<or> name = ''nextBatch''"
  shows "collect_cursor ses db (cursor_reply i (ns_text ns) name docs resume @ extra) name acc n = None"
proof -
  have id: "(word_of_int i :: int64) \<noteq> 0" using sint_safe [OF assms(3)] assms(4) by (metis signed_0)
  let ?loop = "\<lambda>ses' db' reply name' n'. ses' = ses \<and> db' = db \<and> streaming ses i ns n'
      \<and> (name' = ''firstBatch'' \<or> name' = ''nextBatch'')
      \<and> (\<exists>docs resume extra. reply = cursor_reply i (ns_text ns) name' docs resume @ extra)"
  let ?reply = "cursor_reply i (ns_text ns) name docs resume @ extra"
  have "\<not> ?loop ses db ?reply name n" if "collect_cursor ses db ?reply name acc n = Some y" for y
  proof (rule collect_cursor.raw_induct [where P = "\<lambda>ses' db' reply name' acc n' y. \<not> ?loop ses' db' reply name' n'",
        OF _ that])
    fix collect ses' db' reply name' acc n' y
    assume IH: "\<And>ses' db' reply name' acc n' y. collect ses' db' reply name' acc n' = Some y \<Longrightarrow>
        \<not> ?loop ses' db' reply name' n'"
      and body: "(case view_field reply ''cursor'' of
        None \<Rightarrow> Some (Inr acc, n')
      | Some cursor \<Rightarrow> (case batch_documents cursor name' of
            Inl e \<Rightarrow> Some (Inl e, n')
          | Inr docs \<Rightarrow>
              if cursor_id_of cursor = 0 then Some (Inr (acc @ docs), n')
              else (case run_command ses' (more_command cursor) db' n' of
                  (Inl e, n') \<Rightarrow> Some (Inl e, n')
                | (Inr reply1, n') \<Rightarrow> collect ses' db' reply1 ''nextBatch'' (acc @ docs) n'))) = Some y"
    show "\<not> ?loop ses' db' reply name' n'"
    proof
      assume loop: "?loop ses' db' reply name' n'"
      then obtain docs resume extra where reply: "reply = cursor_reply i (ns_text ns) name' docs resume @ extra"
        by blast
      obtain cursor where c: "view_field reply ''cursor'' = Some cursor"
        "batch_documents cursor name' = Inr docs" "cursor_id_of cursor = word_of_int i"
        "more_command cursor = more_command (cursor_document i (ns_text ns) name' docs)"
        unfolding reply by (rule tail_reply_views) (use loop in auto)
      from streaming_round [OF assms(1,3,5)] loop obtain docs1 resume1 t n1 where
        r: "run_command ses (more_command cursor) db n'
          = (Inr (cursor_reply i (ns_text ns) ''nextBatch'' docs1 (Some resume1) @ [(''operationTime'', t)]), n1)"
        "streaming ses i ns n1" unfolding c(4) more_of_reply [OF assms(1,2)] by blast
      with body c(1-3) id loop have "collect ses db
          (cursor_reply i (ns_text ns) ''nextBatch'' docs1 (Some resume1) @ [(''operationTime'', t)]) ''nextBatch''
          (acc @ docs) n1 = Some y" by simp
      from IH [OF this] r(2) show False by blast
    qed
  qed
  then show ?thesis using assms(6,7) by (cases "collect_cursor ses db ?reply name acc n") blast+
qed

definition quiet_node :: node where
  "quiet_node = \<lparr>srv = snd (create demo_env False demo_ns fresh_server),
     reg = \<lparr>cursors = [1 \<mapsto> \<lparr>entry_ns = ns_text demo_ns, remaining = [], offset = 0, last_used_seconds = 0,
       tailing = True, tail = fresh_tail\<lparr>is_change_stream := True\<rparr>\<rparr>], next_id = 2\<rparr>\<rparr>"

lemma quiet_oplog: "oplog (srv quiet_node) = Some \<lparr>rows = [], next_seq = 1, clock = Some (Optime 0 0),
    history = Some \<lparr>pruned_seq = 0, pruned_t = 0, pruned_i = 0, legacy_baseline = False, baseline_seq = 0,
      baseline_t = 0, baseline_i = 0\<rparr>\<rparr>"
  unfolding quiet_node_def node.simps by code_simp

theorem gateway_never_leaves_a_change_stream_witness:
  "collect_cursor demo_session ''app'' (cursor_reply 1 (ns_text demo_ns) ''firstBatch'' [] (Some 0) @ [])
    ''firstBatch'' [] quiet_node = None"
proof (rule gateway_never_leaves_a_change_stream)
  show "parse_namespace ''app'' ''a'' = Inr demo_ns" by code_simp
  show "streaming demo_session 1 demo_ns quiet_node"
    using quiet_oplog by (simp add: streaming_def) (simp add: quiet_node_def fresh_tail_def)
qed (simp_all add: safe_int_def demo_session_def)

end
