(* ===== verification/Plugin.thy ===== *)
theory Plugin
  imports Listener MongoGateway
begin

text \<open>
  The plugin (src/chimera/plugin/chimera_mongo/chimera_mongo.cc): what it refuses to start with and
  what it hands to the gateway and the listener; the pruner's thread and the waiting for writes
  (oplog.cc); and the SQL function \<open>mongo\<close> (mongogateway_udf.cc).
\<close>

section \<open>Starting\<close>

record settings =
  bind_value :: "string option"
  insecure_bind :: bool
  port_value :: nat
  oplog_max_rows :: nat
  oplog_max_age :: nat
  sql_writes :: bool

text \<open>What runs once \<open>chimera_mongo_init\<close> returned 0.\<close>

record plugin =
  plugin_identity :: identity
  plugin_gateway :: sql_gateway
  prune_limits :: "nat \<times> nat"

definition bind_address :: "settings \<Rightarrow> string" where
  "bind_address st = (case bind_value st of None \<Rightarrow> ''127.0.0.1'' | Some b \<Rightarrow> c_str b)"

text \<open>
  The state of the gateway is set before the listener starts. The write flag is the address of the
  system variable, so it is read as \<open>sql_writes\<close> is when a statement arrives.
\<close>

definition chimera_mongo_init ::
  "(string \<Rightarrow> 32 word option) \<Rightarrow> (string \<Rightarrow> string option) \<Rightarrow> string \<Rightarrow> settings \<Rightarrow> sql_gateway
    \<Rightarrow> (string + plugin) \<times> sql_gateway" where
  "chimera_mongo_init inet_pton os process st g =
     (let address = bind_address st; exposed = \<not> is_loopback_address inet_pton address in
      if exposed \<and> \<not> insecure_bind st
      then (Inl (''refusing to start: chimera_mongo_bind='' @ address @ '' is not a loopback address''), g)
      else
        let g1 = g\<lparr>write_flag := Some (sql_writes st), network_exposed := exposed\<rparr> in
        (case start_listener inet_pton os address of
           Inl e \<Rightarrow> (Inl (''failed to start listener: '' @ e), g1)
         | Inr _ \<Rightarrow> (Inr \<lparr>plugin_identity = listener_identity address (port_value st mod 2 ^ 16) process,
             plugin_gateway = g1, prune_limits = (oplog_max_rows st, oplog_max_age st)\<rparr>, g1)))"

section \<open>The pruner's thread\<close>

text \<open>A pass of \<open>OplogPruner::run\<close>: a failure is reported, and the next pass tries again.\<close>

definition prune_pass :: "nat \<times> nat \<Rightarrow> nat \<Rightarrow> oplog_store option \<Rightarrow> oplog_store option" where
  "prune_pass limits now lg = (case install_oplog_schema False lg of
       Inl _ \<Rightarrow> lg
     | Inr db \<Rightarrow> (case prune_oplog (fst limits) (snd limits) now (\<lambda>_. db) of
         Inl _ \<Rightarrow> Some db
       | Inr (_, db') \<Rightarrow> Some db'))"

text \<open>Each turn: the stop flag after the wait, the second, and what others did to the oplog meanwhile.\<close>

fun pruner_run ::
  "nat \<times> nat \<Rightarrow> (bool \<times> nat \<times> (oplog_store option \<Rightarrow> oplog_store option)) list
    \<Rightarrow> oplog_store option \<Rightarrow> oplog_store option" where
  "pruner_run limits [] lg = lg"
| "pruner_run limits ((stop, now, others) # turns) lg =
     (let lg = others lg in if stop then lg else pruner_run limits turns (prune_pass limits now lg))"

lemma installed: "history db \<noteq> None \<Longrightarrow> install_oplog_schema False (Some db) = Inr db"
  by (auto simp: install_oplog_schema_def)

text \<open>A pass is a run of the pruner of \<open>Oplog\<close>, so that what is proved of its steps holds of the thread.\<close>

lemma prune_pass_steps:
  assumes "stage w = Idle" and "history (store w) \<noteq> None"
  shows "\<exists>w'. (oplog_step steady idf)\<^sup>*\<^sup>* w w' \<and> stage w' = Idle \<and> committed w' = committed w
    \<and> prune_pass limits now (Some (store w)) = Some (store w')"
proof -
  let ?step = "oplog_step steady idf"
  obtain mr ma where lim: "limits = (mr, ma)" by (cases limits)
  let ?head = "oplog_head (store w)"
  define plan where "plan = \<lparr>plan_head = ?head, age_cut = age_condition ma now, seq_cut = row_condition mr (store w)\<rparr>"
  have pass: "prune_pass limits now (Some (store w)) = (case prune_oplog mr ma now (\<lambda>_. store w) of
      Inl _ \<Rightarrow> Some (store w) | Inr (_, db) \<Rightarrow> Some db)"
    by (simp add: prune_pass_def installed [OF assms(2)] lim)
  have unchanged: ?thesis if "prune_oplog mr ma now (\<lambda>_. store w) \<in> range Inl \<union> range (\<lambda>k. Inr (k, store w))"
    using that assms(1) pass by (intro exI [of _ w]) auto
  show ?thesis
  proof (cases "(mr = 0 \<and> ma = 0) \<or> ?head = 0 \<or> (age_cut plan = None \<and> seq_cut plan = None)
      \<or> newest_selected plan (store w) = None")
    case True
    then show ?thesis by (intro unchanged) (auto simp: prune_oplog_def plan_def Let_def)
  next
    case False
    then obtain newest where go: "mr \<noteq> 0 \<or> ma \<noteq> 0" "?head \<noteq> 0" "\<not> (age_cut plan = None \<and> seq_cut plan = None)"
      "newest_selected plan (store w) = Some newest" by auto
    have prune: "prune_oplog mr ma now (\<lambda>_. store w) = (case latest_selected plan (store w) of
        None \<Rightarrow> Inl (internal_error ''could not determine the timestamp of pruned history'')
      | Some stamp \<Rightarrow> execute_prune plan newest stamp (store w))"
    proof -
      have "\<not> (mr = 0 \<and> ma = 0)" using go(1) by blast
      then show ?thesis
        unfolding prune_oplog_def Let_def plan_def [symmetric] by (simp only: go(2-4) if_False option.case)
    qed
    show ?thesis
    proof (cases "\<exists>stamp k db. latest_selected plan (store w) = Some stamp \<and> execute_prune plan newest stamp (store w) = Inr (k, db)")
      case False
      then have "prune_oplog mr ma now (\<lambda>_. store w) \<in> range Inl"
        unfolding prune by (cases "latest_selected plan (store w)"; cases "execute_prune plan newest (the (latest_selected plan (store w))) (store w)") auto
      then show ?thesis by (intro unchanged) simp
    next
      case True
      then obtain stamp k db where t: "latest_selected plan (store w) = Some stamp"
          "execute_prune plan newest stamp (store w) = Inr (k, db)" by blast
      let ?w = "\<lambda>st. w\<lparr>stage := st\<rparr>"
      have "?step w (?w (Have_head mr ma ?head))" using assms(1) go(1,2) by (rule step_head)
      moreover have "?step (?w (Have_head mr ma ?head)) (?w (Have_plan plan))"
      proof -
        have "?step (?w (Have_head mr ma ?head)) ((?w (Have_head mr ma ?head))\<lparr>stage :=
            if age_cut plan = None \<and> seq_cut plan = None then Idle else Have_plan plan\<rparr>)"
          by (rule step_plan) (simp_all add: plan_def)
        then show ?thesis unfolding if_not_P [OF go(3)] by simp
      qed
      moreover have "?step (?w (Have_plan plan)) (?w (Have_newest plan newest))"
        using step_newest [of "?w (Have_plan plan)" plan newest steady idf] go(4) by simp
      moreover have "?step (?w (Have_newest plan newest)) (?w (Have_stamp plan newest stamp))"
        using step_stamp [of "?w (Have_newest plan newest)" plan newest stamp steady idf] t(1) by simp
      moreover have "?step (?w (Have_stamp plan newest stamp)) (w\<lparr>store := db, stage := Idle\<rparr>)"
        using step_execute [of "?w (Have_stamp plan newest stamp)" plan newest stamp k db steady idf] t(2) by simp
      ultimately have "?step\<^sup>*\<^sup>* w (w\<lparr>store := db, stage := Idle\<rparr>)"
        by (meson rtranclp.rtrancl_refl rtranclp.rtrancl_into_rtrancl)
      then show ?thesis using t pass prune by (intro exI [of _ "w\<lparr>store := db, stage := Idle\<rparr>"]) simp
    qed
  qed
qed

text \<open>
  The pruner's thread keeps what \<open>Oplog\<close> proves. Let it run for any number of turns, whatever clients
  do to the oplog in between, as long as that is steps of writers: the oplog it leaves is one of the
  reachable worlds, and satisfies their invariant: every event ever committed is still stored or covered
  by the history.
\<close>

theorem pruner_thread_is_a_run:
  assumes "oplog_reachable steady idf w" and "stage w = Idle"
    and "\<forall>(stop, now, others) \<in> set turns. \<forall>v. oplog_reachable steady idf v \<and> stage v = Idle \<longrightarrow>
      (\<exists>v'. (oplog_step steady idf)\<^sup>*\<^sup>* v v' \<and> stage v' = Idle \<and> others (Some (store v)) = Some (store v'))"
  shows "\<exists>w'. oplog_reachable steady idf w' \<and> world_ok steady w' \<and> pruner_run limits turns (Some (store w)) = Some (store w')"
  using assms
proof (induction turns arbitrary: w)
  case (Cons turn turns)
  obtain stop now others where t: "turn = (stop, now, others)" by (cases turn)
  with Cons.prems(3) have "\<exists>v'. (oplog_step steady idf)\<^sup>*\<^sup>* w v' \<and> stage v' = Idle
      \<and> others (Some (store w)) = Some (store v')" by (simp add: Cons.prems(1,2))
  then obtain v where v: "(oplog_step steady idf)\<^sup>*\<^sup>* w v" "stage v = Idle" "others (Some (store w)) = Some (store v)" by blast
  have rv: "oplog_reachable steady idf v" using v(1) Cons.prems(1) by (rule run_reachable)
  then have "history (store v) \<noteq> None" by (auto elim!: world_okE dest!: reachable_ok)
  from prune_pass_steps [OF v(2) this, of steady idf limits now] obtain u where
    u: "(oplog_step steady idf)\<^sup>*\<^sup>* v u" "stage u = Idle" "prune_pass limits now (Some (store v)) = Some (store u)" by blast
  from Cons.IH [OF run_reachable [OF u(1) rv] u(2)] Cons.prems(3)
  obtain w' where "oplog_reachable steady idf w'" "world_ok steady w'" "pruner_run limits turns (Some (store u)) = Some (store w')"
    by auto
  with rv v u(3) t show ?case by (cases stop) (auto simp: Let_def intro: reachable_ok)
qed (auto intro: reachable_ok)

text \<open>
  \<open>signal_oplog_write\<close> counts; \<open>wait_for_oplog_write\<close> compares with the count it finds when it starts
  to wait. The list holds the counts at that moment and whenever the condition is evaluated.
\<close>

definition signal_oplog_write :: "64 word \<Rightarrow> 64 word" where
  "signal_oplog_write generation = generation + 1"

fun wait_for_oplog_write :: "64 word list \<Rightarrow> bool" where
  "wait_for_oplog_write [] = False"
| "wait_for_oplog_write (seen # later) = list_ex (\<lambda>generation. generation \<noteq> seen) later"

section \<open>The SQL function\<close>

definition argument_text :: "string option list \<Rightarrow> nat \<Rightarrow> string" where
  "argument_text udf_args i = (case udf_args ! i of None \<Rightarrow> [] | Some s \<Rightarrow> s)"

text \<open>The database and the statement; \<open>thd_db\<close> is the session's current database.\<close>

definition split_arguments :: "string option list \<Rightarrow> string option \<Rightarrow> string \<times> string" where
  "split_arguments udf_args thd_db =
     (if length udf_args = 2 then (argument_text udf_args 0, argument_text udf_args 1)
      else (case thd_db of None \<Rightarrow> [] | Some db \<Rightarrow> db, argument_text udf_args 0))"

definition mongo_init :: "string option list \<Rightarrow> string + unit" where
  "mongo_init udf_args =
     (if length udf_args < 1 \<or> 2 < length udf_args
      then Inl (''mongo() takes mongo('' @ sq @ ''<statement>'' @ sq @ '') or mongo('' @ sq @ ''<database>''
        @ sq @ '', '' @ sq @ ''<statement>'' @ sq @ '')'')
      else Inr ())"

datatype udf_result = Sql_null | Sql_error string | Sql_text string | Sql_undefined

fun failure_text :: "string \<Rightarrow> failure \<Rightarrow> udf_result" where
  "failure_text what (Raise e) = Sql_error (''mongo(): '' @ te_what e)"
| "failure_text what Std_exception = Sql_error (''mongo(): '' @ what)"
| "failure_text what Undefined = Sql_undefined"

definition mongo ::
  "session \<Rightarrow> oid_reader \<Rightarrow> string option list \<Rightarrow> string option \<Rightarrow> node \<Rightarrow> (udf_result \<times> node) option" where
  "mongo ses lib udf_args thd_db n = (case split_arguments udf_args thd_db of (db, sql) \<Rightarrow>
     if sql = [] then Some (Sql_null, n)
     else map_option (\<lambda>(r, n'). (case r of Inl e \<Rightarrow> failure_text (ses_what ses) e | Inr text \<Rightarrow> Sql_text text, n'))
       (run_mongo_gateway ses lib db sql n))"

section \<open>What an exposed listener runs\<close>

lemma exposed_gateway:
  "network_exposed g \<Longrightarrow> run_sql_gateway (g\<lparr>write_flag := f, execute := x\<rparr>) sql s = run_sql_gateway g sql s"
  by (simp add: run_sql_gateway_def)

lemma other_fields:
  "ctx_ns (ctx\<lparr>ctx_gateway := g\<rparr>) = ctx_ns ctx" "ctx_env (ctx\<lparr>ctx_gateway := g\<rparr>) = ctx_env ctx"
  "ctx_body (ctx\<lparr>ctx_gateway := g\<rparr>) = ctx_body ctx" "ctx_db (ctx\<lparr>ctx_gateway := g\<rparr>) = ctx_db ctx"
  "ctx_argument (ctx\<lparr>ctx_gateway := g\<rparr>) = ctx_argument ctx" "ctx_seconds (ctx\<lparr>ctx_gateway := g\<rparr>) = ctx_seconds ctx"
  "ctx_passes (ctx\<lparr>ctx_gateway := g\<rparr>) = ctx_passes ctx" "ctx_gateway (ctx\<lparr>ctx_gateway := g\<rparr>) = g"
  by (simp_all add: ctx_ns_def)

lemma reads_ignore_gateway:
  "cmd_find (ctx\<lparr>ctx_gateway := g\<rparr>) = cmd_find ctx" "cmd_get_more (ctx\<lparr>ctx_gateway := g\<rparr>) = cmd_get_more ctx"
  "cmd_kill_cursors (ctx\<lparr>ctx_gateway := g\<rparr>) = cmd_kill_cursors ctx"
  "cmd_open_change_stream (ctx\<lparr>ctx_gateway := g\<rparr>) sts = cmd_open_change_stream ctx sts"
  "cmd_count (ctx\<lparr>ctx_gateway := g\<rparr>) = cmd_count ctx" "cmd_distinct (ctx\<lparr>ctx_gateway := g\<rparr>) = cmd_distinct ctx"
  by (intro ext, simp only: cmd_find_def cmd_find_oplog_def cmd_get_more_def cmd_tail_batch_def cmd_kill_cursors_def
      cmd_open_change_stream_def cmd_count_def cmd_distinct_def other_fields)+

lemma writes_ignore_gateway:
  "cmd_insert (ctx\<lparr>ctx_gateway := g\<rparr>) = cmd_insert ctx" "cmd_update (ctx\<lparr>ctx_gateway := g\<rparr>) = cmd_update ctx"
  "cmd_delete (ctx\<lparr>ctx_gateway := g\<rparr>) = cmd_delete ctx"
  "cmd_find_and_modify (ctx\<lparr>ctx_gateway := g\<rparr>) = cmd_find_and_modify ctx"
  by (intro ext, simp only: cmd_insert_def cmd_update_def cmd_delete_def cmd_find_and_modify_def other_fields)+

lemma namespaces_ignore_gateway:
  "cmd_create (ctx\<lparr>ctx_gateway := g\<rparr>) = cmd_create ctx" "cmd_drop (ctx\<lparr>ctx_gateway := g\<rparr>) = cmd_drop ctx"
  "cmd_drop_database (ctx\<lparr>ctx_gateway := g\<rparr>) = cmd_drop_database ctx"
  "cmd_list_databases (ctx\<lparr>ctx_gateway := g\<rparr>) = cmd_list_databases ctx"
  "cmd_list_collections (ctx\<lparr>ctx_gateway := g\<rparr>) = cmd_list_collections ctx"
  "cmd_list_indexes (ctx\<lparr>ctx_gateway := g\<rparr>) = cmd_list_indexes ctx"
  "cmd_create_indexes (ctx\<lparr>ctx_gateway := g\<rparr>) = cmd_create_indexes ctx"
  "cmd_drop_indexes (ctx\<lparr>ctx_gateway := g\<rparr>) = cmd_drop_indexes ctx"
  by (intro ext, simp only: cmd_create_def cmd_drop_def cmd_drop_database_def cmd_list_databases_def
      cmd_list_collections_def cmd_list_indexes_def cmd_create_indexes_def cmd_drop_indexes_def other_fields)+

lemma sql_ignores_gateway:
  assumes "network_exposed g"
  shows "cmd_aggregate (ctx\<lparr>ctx_gateway := g\<lparr>write_flag := f, execute := x\<rparr>\<rparr>) = cmd_aggregate (ctx\<lparr>ctx_gateway := g\<rparr>)"
    and "cmd_chimera_sql (ctx\<lparr>ctx_gateway := g\<lparr>write_flag := f, execute := x\<rparr>\<rparr>) = cmd_chimera_sql (ctx\<lparr>ctx_gateway := g\<rparr>)"
proof -
  have "aggregate_documents (ctx\<lparr>ctx_gateway := g\<lparr>write_flag := f, execute := x\<rparr>\<rparr>)
      = aggregate_documents (ctx\<lparr>ctx_gateway := g\<rparr>)"
    by (intro ext, simp only: aggregate_documents_def take_sql_source_def other_fields exposed_gateway [OF assms])
  then show "cmd_aggregate (ctx\<lparr>ctx_gateway := g\<lparr>write_flag := f, execute := x\<rparr>\<rparr>) = cmd_aggregate (ctx\<lparr>ctx_gateway := g\<rparr>)"
    by (intro ext, simp only: cmd_aggregate_def reads_ignore_gateway other_fields)
  show "cmd_chimera_sql (ctx\<lparr>ctx_gateway := g\<lparr>write_flag := f, execute := x\<rparr>\<rparr>) = cmd_chimera_sql (ctx\<lparr>ctx_gateway := g\<rparr>)"
    by (intro ext, simp only: cmd_chimera_sql_def other_fields exposed_gateway [OF assms])
qed

lemma handlers_ignore_gateway:
  assumes "network_exposed g"
  shows "list_all (\<lambda>(name, h). h (ctx\<lparr>ctx_gateway := g\<lparr>write_flag := f, execute := x\<rparr>\<rparr>) = h (ctx\<lparr>ctx_gateway := g\<rparr>)) handlers"
  by (simp only: handlers_def list.pred_inject prod.case simp_thms reads_ignore_gateway writes_ignore_gateway
      namespaces_ignore_gateway sql_ignores_gateway [OF assms])

lemma dispatch_ignores_gateway:
  assumes "network_exposed g"
  shows "dispatch_command (ses\<lparr>ses_gateway := g\<lparr>write_flag := f, execute := x\<rparr>\<rparr>) req n
    = dispatch_command (ses\<lparr>ses_gateway := g\<rparr>) req n"
proof -
  have "run_command_named (ses\<lparr>ses_gateway := g\<lparr>write_flag := f, execute := x\<rparr>\<rparr>) req name arg n
      = run_command_named (ses\<lparr>ses_gateway := g\<rparr>) req name arg n" for name arg
  proof (cases "map_of handlers name")
    case None
    then show ?thesis by (simp add: run_command_named_def)
  next
    case (Some h)
    let ?ctx = "\<lambda>g. \<lparr>ctx_env = ses_env ses, ctx_gateway = g, ctx_body = req_body req, ctx_db = database req,
      ctx_argument = (case arg of BUtf8 s \<Rightarrow> s | _ \<Rightarrow> []), ctx_seconds = ses_seconds ses, ctx_passes = ses_passes ses\<rparr>"
    from Some have "(name, h) \<in> set handlers" by (rule map_of_SomeD)
    with handlers_ignore_gateway [OF assms, where ctx = "?ctx g" and f = f and x = x]
    have "h (?ctx (g\<lparr>write_flag := f, execute := x\<rparr>)) = h (?ctx g)" by (auto simp: list_all_iff)
    with Some show ?thesis by (simp add: run_command_named_def)
  qed
  moreover have "ses_what (ses\<lparr>ses_gateway := h\<rparr>) = ses_what ses" for h by simp
  ultimately show ?thesis by (simp only: dispatch_command_def)
qed

text \<open>
  C12. The SQL gateway of a plugin that listens beyond loopback is shut. Such a plugin starts only where
  \<open>chimera_mongo_insecure_bind\<close> allows it, and then its gateway refuses every statement, without a
  change, whatever the write flag is set to later; so the statement of a \<open>chimeraSql\<close> command or a \<open>$sql\<close>
  stage never reaches the server: whatever the server would do with one, every request has the same
  reply and the same effect. (The SQL that the plugin compiles from a filter or an update is no matter
  of the gateway; of what its texts may hold, see \<open>Statements\<close>.)
\<close>

theorem exposed_plugin_runs_no_sql:
  assumes "fst (chimera_mongo_init inet_pton os process st g) = Inr p"
    and "\<not> is_loopback_address inet_pton (bind_address st)"
  shows "insecure_bind st
    \<and> (\<forall>sql s. is_raise 13 (fst (run_sql_gateway ((plugin_gateway p)\<lparr>write_flag := now_on, execute := anything\<rparr>) sql s))
        \<and> snd (run_sql_gateway ((plugin_gateway p)\<lparr>write_flag := now_on, execute := anything\<rparr>) sql s) = s)
    \<and> dispatch_command (ses\<lparr>ses_gateway := (plugin_gateway p)\<lparr>write_flag := now_on, execute := anything\<rparr>\<rparr>) req n
      = dispatch_command (ses\<lparr>ses_gateway := plugin_gateway p\<rparr>) req n"
proof -
  from assms have "network_exposed (plugin_gateway p)" "insecure_bind st"
    by (auto simp: chimera_mongo_init_def Let_def split: if_splits sum.splits)
  then show ?thesis using dispatch_ignores_gateway by (simp add: run_sql_gateway_def error_simps)
qed

definition open_settings :: settings where
  "open_settings = \<lparr>bind_value = Some ''0.0.0.0'', insecure_bind = True, port_value = 27018, oplog_max_rows = 100000,
     oplog_max_age = 86400, sql_writes = True\<rparr>"

text \<open>An \<open>inet_pton\<close> that knows two addresses.\<close>

definition two_addresses :: "string \<Rightarrow> 32 word option" where
  "two_addresses a = (if a = ''0.0.0.0'' then Some 0 else if a = ''127.0.0.1'' then Some 0x7F000001 else None)"

definition sql_request :: request where
  "sql_request = gateway_request [(''chimeraSql'', BUtf8 ''SELECT 1'')] ''test''"

definition open_gateway :: sql_gateway where
  "open_gateway = \<lparr>network_exposed = True, write_flag = Some True, execute = (\<lambda>_ _ s. (Inl (1064, ''syntax''), s))\<rparr>"

theorem exposed_plugin_runs_no_sql_witness:
  "insecure_bind open_settings
    \<and> is_raise 13 (fst (run_sql_gateway (open_gateway\<lparr>write_flag := Some True,
        execute := (\<lambda>_ _ s. (Inl (1146, ''no table''), s\<lparr>catalog := []\<rparr>))\<rparr>) ''SELECT 1'' demo_server))
    \<and> dispatch_command (demo_session\<lparr>ses_gateway := open_gateway\<lparr>write_flag := Some True,
        execute := (\<lambda>_ _ s. (Inl (1146, ''no table''), s\<lparr>catalog := []\<rparr>))\<rparr>\<rparr>) sql_request demo_node
      = dispatch_command (demo_session\<lparr>ses_gateway := open_gateway\<rparr>) sql_request demo_node"
proof -
  let ?p = "\<lparr>plugin_identity = listener_identity ''0.0.0.0'' 27018 ''p'', plugin_gateway = open_gateway,
    prune_limits = (100000, 86400)\<rparr>"
  have "fst (chimera_mongo_init two_addresses (\<lambda>_. None) ''p'' open_settings
      (open_gateway\<lparr>write_flag := None, network_exposed := False\<rparr>)) = Inr ?p"
    "\<not> is_loopback_address two_addresses (bind_address open_settings)"
    by (simp_all add: chimera_mongo_init_def open_settings_def bind_address_def two_addresses_def is_loopback_address_def
        start_listener_def open_gateway_def Let_def nul_def c_str_def)
  from exposed_plugin_runs_no_sql [OF this, where ses = demo_session] show ?thesis by simp
qed

section \<open>As it is installed\<close>

text \<open>The defaults of the system variables, and the range the server keeps the port in.\<close>

definition default_settings :: settings where
  "default_settings = \<lparr>bind_value = Some ''127.0.0.1'', insecure_bind = False, port_value = 27018,
     oplog_max_rows = 100000, oplog_max_age = 86400, sql_writes = False\<rparr>"

definition port_declared :: "nat \<Rightarrow> bool" where
  "port_declared port \<longleftrightarrow> 1 \<le> port \<and> port \<le> 65535"

lemma declared_port_is_kept: "port_declared port \<Longrightarrow> port mod 2 ^ 16 = port"
  by (simp add: port_declared_def)

text \<open>Nobody but this host reaches a plugin that was not configured, and its SQL only reads.\<close>

lemma default_plugin_is_private:
  assumes "inet_pton ''127.0.0.1'' = Some 0x7F000001"
    and "fst (chimera_mongo_init inet_pton os process default_settings g) = Inr p"
  shows "\<not> network_exposed (plugin_gateway p)" and "\<not> writes_allowed (plugin_gateway p)"
    and "host (plugin_identity p) = ''127.0.0.1:'' @ nat_text 27018"
proof -
  have "bind_address default_settings = ''127.0.0.1''"
    by (simp add: bind_address_def default_settings_def c_str_def nul_def)
  moreover have "is_loopback_address inet_pton ''127.0.0.1''"
    using assms(1) by (simp add: is_loopback_address_def nul_def c_str_def)
  ultimately show "\<not> network_exposed (plugin_gateway p)" "\<not> writes_allowed (plugin_gateway p)"
    "host (plugin_identity p) = ''127.0.0.1:'' @ nat_text 27018"
    using assms(2) by (auto simp: chimera_mongo_init_def Let_def writes_allowed_def listener_identity_def default_settings_def
      split: sum.splits)
qed

end
