(* ===== verification/SqlProjection.thy ===== *)
theory SqlProjection
  imports Statements Mongosh
begin

text \<open>
  Projections (src/chimera/plugin/chimera_mongo/projection.cc): the procedure
  \<open>chimera_add_projection\<close>, which makes a field of the documents of a collection a column of its
  table. First the statements the procedure writes, as text; then what its triggers do to a row.
\<close>

section \<open>The arguments\<close>

text \<open>\<open>REGEXP '^[..]+$'\<close>: the dollar also matches before a newline that ends the text.\<close>

definition dollar :: "string \<Rightarrow> string" where
  "dollar s = (if s \<noteq> [] \<and> last s = CHR 0x0A then butlast s else s)"

definition alnum_or :: "string \<Rightarrow> char \<Rightarrow> bool" where
  "alnum_or others c \<longleftrightarrow> isalpha c \<or> isdigit c \<or> c \<in> set others"

definition spelled :: "string \<Rightarrow> string \<Rightarrow> bool" where
  "spelled others s \<longleftrightarrow> s \<noteq> [] \<and> list_all (alnum_or others) s"

definition before_first_dot :: "string \<Rightarrow> string" where
  "before_first_dot s = takeWhile (\<lambda>c. c \<noteq> CHR ''.'') s"

definition after_first_dot :: "string \<Rightarrow> string" where
  "after_first_dot s = drop (length (before_first_dot s) + 1) s"

definition namespace_spelled :: "string \<Rightarrow> bool" where
  "namespace_spelled s \<longleftrightarrow> spelled ''_$-'' (before_first_dot s) \<and> spelled ''_$.-'' (dollar (after_first_dot s))"

datatype direction = Forward | Bidirectional

record projection_spec =
  p_db :: string
  p_coll :: string
  p_field :: string
  p_column :: string
  p_type :: string
  p_mode :: direction

text \<open>
  What the procedure signals, or the server when a text is longer than the parameter or the variable it
  is given to (\<open>v_db\<close> and \<open>v_coll\<close> hold 64 characters).
\<close>

datatype refusal = Unsupported_identifier | Unknown_mode | Data_too_long

text \<open>Characters, not bytes: a byte that continues one in UTF-8 does not count.\<close>

definition characters :: "string \<Rightarrow> nat" where
  "characters s = length (filter (\<lambda>c. let n = of_char c :: nat in n < 128 \<or> 192 \<le> n) s)"

text \<open>\<open>collates\<close> is the comparison of the server's collation, by which the mode is compared.\<close>

definition read_arguments ::
  "(string \<Rightarrow> string \<Rightarrow> bool) \<Rightarrow> string \<Rightarrow> string \<Rightarrow> string \<Rightarrow> string \<Rightarrow> string \<Rightarrow> refusal + projection_spec" where
  "read_arguments collates ns field column type mode =
     (if 129 < characters ns \<or> 64 < characters field \<or> 64 < characters column \<or> 64 < characters type
        \<or> 16 < characters mode
      then Inl Data_too_long
      else if \<not> namespace_spelled ns \<or> \<not> spelled ''_$-'' (dollar field) \<or> \<not> spelled ''_$'' (dollar column)
        \<or> \<not> spelled ''_ ,()'' (dollar type)
      then Inl Unsupported_identifier
      else if \<not> collates mode ''forward'' \<and> \<not> collates mode ''bidirectional'' then Inl Unknown_mode
      else if 64 < characters (before_first_dot ns) \<or> 64 < characters (after_first_dot ns) then Inl Data_too_long
      else Inr \<lparr>p_db = before_first_dot ns, p_coll = after_first_dot ns, p_field = field, p_column = column,
        p_type = type, p_mode = (if collates mode ''forward'' then Forward else Bidirectional)\<rparr>)"

section \<open>The statements\<close>

definition tick_quote :: "string \<Rightarrow> string" where
  "tick_quote s = ''`'' @ s @ ''`''"

text \<open>\<open>QUOTE\<close> and \<open>REPLACE\<close> of MariaDB.\<close>

definition quote_char_of :: "char \<Rightarrow> string" where
  "quote_char_of c = (if c = CHR 0x27 then [CHR 0x5C, CHR 0x27] else if c = CHR 0x5C then [CHR 0x5C, CHR 0x5C]
     else if c = nul then [CHR 0x5C, CHR ''0''] else if c = CHR 0x1A then [CHR 0x5C, CHR ''Z''] else [c])"

definition quote_text :: "string \<Rightarrow> string" where
  "quote_text s = sq @ concat (map quote_char_of s) @ sq"

function replace_all :: "string \<Rightarrow> string \<Rightarrow> string \<Rightarrow> string" where
  "replace_all s from to =
     (if s = [] \<or> from = [] then s
      else if starts_with s from then to @ replace_all (drop (length from) s) from to
      else hd s # replace_all (tl s) from to)"
  by pat_completeness auto
termination
  by (relation "measure (\<lambda>(s, from, to). length s)") auto

declare replace_all.simps [simp del]

definition doc_token :: string where "doc_token = ''~DOC~''"
definition col_token :: string where "col_token = ''~COL~''"

definition v_path :: "string \<Rightarrow> string" where
  "v_path field = ''$.'' @ [quote_char] @ field @ [quote_char]"

definition v_read :: "string \<Rightarrow> string" where
  "v_read field =
     (let value = (\<lambda>suffix. ''JSON_VALUE('' @ doc_token @ '','' @ quote_text (v_path field @ suffix) @ '')'') in
      ''COALESCE('' @ value [] @ '','' @ value (quoted_member ''$numberInt'') @ '','' @ value (quoted_member ''$numberLong'')
      @ '','' @ value (quoted_member ''$numberDouble'') @ '',''
      @ value (quoted_member ''$date'' @ quoted_member ''$numberLong'') @ '','' @ value (quoted_member ''$oid'') @ '')'')"

text \<open>How a value of a column of this type is written into the document.\<close>

datatype wrapper = Wrapped string | Bare

definition starts_with_any :: "string list \<Rightarrow> string \<Rightarrow> bool" where
  "starts_with_any names s \<longleftrightarrow> list_ex (starts_with (map toupper s)) names"

definition wrapper_of :: "string \<Rightarrow> wrapper" where
  "wrapper_of type =
     (if starts_with_any [''INT'', ''TINYINT'', ''SMALLINT'', ''MEDIUMINT''] type then Wrapped ''$numberInt''
      else if starts_with_any [''BIGINT''] type then Wrapped ''$numberLong''
      else if starts_with_any [''DOUBLE'', ''FLOAT'', ''DECIMAL'', ''NUMERIC''] type then Wrapped ''$numberDouble''
      else Bare)"

definition v_patch :: "string \<Rightarrow> wrapper \<Rightarrow> string" where
  "v_patch field w = (let q = [quote_char] in case w of
       Wrapped name \<Rightarrow> ''CONCAT('' @ sq @ ''{'' @ q @ field @ q @ '':{'' @ q @ name @ q @ '':'' @ q @ sq @ '', ''
         @ col_token @ '', '' @ sq @ q @ ''}}'' @ sq @ '')''
     | Bare \<Rightarrow> ''JSON_OBJECT('' @ quote_text field @ '', '' @ col_token @ '')'')"

definition v_stem :: "(string \<Rightarrow> string) \<Rightarrow> projection_spec \<Rightarrow> string" where
  "v_stem md5 p = take 20 (p_column p) @ ''_'' @ take 8 (md5 (p_db p @ ''.'' @ p_coll p))"

definition trigger_names :: "(string \<Rightarrow> string) \<Rightarrow> projection_spec \<Rightarrow> string \<times> string" where
  "trigger_names md5 p = (''proj_bi_'' @ v_stem md5 p, ''proj_bu_'' @ v_stem md5 p)"

definition definer :: string where
  "definer = sq @ ''chimera'' @ sq @ ''@'' @ sq @ ''localhost'' @ sq"

definition create_trigger :: "projection_spec \<Rightarrow> string \<Rightarrow> string \<Rightarrow> string \<Rightarrow> string" where
  "create_trigger p name event body =
     ''CREATE OR REPLACE DEFINER='' @ definer @ '' TRIGGER '' @ tick_quote (p_db p) @ ''.'' @ tick_quote name
     @ '' BEFORE '' @ event @ '' ON '' @ tick_quote (p_db p) @ ''.'' @ tick_quote (p_coll p) @ '' FOR EACH ROW BEGIN''
     @ body @ '' END IF; END''"

text \<open>The statements the procedure prepares and executes, in order.\<close>

definition projection_ddl :: "(string \<Rightarrow> string) \<Rightarrow> projection_spec \<Rightarrow> string list" where
  "projection_ddl md5 p =
     (let tbl = tick_quote (p_db p) @ ''.'' @ tick_quote (p_coll p); col = tick_quote (p_column p);
          read = v_read (p_field p); patch = v_patch (p_field p) (wrapper_of (p_type p));
          merge = '' SET NEW.doc = JSON_MERGE_PATCH(JSON_REMOVE(NEW.doc, '' @ quote_text (v_path (p_field p)) @ ''), ''
            @ replace_all patch col_token (''NEW.'' @ col) @ '');'';
          follow = '' ELSE SET NEW.'' @ col @ '' = '' @ replace_all read doc_token ''NEW.doc'' @ '';'';
          (bi, bu) = trigger_names md5 p
      in case p_mode p of
           Forward \<Rightarrow> [''ALTER TABLE '' @ tbl @ '' ADD COLUMN '' @ col @ '' '' @ p_type p @ '' AS (''
             @ replace_all read doc_token ''doc'' @ '') VIRTUAL'']
         | Bidirectional \<Rightarrow>
             [''ALTER TABLE '' @ tbl @ '' ADD COLUMN '' @ col @ '' '' @ p_type p @ '' NULL'',
              ''GRANT UPDATE (doc, '' @ p_column p @ '') ON '' @ tbl @ '' TO '' @ definer,
              ''UPDATE '' @ tbl @ '' SET '' @ col @ '' = '' @ replace_all read doc_token ''doc'',
              create_trigger p bi ''INSERT'' ('' IF NEW.'' @ col @ '' IS NOT NULL THEN'' @ merge @ follow),
              create_trigger p bu ''UPDATE'' ('' IF NOT (NEW.'' @ col @ '' <=> OLD.'' @ col @ '') THEN'' @ merge @ follow)])"

text \<open>
  The procedure: the row of \<open>chimera_meta.projections\<close>, and the statements. The catalog is a map from
  the table and the column to the field and the mode.
\<close>

definition chimera_add_projection ::
  "(string \<Rightarrow> string) \<Rightarrow> (string \<Rightarrow> string \<Rightarrow> bool) \<Rightarrow> string \<Rightarrow> string \<Rightarrow> string \<Rightarrow> string \<Rightarrow> string
    \<Rightarrow> (string \<times> string \<times> string \<Rightarrow> (string \<times> direction) option)
    \<Rightarrow> refusal + (string \<times> string \<times> string \<Rightarrow> (string \<times> direction) option) \<times> string list" where
  "chimera_add_projection md5 collates ns field column type mode projections =
     (case read_arguments collates ns field column type mode of
        Inl e \<Rightarrow> Inl e
      | Inr p \<Rightarrow> Inr (projections((p_db p, p_coll p, p_column p) \<mapsto> (p_field p, p_mode p)), projection_ddl md5 p))"

section \<open>The triggers on a row\<close>

text \<open>
  The stored text as a JSON value, and what the triggers use of MariaDB's functions on it:
  \<open>JSON_VALUE\<close> along a path of members, \<open>JSON_REMOVE\<close> of a member, \<open>JSON_MERGE_PATCH\<close> (RFC 7396).
  The text \<open>JSON_VALUE\<close> gives for a literal that is no string is a parameter, and so is what the
  column makes of a text it is assigned.
\<close>

datatype json =
    JLiteral string
  | JString string
  | JArray "json list"
  | JObject "(string \<times> json) list"

fun json_at :: "json \<Rightarrow> string list \<Rightarrow> json option" where
  "json_at j [] = Some j"
| "json_at (JObject members) (k # ks) = (case map_of members k of None \<Rightarrow> None | Some v \<Rightarrow> json_at v ks)"
| "json_at _ (_ # _) = None"

definition json_value :: "(string \<Rightarrow> string option) \<Rightarrow> json \<Rightarrow> string list \<Rightarrow> string option" where
  "json_value literal j ks = (case json_at j ks of
       Some (JString s) \<Rightarrow> Some s | Some (JLiteral t) \<Rightarrow> literal t | _ \<Rightarrow> None)"

definition json_remove :: "string \<Rightarrow> json \<Rightarrow> json" where
  "json_remove k j = (case j of JObject members \<Rightarrow> JObject (filter (\<lambda>(n, _). n \<noteq> k) members) | _ \<Rightarrow> j)"

definition put_member :: "string \<Rightarrow> json \<Rightarrow> (string \<times> json) list \<Rightarrow> (string \<times> json) list" where
  "put_member k v members = (if k \<in> fst ` set members then map (\<lambda>(n, w). (n, if n = k then v else w)) members
     else members @ [(k, v)])"

lemma member_size: "(k, v) \<in> set members \<Longrightarrow> size v < Suc (size_list (size_prod (\<lambda>_. 0) size) members)"
  by (induction members) auto

function merge_patch :: "json \<Rightarrow> json \<Rightarrow> json" where
  "merge_patch target (JObject patch) =
     JObject (fold (\<lambda>(k, v) members. if v = JLiteral ''null'' then filter (\<lambda>(n, _). n \<noteq> k) members
         else put_member k (merge_patch (case map_of members k of None \<Rightarrow> JLiteral ''null'' | Some w \<Rightarrow> w) v) members)
       patch (case target of JObject members \<Rightarrow> members | _ \<Rightarrow> []))"
| "merge_patch target (JLiteral t) = JLiteral t"
| "merge_patch target (JString s) = JString s"
| "merge_patch target (JArray vs) = JArray vs"
  by pat_completeness auto
termination
  by (relation "measure (\<lambda>(target, patch). size patch)") (auto dest: member_size)

text \<open>What a row is checked against when a trigger has run: \<open>doc\<close> is \<open>NOT NULL\<close>, the column has a type.\<close>

datatype row_error = Doc_is_null | Incorrect_value

record column_env =
  literal_text :: "string \<Rightarrow> string option"
  json_of :: "string \<Rightarrow> json"
  assign :: "string \<Rightarrow> string option"
  same_value :: "string option \<Rightarrow> string option \<Rightarrow> bool"

definition read_paths :: "string \<Rightarrow> string list list" where
  "read_paths f = [[f], [f, ''$numberInt''], [f, ''$numberLong''], [f, ''$numberDouble''],
     [f, ''$date'', ''$numberLong''], [f, ''$oid'']]"

text \<open>\<open>COALESCE(JSON_VALUE(..), ..)\<close>\<close>

definition json_read :: "column_env \<Rightarrow> string \<Rightarrow> json \<Rightarrow> string option" where
  "json_read env f doc = (case dropWhile (\<lambda>x. x = None) (map (json_value (literal_text env) doc) (read_paths f)) of
       [] \<Rightarrow> None | x # _ \<Rightarrow> x)"

text \<open>\<open>CONCAT\<close> of a NULL is NULL, and so is a merge with it; \<open>JSON_OBJECT\<close> writes a null.\<close>

definition patch_of :: "column_env \<Rightarrow> string \<Rightarrow> wrapper \<Rightarrow> string option \<Rightarrow> json option" where
  "patch_of env f w col = (case (w, col) of
       (Wrapped name, None) \<Rightarrow> None
     | (Wrapped name, Some t) \<Rightarrow> Some (JObject [(f, JObject [(name, JString t)])])
     | (Bare, None) \<Rightarrow> Some (JObject [(f, JLiteral ''null'')])
     | (Bare, Some t) \<Rightarrow> Some (JObject [(f, json_of env t)]))"

definition write_through ::
  "column_env \<Rightarrow> string \<Rightarrow> wrapper \<Rightarrow> json \<Rightarrow> string option \<Rightarrow> row_error + json \<times> string option" where
  "write_through env f w doc col = (case patch_of env f w col of
       None \<Rightarrow> Inl Doc_is_null
     | Some patch \<Rightarrow> Inr (merge_patch (json_remove f doc) patch, col))"

definition follow_doc :: "column_env \<Rightarrow> string \<Rightarrow> json \<Rightarrow> row_error + json \<times> string option" where
  "follow_doc env f doc = (case json_read env f doc of
       None \<Rightarrow> Inr (doc, None)
     | Some t \<Rightarrow> (case assign env t of None \<Rightarrow> Inl Incorrect_value | Some u \<Rightarrow> Inr (doc, Some u)))"


text \<open>\<open><=>\<close> compares as the column does: by its collation, for a text.\<close>

definition before_update ::
  "column_env \<Rightarrow> string \<Rightarrow> wrapper \<Rightarrow> string option \<Rightarrow> json \<Rightarrow> string option \<Rightarrow> row_error + json \<times> string option" where
  "before_update env f w old doc col =
     (if \<not> same_value env col old then write_through env f w doc col else follow_doc env f doc)"

section \<open>What the triggers keep\<close>

text \<open>The types whose values are written in a form the reading expression knows.\<close>

definition readable :: "column_env \<Rightarrow> wrapper \<Rightarrow> bool" where
  "readable env w \<longleftrightarrow> (case w of
       Wrapped name \<Rightarrow> name \<in> {''$numberInt'', ''$numberLong'', ''$numberDouble''}
     | Bare \<Rightarrow> \<forall>t. json_of env t = JString t)"

lemma wrapper_of_readable: "wrapper_of type = Wrapped name \<Longrightarrow> readable env (wrapper_of type)"
  by (auto simp: wrapper_of_def readable_def split: if_splits)

lemma merged_member:
  assumes "v \<noteq> JLiteral ''null''"
  shows "merge_patch (json_remove f (JObject members)) (JObject [(f, v)])
    = JObject (filter (\<lambda>(n, _). n \<noteq> f) members @ [(f, merge_patch (JLiteral ''null'') v)])"
proof -
  have "map_of (filter (\<lambda>(n, _). n \<noteq> f) members) f = None" "f \<notin> fst ` set (filter (\<lambda>(n, _). n \<noteq> f) members)"
    by (auto simp: map_of_eq_None_iff)
  then show ?thesis using assms by (auto simp: json_remove_def put_member_def)
qed

lemma member_put: "json_at (JObject (filter (\<lambda>(n, _). n \<noteq> f) members @ [(f, v)])) (f # ks) = json_at v ks"
proof -
  have "map_of (filter (\<lambda>(n, _). n \<noteq> f) members) f = None" by (auto simp: map_of_eq_None_iff)
  then show ?thesis by (simp add: map_add_def)
qed

lemma member_kept:
  assumes "g \<noteq> f"
  shows "json_at (JObject (filter (\<lambda>(n, _). n \<noteq> f) members @ [(f, v)])) (g # ks) = json_at (JObject members) (g # ks)"
proof -
  have "map_of (filter (\<lambda>(n, _). n \<noteq> f) members) g = map_of members g"
    using assms by (induction members) auto
  then show ?thesis using assms by (simp add: map_add_def split: option.split)
qed

text \<open>What the triggers write is what the expression reads.\<close>

lemma read_written:
  assumes "v = JString t \<or> (\<exists>name \<in> {''$numberInt'', ''$numberLong'', ''$numberDouble''}. v = JObject [(name, JString t)])"
  shows "json_read env f (JObject (filter (\<lambda>(n, _). n \<noteq> f) members @ [(f, v)])) = Some t"
proof -
  let ?doc = "JObject (filter (\<lambda>(n, _). n \<noteq> f) members @ [(f, v)])"
  have at: "json_value L ?doc (f # ks) = json_value L v ks" for L ks
    unfolding json_value_def member_put ..
  have "json_read env f ?doc = (case dropWhile (\<lambda>x. x = None) (map (\<lambda>p. json_value (literal_text env) v (tl p)) (read_paths f)) of
      [] \<Rightarrow> None | x # _ \<Rightarrow> x)"
    unfolding json_read_def read_paths_def list.map at list.sel ..
  also have "\<dots> = Some t"
    using assms by (elim disjE bexE insertE emptyE) (simp_all add: read_paths_def json_value_def)
  finally show ?thesis .
qed

text \<open>
  A write through a column. Where an \<open>UPDATE\<close> gives a bidirectional column another value, the
  document that is stored reads as that value, keeps the value, and is in every other member the
  document of the statement: whatever the statement itself put into the document at that field is
  replaced.
\<close>

theorem column_writes_through:
  assumes "readable env w" and "\<not> same_value env (Some t) old"
  shows "\<exists>doc. before_update env f w old (JObject members) (Some t) = Inr (doc, Some t)
    \<and> json_read env f doc = Some t \<and> (\<forall>g ks. g \<noteq> f \<longrightarrow> json_at doc (g # ks) = json_at (JObject members) (g # ks))"
proof -
  obtain v where patch: "patch_of env f w (Some t) = Some (JObject [(f, v)])" "v \<noteq> JLiteral ''null''"
    and v: "v = JString t \<or> (\<exists>name \<in> {''$numberInt'', ''$numberLong'', ''$numberDouble''}. v = JObject [(name, JString t)])"
    using assms(1) by (cases w) (auto simp: patch_of_def readable_def)
  have same: "merge_patch (JLiteral ''null'') v = v" using v by (auto simp: put_member_def)
  let ?doc = "JObject (filter (\<lambda>(n, _). n \<noteq> f) members @ [(f, v)])"
  have "before_update env f w old (JObject members) (Some t) = Inr (?doc, Some t)"
    using assms(2) patch merged_member [OF patch(2), of f members] same
    by (simp add: before_update_def write_through_def)
  moreover have "json_read env f ?doc = Some t"
    using v by (rule read_written)
  ultimately show ?thesis using member_kept by blast
qed



lemma removed_member:
  "merge_patch (json_remove f (JObject members)) (JObject [(f, JLiteral ''null'')]) = JObject (filter (\<lambda>(n, _). n \<noteq> f) members)"
  by (simp add: json_remove_def)




text \<open>Where the triggers fail their users.\<close>

lemma null_in_typed_column_fails:
  "\<not> same_value env None old \<Longrightarrow> before_update env f (Wrapped name) old doc None = Inl Doc_is_null"
  by (simp add: before_update_def write_through_def patch_of_def)

lemma collated_change_is_lost:
  assumes "same_value env (Some t) old" and "json_read env f doc = Some u" and "assign env u = Some u"
  shows "before_update env f w old doc (Some t) = Inr (doc, Some u)"
  using assms by (simp add: before_update_def follow_doc_def)

lemma stems_collide:
  assumes "p_db p = p_db p'" and "p_coll p = p_coll p'" and "take 20 (p_column p) = take 20 (p_column p')"
  shows "trigger_names md5 p = trigger_names md5 p'"
  using assms by (simp add: trigger_names_def v_stem_def)

section \<open>What the column reads\<close>

definition plain_char :: "char \<Rightarrow> bool" where
  "plain_char c \<longleftrightarrow> c \<notin> {CHR 0x27, CHR 0x5C, nul, CHR 0x1A, quote_char, CHR ''~'', CHR ''`''}"

lemma alnum_plain: "alnum_or others c \<Longrightarrow> list_all plain_char others \<Longrightarrow> plain_char c"
proof (rule ccontr)
  assume a: "alnum_or others c" "list_all plain_char others" and n: "\<not> plain_char c"
  then have "\<not> isalpha c" "\<not> isdigit c"
    by (auto simp: plain_char_def isalpha_def isdigit_def Let_def nul_def quote_char_def)
  with a n show False by (auto simp: alnum_or_def list_all_iff)
qed

lemma spelled_plain: "spelled others (dollar s) \<Longrightarrow> list_all plain_char others \<Longrightarrow> list_all plain_char s"
proof (cases "s \<noteq> [] \<and> last s = CHR 0x0A")
  case True
  assume "spelled others (dollar s)" "list_all plain_char others"
  with True have "list_all plain_char (butlast s)"
    by (auto simp: spelled_def dollar_def list_all_iff dest: alnum_plain [unfolded list_all_iff])
  moreover have "plain_char (CHR 0x0A)" by code_simp
  ultimately have all: "list_all plain_char (butlast s @ [CHR 0x0A])" by simp
  have "s = butlast s @ [CHR 0x0A]" using True append_butlast_last_id [of s] by simp
  then show ?thesis using all by (rule ssubst [of s])
next
  case False
  assume "spelled others (dollar s)" "list_all plain_char others"
  with False show ?thesis
    by (auto simp: spelled_def dollar_def list_all_iff dest: alnum_plain [unfolded list_all_iff] split: if_splits)
qed

lemma quote_plain: "list_all plain_char s \<Longrightarrow> concat (map quote_char_of s) = s \<and> concat (map escape_char s) = s"
  by (induction s) (auto simp: quote_char_of_def escape_char_def plain_char_def nul_def backslash_def)

lemma replace_skip: "CHR ''~'' \<notin> set s \<Longrightarrow> replace_all (s @ rest) doc_token to = s @ replace_all rest doc_token to"
proof (induction s)
  case (Cons c s)
  have "c \<noteq> CHR ''~''" using Cons.prems by auto
  then have "\<not> starts_with (c # s @ rest) doc_token" by (simp add: doc_token_def)
  then have "replace_all (c # s @ rest) doc_token to = c # replace_all (s @ rest) doc_token to"
    by (subst replace_all.simps) (simp add: doc_token_def del: starts_with.simps)
  with Cons show ?case by simp
qed simp

lemma replace_token: "replace_all (doc_token @ rest) doc_token to = to @ replace_all rest doc_token to"
proof -
  have "starts_with (doc_token @ rest) doc_token" by (cases rest) (simp_all add: doc_token_def)
  then show ?thesis by (subst replace_all.simps) (simp add: doc_token_def)
qed

lemma replace_end: "CHR ''~'' \<notin> set s \<Longrightarrow> replace_all s doc_token to = s"
  using replace_skip [of s "[]" to] by (simp add: replace_all.simps [of "[]"])

text \<open>
  C14. A projected column computes what a filter compares: for every field the procedure accepts, the
  expression it puts into the table is, character for character, the one the filter compiler writes
  for that field, so an index on the column serves the filter and both find the same values.
\<close>

theorem projection_reads_what_filters_compare:
  assumes "read_arguments collates ns field column type mode = Inr p"
  shows "replace_all (v_read (p_field p)) doc_token doc = scalar_expr [p_field p] doc"
proof -
  have f: "p_field p = field" "spelled ''_$-'' (dollar field)"
    using assms by (auto simp: read_arguments_def split: if_splits)
  have "list_all plain_char field" by (rule spelled_plain [OF f(2)]) code_simp
  note plain = this quote_plain [OF this]
  have quoted: "quote_text (v_path field @ w) = sq @ to_json_path [field] @ w @ sq" "CHR ''~'' \<notin> set (quote_text (v_path field @ w))"
    if "w \<in> set kWrappers" for w
  proof -
    have w: "concat (map quote_char_of w) = w" "CHR ''~'' \<notin> set w"
      using that by (auto simp: kWrappers_def quoted_member_def quote_char_of_def quote_char_def nul_def)
    then show spell: "quote_text (v_path field @ w) = sq @ to_json_path [field] @ w @ sq"
      using plain(2) by (simp add: quote_text_def v_path_def to_json_path_def json_member_def quote_char_of_def quote_char_def nul_def)
    have "CHR ''~'' \<notin> set field" using plain(1) by (auto simp: list_all_iff plain_char_def)
    then show "CHR ''~'' \<notin> set (quote_text (v_path field @ w))"
      unfolding spell using w(2) plain(2) by (simp add: sq_def to_json_path_def json_member_def quote_char_def)
  qed
  have part: "replace_all (''JSON_VALUE('' @ doc_token @ '','' @ quote_text (v_path field @ w) @ '')'' @ rest) doc_token doc
      = ''JSON_VALUE('' @ doc @ '','' @ sq @ to_json_path [field] @ w @ sq @ '')'' @ replace_all rest doc_token doc"
    if "w \<in> set kWrappers" for w rest
    using quoted [OF that] replace_skip [of "''JSON_VALUE(''" "doc_token @ '','' @ quote_text (v_path field @ w) @ '')'' @ rest" doc]
      replace_token [of "'','' @ quote_text (v_path field @ w) @ '')'' @ rest" doc]
      replace_skip [of "'','' @ quote_text (v_path field @ w) @ '')''" rest doc] by simp
  have w: "[] \<in> set kWrappers" "quoted_member ''$numberInt'' \<in> set kWrappers" "quoted_member ''$numberLong'' \<in> set kWrappers"
    "quoted_member ''$numberDouble'' \<in> set kWrappers" "quoted_member ''$date'' @ quoted_member ''$numberLong'' \<in> set kWrappers"
    "quoted_member ''$oid'' \<in> set kWrappers" by (simp_all add: kWrappers_def)
  have skip: "replace_all (''COALESCE('' @ rest) doc_token doc = ''COALESCE('' @ replace_all rest doc_token doc"
    "replace_all ('','' @ rest) doc_token doc = '','' @ replace_all rest doc_token doc" for rest
    by (rule replace_skip, simp)+
  have finish: "replace_all '')'' doc_token doc = '')''" by (rule replace_end) simp
  note parts = w [THEN part]
  show ?thesis
    unfolding f(1) v_read_def Let_def scalar_expr_def kWrappers_def list.map join.simps append_assoc skip parts finish
    by (simp only: append_Nil append_Nil2)
qed

definition plain_column :: column_env where
  "plain_column = \<lparr>literal_text = (\<lambda>_. None), json_of = JString, assign = Some, same_value = (=)\<rparr>"

definition stock_item :: "(string \<times> json) list" where
  "stock_item = [(''_id'', JString ''k''), (''qty'', JObject [(''$numberInt'', JString ''9'')])]"

theorem column_writes_through_witness:
  "\<exists>doc. before_update plain_column ''qty'' (Wrapped ''$numberInt'') (Some ''4'') (JObject stock_item) (Some ''5'') = Inr (doc, Some ''5'')
    \<and> json_read plain_column ''qty'' doc = Some ''5''
    \<and> (\<forall>g ks. g \<noteq> ''qty'' \<longrightarrow> json_at doc (g # ks) = json_at (JObject stock_item) (g # ks))"
  by (rule column_writes_through) (simp_all add: readable_def plain_column_def)


theorem projection_reads_what_filters_compare_witness:
  "replace_all (v_read ''qty'') doc_token ''doc'' = scalar_expr [''qty''] ''doc''"
proof -
  have "read_arguments (=) ''shop.items'' ''qty'' ''qty_col'' ''INT'' ''bidirectional''
    = Inr \<lparr>p_db = ''shop'', p_coll = ''items'', p_field = ''qty'', p_column = ''qty_col'', p_type = ''INT'',
        p_mode = Bidirectional\<rparr>" by code_simp
  from projection_reads_what_filters_compare [OF this, of "''doc''"] show ?thesis by simp
qed

text \<open>Two columns whose names agree in their first twenty characters share their triggers.\<close>

lemma second_column_takes_the_triggers:
  "trigger_names md5 \<lparr>p_db = ''shop'', p_coll = ''users'', p_field = ''line1'', p_column = ''shipping_address_line_1'',
      p_type = ''VARCHAR(99)'', p_mode = Bidirectional\<rparr>
    = trigger_names md5 \<lparr>p_db = ''shop'', p_coll = ''users'', p_field = ''line2'', p_column = ''shipping_address_line_2'',
      p_type = ''VARCHAR(99)'', p_mode = Bidirectional\<rparr>"
  by (rule stems_collide) simp_all

lemma documented_path_is_refused:
  "read_arguments collates ''appdb.users'' ''$.name'' ''name'' ''VARCHAR(190)'' ''bidirectional'' = Inl Unsupported_identifier"
proof -
  have "\<not> spelled ''_$-'' (dollar ''$.name'')" by code_simp
  moreover have "characters ''appdb.users'' = 11" "characters ''$.name'' = 6" "characters ''name'' = 4"
    "characters ''VARCHAR(190)'' = 12" "characters ''bidirectional'' = 13" by code_simp+
  ultimately show ?thesis by (simp add: read_arguments_def)
qed

end
