(* ===== verification/Session.thy ===== *)
theory Session
  imports SqlGateway
begin

text \<open>
  \<open>SqlSession\<close> (sql.cc): the connection a Mongo client's commands go through, opened when the first of
  them needs it (\<open>ConnectionState::sql\<close> in commands.cc), and the transaction around a write
  (\<open>run_atomically\<close> there) as the statements it consists of. The client library of MariaDB is an
  argument: what each of its functions answers, and what becomes of the connection.
\<close>

section \<open>The session\<close>

text \<open>\<open>mysql_store_result\<close>: a result set, none, or an error met while it was fetched.\<close>

datatype stored = Stored server_answer | No_result | Fetch_failed nat string

record 'c mysql_lib =
  mysql_init :: "'c option"
  connect_local :: "'c \<Rightarrow> 'c option"
  set_utf8mb4 :: "'c \<Rightarrow> 'c"
  real_query :: "string \<Rightarrow> 'c \<Rightarrow> (nat \<times> string) option \<times> 'c"
  store_result :: "'c \<Rightarrow> stored \<times> 'c"
  in_transaction_bit :: "'c \<Rightarrow> bool"

definition open_session :: "'c mysql_lib \<Rightarrow> 'c outcome" where
  "open_session lib = (case mysql_init lib of
       None \<Rightarrow> Inl (internal_error ''mysql_init failed'')
     | Some c \<Rightarrow> (case connect_local lib c of
         None \<Rightarrow> Inl (internal_error ''could not open a local connection to the server'')
       | Some c \<Rightarrow> Inr (set_utf8mb4 lib c)))"

definition exec :: "'c mysql_lib \<Rightarrow> string \<Rightarrow> 'c \<Rightarrow> unit outcome \<times> 'c" where
  "exec lib sql c = (case real_query lib sql c of
       (Some (code, message), c) \<Rightarrow> (Inl (raise_sql code message sql), c)
     | (None, c) \<Rightarrow> (Inr (), snd (store_result lib c)))"

definition query :: "'c mysql_lib \<Rightarrow> string \<Rightarrow> 'c \<Rightarrow> result_set outcome \<times> 'c" where
  "query lib sql c = (case real_query lib sql c of
       (Some (code, message), c) \<Rightarrow> (Inl (raise_sql code message sql), c)
     | (None, c) \<Rightarrow> (case store_result lib c of
         (Stored answer, c) \<Rightarrow> (Inr (read_answer answer), c)
       | (No_result, c) \<Rightarrow> (Inr \<lparr>columns = [], result_rows = []\<rparr>, c)
       | (Fetch_failed code message, c) \<Rightarrow> (Inl (raise_sql code message sql), c)))"

definition in_transaction :: "'c mysql_lib \<Rightarrow> 'c \<Rightarrow> bool" where
  "in_transaction lib c = in_transaction_bit lib c"

definition begin_transaction :: "'c mysql_lib \<Rightarrow> 'c \<Rightarrow> unit outcome \<times> 'c" where
  "begin_transaction lib = exec lib ''START TRANSACTION''"

definition commit_transaction :: "'c mysql_lib \<Rightarrow> 'c \<Rightarrow> unit outcome \<times> 'c" where
  "commit_transaction lib = exec lib ''COMMIT''"

definition rollback_transaction :: "'c mysql_lib \<Rightarrow> 'c \<Rightarrow> unit outcome \<times> 'c" where
  "rollback_transaction lib = exec lib ''ROLLBACK''"

text \<open>The session of a connection; a failure to open it is met again by the next command.\<close>

definition state_sql :: "'c mysql_lib \<Rightarrow> 'c option \<Rightarrow> 'c outcome \<times> 'c option" where
  "state_sql lib state = (case state of
       Some c \<Rightarrow> (Inr c, state)
     | None \<Rightarrow> (case open_session lib of Inl e \<Rightarrow> (Inl e, None) | Inr c \<Rightarrow> (Inr c, Some c)))"

section \<open>The transaction around a write\<close>

text \<open>An exception in the body, or from the reading of the clock, is thrown on once \<open>ROLLBACK\<close> has run.\<close>

definition atomically ::
  "'c mysql_lib \<Rightarrow> ('c \<Rightarrow> 'a outcome \<times> 'c) \<Rightarrow> ('c \<Rightarrow> optime outcome \<times> 'c) \<Rightarrow> 'c
    \<Rightarrow> ('a \<times> optime) outcome \<times> 'c" where
  "atomically lib body reading c = (case begin_transaction lib c of
       (Inl e, c) \<Rightarrow> (Inl e, c)
     | (Inr _, c) \<Rightarrow> (case (case body c of
             (Inl e, c) \<Rightarrow> (Inl e, c)
           | (Inr x, c) \<Rightarrow> (case reading c of (Inl e, c) \<Rightarrow> (Inl e, c) | (Inr t, c) \<Rightarrow> (Inr (x, t), c))) of
         (Inl e, c) \<Rightarrow> (case rollback_transaction lib c of (Inl e', c) \<Rightarrow> (Inl e', c) | (Inr _, c) \<Rightarrow> (Inl e, c))
       | (Inr r, c) \<Rightarrow> (case commit_transaction lib c of (Inl e, c) \<Rightarrow> (Inl e, c) | (Inr _, c) \<Rightarrow> (Inr r, c))))"

text \<open>
  What MariaDB documents of a transaction. \<open>seen c\<close> is the database the connection sees, \<open>durable c\<close>
  what every other connection sees: a statement succeeds and moves the one to the other.
\<close>

definition moves :: "'c mysql_lib \<Rightarrow> string \<Rightarrow> ('c \<Rightarrow> 'c \<Rightarrow> bool) \<Rightarrow> 'c \<Rightarrow> bool" where
  "moves lib sql effect c \<longleftrightarrow> fst (real_query lib sql c) = None \<and> effect c (snd (store_result lib (snd (real_query lib sql c))))"

definition transactional :: "'c mysql_lib \<Rightarrow> ('c \<Rightarrow> 'db) \<Rightarrow> ('c \<Rightarrow> 'db) \<Rightarrow> bool" where
  "transactional lib seen durable \<longleftrightarrow>
     (\<forall>c. moves lib ''START TRANSACTION'' (\<lambda>c c'. seen c' = seen c \<and> durable c' = seen c) c)
     \<and> (\<forall>c. moves lib ''COMMIT'' (\<lambda>c c'. seen c' = seen c \<and> durable c' = seen c) c)
     \<and> (\<forall>c. moves lib ''ROLLBACK'' (\<lambda>c c'. seen c' = durable c \<and> durable c' = durable c) c)"

text \<open>Statements that do on the connection what an action does on the database, and commit nothing.\<close>

definition performs :: "('c \<Rightarrow> 'db) \<Rightarrow> ('c \<Rightarrow> 'db) \<Rightarrow> ('c \<Rightarrow> 'a outcome \<times> 'c) \<Rightarrow> ('db \<Rightarrow> 'a outcome \<times> 'db) \<Rightarrow> bool" where
  "performs seen durable f g \<longleftrightarrow> (\<forall>c. case f c of (r, c') \<Rightarrow> g (seen c) = (r, seen c') \<and> durable c' = durable c)"

lemma performsD:
  assumes "performs seen durable f g"
  obtains c' where "f c = (fst (g (seen c)), c')" and "seen c' = snd (g (seen c))" and "durable c' = durable c"
  using assms by (cases "f c") (auto simp: performs_def dest: spec [of _ c])

lemma executes:
  assumes "moves lib sql effect c"
  obtains c' where "exec lib sql c = (Inr (), c')" and "effect c c'"
  using assms by (cases "real_query lib sql c") (auto simp: moves_def exec_def)

text \<open>
  C5. The transaction of a write is the atomic step the other theories reason about. On a server
  whose transactions are what MariaDB documents, the statements of \<open>run_atomically\<close> give the result
  of the abstract step, leave the connection seeing its state, and make exactly that state visible to
  everyone else: nothing of a write that threw, all of one that did not.
\<close>

theorem transaction_refines_atomic_step:
  assumes "transactional lib seen durable" and "performs seen durable body step"
    and "performs seen durable reading (\<lambda>s. (current_operation_time (oplog s), s))"
  shows "case atomically lib body reading c of
    (r, c') \<Rightarrow> run_atomically step (seen c) = (r, seen c') \<and> durable c' = seen c'"
proof -
  from assms(1) have tx:
    "\<And>c. moves lib ''START TRANSACTION'' (\<lambda>c c'. seen c' = seen c \<and> durable c' = seen c) c"
    "\<And>c. moves lib ''COMMIT'' (\<lambda>c c'. seen c' = seen c \<and> durable c' = seen c) c"
    "\<And>c. moves lib ''ROLLBACK'' (\<lambda>c c'. seen c' = durable c \<and> durable c' = durable c) c"
    by (simp_all add: transactional_def)
  obtain c1 where c1: "begin_transaction lib c = (Inr (), c1)" "seen c1 = seen c" "durable c1 = seen c"
    using executes [OF tx(1)] unfolding begin_transaction_def by metis
  obtain c2 where c2: "body c1 = (fst (step (seen c)), c2)" "seen c2 = snd (step (seen c))" "durable c2 = seen c"
    using performsD [OF assms(2), of c1] c1 by metis
  obtain c3 where c3: "reading c2 = (current_operation_time (oplog (seen c2)), c3)" "seen c3 = seen c2" "durable c3 = seen c"
    using performsD [OF assms(3), of c2] c2(3) by auto
  have undo: "\<exists>c''. rollback_transaction lib c' = (Inr (), c'') \<and> seen c'' = seen c \<and> durable c'' = seen c"
    if "durable c' = seen c" for c'
    using executes [OF tx(3), of c'] that unfolding rollback_transaction_def by metis
  obtain c4 where c4: "commit_transaction lib c3 = (Inr (), c4)" "seen c4 = seen c3" "durable c4 = seen c3"
    using executes [OF tx(2), of c3] unfolding commit_transaction_def by metis
  obtain r s where step: "step (seen c) = (r, s)" by (cases "step (seen c)")
  show ?thesis
    using c1 c2 c3 c4 step undo [OF c2(3)] undo [OF c3(3)]
    by (cases r; cases "current_operation_time (oplog s)") (auto simp: atomically_def run_atomically_def)
qed

text \<open>A server that keeps both databases, and knows only these three statements.\<close>

definition two_copies :: "('db \<times> 'db) mysql_lib" where
  "two_copies = \<lparr>mysql_init = None, connect_local = Some, set_utf8mb4 = id,
     real_query = (\<lambda>sql (s, d).
       if sql \<in> {''START TRANSACTION'', ''COMMIT''} then (None, (s, s))
       else if sql = ''ROLLBACK'' then (None, (d, d))
       else (Some (1064, ''syntax error''), (s, d))),
     store_result = (\<lambda>c. (No_result, c)), in_transaction_bit = (\<lambda>(s, d). True)\<rparr>"

definition on_seen :: "('db \<Rightarrow> 'a outcome \<times> 'db) \<Rightarrow> 'db \<times> 'db \<Rightarrow> 'a outcome \<times> 'db \<times> 'db" where
  "on_seen f c = (case f (fst c) of (r, s) \<Rightarrow> (r, (s, snd c)))"

theorem transaction_refines_atomic_step_witness:
  "case atomically two_copies (on_seen (write_body demo_env demo_ns (W_insert doc_c)))
      (on_seen (\<lambda>s. (current_operation_time (oplog s), s))) (demo_server, demo_server) of
    (r, c') \<Rightarrow> run_atomically (write_body demo_env demo_ns (W_insert doc_c)) (fst (demo_server, demo_server)) = (r, fst c')
      \<and> snd c' = fst c'"
proof (rule transaction_refines_atomic_step)
  show "transactional two_copies fst snd" by (simp add: transactional_def moves_def two_copies_def split: prod.split)
  show "performs fst snd (on_seen f) f" for f :: "server \<Rightarrow> 'a outcome \<times> server"
    by (auto simp: performs_def on_seen_def split: prod.split)
  then show "performs fst snd (on_seen (\<lambda>s. (current_operation_time (oplog s), s))) (\<lambda>s :: server. (current_operation_time (oplog s), s))" .
qed

text \<open>A \<open>COMMIT\<close> that fails is thrown outside the \<open>try\<close>: no \<open>ROLLBACK\<close> follows it.\<close>

lemma failed_commit_is_not_rolled_back:
  assumes "begin_transaction lib c = (Inr (), c1)" and "body c1 = (Inr x, c2)" and "reading c2 = (Inr t, c3)"
    and "commit_transaction lib c3 = (Inl e, c4)"
  shows "atomically lib body reading c = (Inl e, c4)"
  using assms by (simp add: atomically_def)

end
