(* ===== verification/Health.thy ===== *)
theory Health
  imports Listener
begin

text \<open>
  The health probe (src/chimera/cli/health/main.c): it connects, sends one \<open>ping\<close> and checks the reply.
  Time and the network are arguments: what each address answers to \<open>connect\<close> and when, and the events
  of \<open>send\<close> and \<open>recv\<close>, where a time-out is a failure.
\<close>

section \<open>Arguments\<close>

definition kRequestId :: int32 where "kRequestId = 424242"
definition kTimeoutMs :: int where "kTimeoutMs = 2000"
definition kMaxReply :: nat where "kMaxReply = 65536"

text \<open>\<open>strtol(_, &end, 10)\<close> where \<open>*end\<close> must be the end of the text.\<close>

definition port_number :: "string \<Rightarrow> int option" where
  "port_number s =
     (let t = dropWhile isspace s;
          signed = t \<noteq> [] \<and> hd t \<in> {CHR ''+'', CHR ''-''};
          digits = (if signed then tl t else t);
          value = int (decimal_value digits)
      in if digits = [] \<or> \<not> list_all isdigit digits then None
         else Some (if signed \<and> hd t = CHR ''-'' then - value else value))"

definition endpoint_ok :: "string \<Rightarrow> string \<Rightarrow> bool" where
  "endpoint_ok host_name port \<longleftrightarrow> host_name \<noteq> [] \<and> port \<noteq> []
     \<and> (case port_number port of None \<Rightarrow> False | Some p \<Rightarrow> 1 \<le> p \<and> p \<le> 65535)"

section \<open>Connecting\<close>

text \<open>
  One address: whether the socket could be made and set not to block, when its turn starts, and what
  \<open>connect\<close> does: succeed at once, fail, or finish at some time with the socket's error.
\<close>

datatype connecting = At_once | Refused | In_progress int bool

record address =
  has_socket :: bool
  unblocked :: bool
  turn_starts :: int
  connecting :: connecting

definition attempt_deadline :: "int \<Rightarrow> int \<Rightarrow> nat \<Rightarrow> int" where
  "attempt_deadline deadline started addresses_left =
     started + max 1 ((deadline - started) div int addresses_left)"

text \<open>The address that is connected, if any; the loop ends when the deadline has passed.\<close>

fun connect_any :: "int \<Rightarrow> address list \<Rightarrow> address option" where
  "connect_any deadline [] = None"
| "connect_any deadline (a # rest) =
     (if \<not> has_socket a then connect_any deadline rest
      else if \<not> unblocked a then connect_any deadline rest
      else if turn_starts a < 0 \<or> deadline \<le> turn_starts a then None
      else case connecting a of
          At_once \<Rightarrow> Some a
        | Refused \<Rightarrow> connect_any deadline rest
        | In_progress done_at good \<Rightarrow>
            if done_at < attempt_deadline deadline (turn_starts a) (Suc (length rest)) \<and> good
            then Some a else connect_any deadline rest)"

section \<open>The ping\<close>

definition ping_document :: document where
  "ping_document = [(''ping'', BInt32 1), (''$db'', BUtf8 ''admin'')]"

text \<open>The 21 bytes before the body, zero where nothing is written, and the body are sent one after the other.\<close>

definition probe_head :: "(document \<Rightarrow> string) \<Rightarrow> string" where
  "probe_head raw =
     append_int32 [] (word_of_nat (21 + length (raw ping_document))) @ append_int32 [] kRequestId
     @ replicate 4 nul @ append_int32 [] kOpMsg @ replicate 5 nul"

definition probe_request :: "(document \<Rightarrow> string) \<Rightarrow> string" where
  "probe_request raw = probe_head raw @ raw ping_document"

definition send_probe :: "(document \<Rightarrow> string) \<Rightarrow> send list \<Rightarrow> send list \<Rightarrow> (string \<times> bool) option" where
  "send_probe raw sends sends1 = (case write_all [] (probe_head raw) sends of
       Some (sent, True) \<Rightarrow> write_all sent (raw ping_document) sends1
     | failed \<Rightarrow> failed)"

definition read_le32 :: "string \<Rightarrow> int" where
  "read_le32 s = (case read_int32 s of Inl _ \<Rightarrow> 0 | Inr w \<Rightarrow> uint w)"

definition check_reply :: "(string \<Rightarrow> document option) \<Rightarrow> (document \<Rightarrow> bool) \<Rightarrow> socket \<Rightarrow> bool" where
  "check_reply init_static validate inbox = (case read_exact 16 [] inbox of
       None \<Rightarrow> False
     | Some (header, rest) \<Rightarrow>
         let len = read_le32 header in
         if len < 26 \<or> int kMaxReply < len \<or> read_le32 (drop 8 header) \<noteq> uint kRequestId
           \<or> read_le32 (drop 12 header) \<noteq> uint kOpMsg then False
         else let body_length = nat len - 16 in (case read_exact body_length [] rest of
             None \<Rightarrow> False
           | Some (body, _) \<Rightarrow>
               if read_le32 body \<noteq> 0 \<or> body ! 4 \<noteq> nul \<or> read_le32 (drop 5 body) \<noteq> int (body_length - 5) then False
               else case init_static (drop 5 body) of
                   None \<Rightarrow> False
                 | Some reply \<Rightarrow> validate reply \<and> (case find_field reply ''ok'' of
                     None \<Rightarrow> False
                   | Some v \<Rightarrow> value_is_numeric v \<and> d_eq (as_double v) (d_of_int 1))))"

text \<open>The exit status. \<open>resolved\<close> is None when the name does not resolve.\<close>

definition health :: "(document \<Rightarrow> string) \<Rightarrow> (string \<Rightarrow> document option) \<Rightarrow> (document \<Rightarrow> bool)
    \<Rightarrow> string list \<Rightarrow> int \<Rightarrow> address list option \<Rightarrow> send list \<Rightarrow> send list \<Rightarrow> socket \<Rightarrow> nat" where
  "health raw init_static validate argv now resolved sends sends1 inbox =
     (if length argv \<noteq> 3 then 2
      else if \<not> endpoint_ok (argv ! 1) (argv ! 2) then 2
      else if now < 0 then 1
      else case resolved of
          None \<Rightarrow> 1
        | Some addresses \<Rightarrow> (case connect_any (now + kTimeoutMs) addresses of
            None \<Rightarrow> 1
          | Some _ \<Rightarrow> (case send_probe raw sends sends1 of
              Some (_, True) \<Rightarrow> if check_reply init_static validate inbox then 0 else 1
            | _ \<Rightarrow> 1)))"

section \<open>Time for every address\<close>

text \<open>
  An attempt never outlasts the probe, and the last address has all the time that is left.
\<close>

lemma attempt_within_deadline:
  assumes "started < deadline" and "1 \<le> left"
  shows "attempt_deadline deadline started left \<le> deadline" and "attempt_deadline deadline started 1 = deadline"
proof -
  have "(deadline - started) div int left \<le> (deadline - started) div 1"
    using assms by (intro zdiv_mono2) auto
  with assms show "attempt_deadline deadline started left \<le> deadline" "attempt_deadline deadline started 1 = deadline"
    by (simp_all add: attempt_deadline_def)
qed

section \<open>The probe and the server\<close>

lemma five_zeros: "replicate 5 c = replicate 4 c @ [c]"
  by (simp add: eval_nat_numeral)

lemma probe_is_op_msg: "probe_request raw = op_msg raw kRequestId 0 0 [Body ping_document]"
proof -
  have zero: "append_int32 [] 0 = replicate 4 nul" by code_simp
  show ?thesis by (simp add: probe_request_def probe_head_def op_msg_def zero five_zeros nul_def)
qed

lemma read_le32_append [simp]: "read_le32 (append_int32 [] v @ t) = uint v"
  by (simp add: read_le32_def)

lemma uint_short: "n \<le> 65536 \<Longrightarrow> uint (word_of_nat n :: int32) = int n"
  by (simp add: unsigned_of_nat take_bit_nat_eq_self)

text \<open>What the probe makes of a framed reply to its request.\<close>

lemma check_reply_op_msg:
  assumes "healthy inbox" and "stream inbox = op_msg raw rid kRequestId 0 [Body reply] @ later"
    and "framed raw init_static reply" and "length (raw reply) \<le> 65515"
  shows "check_reply init_static validate inbox \<longleftrightarrow> validate reply \<and> (case find_field reply ''ok'' of
    None \<Rightarrow> False | Some v \<Rightarrow> value_is_numeric v \<and> d_eq (as_double v) (d_of_int 1))"
proof -
  define len where "len = 21 + length (raw reply)"
  define head where "head = append_int32 [] (word_of_nat len) @ append_int32 [] rid
    @ append_int32 [] kRequestId @ append_int32 [] kOpMsg"
  define body where "body = append_int32 [] 0 @ [nul] @ raw reply"
  have st: "stream inbox = head @ body @ later"
    using assms(2) by (simp add: head_def body_def len_def op_msg_def nul_def)
  have lens: "length head = 16" "length body = len - 16" "26 \<le> len" "len \<le> 65536" "length (raw reply) = len - 21"
    using assms(3,4) by (simp_all add: head_def body_def len_def framed_def)
  obtain rest where r: "read_exact 16 [] inbox = Some (head, rest)" "healthy rest" "stream rest = body @ later"
    using read_exact_stream [OF assms(1), of "[]" 16] lens(1) by (auto simp: st)
  obtain rest' where b: "read_exact (len - 16) [] rest = Some (body, rest')"
    using read_exact_stream [OF r(2), of "[]" "len - 16"] lens(2) by (auto simp: r(3))
  have h: "read_le32 head = int len" "read_le32 (drop 8 head) = uint kRequestId" "read_le32 (drop 12 head) = uint kOpMsg"
    using read_le32_append [of kOpMsg "[]"] lens(4) by (simp_all add: head_def uint_short)
  have c: "read_le32 body = 0" "body ! 4 = nul" "drop 5 body = raw reply"
    by (simp_all add: body_def nth_append)
  have d: "read_le32 (raw reply) = int (len - 16 - 5)"
  proof -
    have "append_int32 [] (word_of_nat (length (raw reply))) @ drop 4 (raw reply) = raw reply"
      using assms(3) append_take_drop_id [of 4 "raw reply"] by (simp add: framed_def)
    from arg_cong [OF this, of read_le32] show ?thesis using lens(4,5) by (simp add: uint_short)
  qed
  have "init_static (raw reply) = Some reply" using assms(3) by (simp add: framed_def)
  moreover have "nat (int len) - 16 = len - 16" "\<not> int len < 26" "\<not> int kMaxReply < int len"
    using lens(3,4) by (simp_all add: kMaxReply_def)
  ultimately show ?thesis
    by (simp add: check_reply_def Let_def r(1) b h c d lens(2))
qed

lemma ok_is_one: "value_is_numeric bone \<and> d_eq (as_double bone) (d_of_int 1)"
  by code_simp

lemma refusal_is_not_one: "find_field (error_reply code name message) ''ok'' = Some v \<Longrightarrow> \<not> d_eq (as_double v) (d_of_int 1)"
proof -
  have "\<not> d_eq (d_of_int 0) (d_of_int 1)" by code_simp
  moreover assume "find_field (error_reply code name message) ''ok'' = Some v"
  then have "v = BDouble (d_of_int 0)" by (simp add: error_reply_def find_field_def nul_def)
  ultimately show ?thesis by simp
qed

text \<open>What the server sends when it is served the probe's bytes, in whatever pieces.\<close>

lemma served_probe:
  assumes "healthy inbox" and "stream inbox = probe_request (con_raw con)"
    and "\<forall>k. \<not> con_stop con k" and "\<forall>k bytes. write_all [] bytes (con_sends con k bytes) = Some (bytes, True)"
    and "framed (con_raw con) (con_new_doc con) ping_document" and "length (con_raw con ping_document) \<le> 47999979"
    and "append_operation_time ok_reply None (srv n) = (Inr reply, s)"
  shows "fst (fst (serve con 0 inbox n)) = op_msg (con_raw con) (ucast (con_id con)) kRequestId 0 [Body reply]"
proof -
  let ?m = "probe_request (con_raw con)"
  have m: "?m = op_msg (con_raw con) kRequestId 0 0 [Body ping_document]" by (rule probe_is_op_msg)
  have framed: "well_framed ?m" unfolding m using assms(6) by (intro well_framed_op_msg) (simp add: length_op_msg)
  obtain h where req: "parse_request (con_new_doc con) ?m = Inr \<lparr>req_header = h, req_body = ping_document,
      database = database_of ping_document, legacy_query = False\<rparr>" (is "_ = Inr ?req") and h: "request_id h = kRequestId"
    using op_msg_parses [of "[Body ping_document]" ping_document "con_raw con" "con_new_doc con" 0 kRequestId 0] assms(5)
    unfolding m by auto
  have "dispatch_command (con_session con 0) ?req n = (Inr reply, n\<lparr>srv := s\<rparr>)"
    using assms(7) by (simp add: dispatch_command_def run_command_named_def ping_document_def document_fields_def on_server_def)
  moreover have "parse_header ?m = Inr h" using parsed_header [OF req] by simp
  ultimately have "answer (con_session con 0) (con_new_doc con) ?m n = (Inr (?req, reply), n\<lparr>srv := s\<rparr>)"
    using req by (simp add: answer_def Let_def bind_action_def)
  with served_framed [OF assms(3,4,1), of "[?m]" 0 n] assms(2) framed h show ?thesis
    by (simp add: encode_reply_op_msg)
qed

text \<open>
  C15. The probe and the server agree on the protocol. Let a server serve, on one connection, the bytes
  the probe sends, and let the network cut both streams as it likes: where the oplog's clock can be
  read, what comes back makes the probe succeed.
\<close>

theorem probe_finds_served_plugin:
  assumes "healthy inbox" and "stream inbox = probe_request (con_raw con)"
    and "\<forall>k. \<not> con_stop con k" and "\<forall>k bytes. write_all [] bytes (con_sends con k bytes) = Some (bytes, True)"
    and "framed (con_raw con) (con_new_doc con) ping_document" and "length (con_raw con ping_document) \<le> 47999979"
    and "append_operation_time ok_reply None (srv n) = (Inr reply, s)"
    and "framed (con_raw con) init_static reply" and "length (con_raw con reply) \<le> 65515" and "validate reply"
    and "healthy replies" and "stream replies = fst (fst (serve con 0 inbox n))"
  shows "check_reply init_static validate replies"
proof -
  have ok: "find_field reply ''ok'' = Some bone"
    using assms(7) by (auto simp: append_operation_time_def bind_action_def ok_reply_def find_field_def nul_def
      split: prod.splits sum.splits)
  have "stream replies = op_msg (con_raw con) (ucast (con_id con)) kRequestId 0 [Body reply] @ []"
    using assms(12) served_probe [OF assms(1-7)] by simp
  from check_reply_op_msg [OF assms(11) this assms(8,9), of validate] ok ok_is_one assms(10) show ?thesis by simp
qed

text \<open>Two documents and their bytes, enough for one ping.\<close>

definition ping_reply :: document where
  "ping_reply = ok_reply @ [(''operationTime'', BTimestamp 0 0)]"

definition ping_raw :: "document \<Rightarrow> string" where
  "ping_raw d = append_int32 [] (if d = ping_document then 6 else 5) @ replicate (if d = ping_document then 2 else 1) nul"

definition ping_new_doc :: "string \<Rightarrow> document option" where
  "ping_new_doc s = (if s = ping_raw ping_document then Some ping_document
     else if s = ping_raw ping_reply then Some ping_reply else None)"

definition ping_connection :: connection where
  "ping_connection = demo_connection\<lparr>con_raw := ping_raw, con_new_doc := ping_new_doc\<rparr>"

definition ping_inbox :: socket where
  "ping_inbox = [Data (take 9 (probe_request ping_raw)), Interrupted, Data (drop 9 (probe_request ping_raw))]"

definition quiet_node :: node where
  "quiet_node = \<lparr>srv = fresh_server, reg = fresh_registry\<rparr>"

definition ping_answer :: socket where
  "ping_answer = [Interrupted, Data (op_msg ping_raw 3 kRequestId 0 [Body ping_reply])]"

lemma ping_served:
  "healthy ping_inbox" "stream ping_inbox = probe_request (con_raw ping_connection)"
  "\<forall>k. \<not> con_stop ping_connection k"
  "\<forall>k bytes. write_all [] bytes (con_sends ping_connection k bytes) = Some (bytes, True)"
  "framed (con_raw ping_connection) (con_new_doc ping_connection) ping_document"
  "length (con_raw ping_connection ping_document) \<le> 47999979"
  "append_operation_time ok_reply None (srv quiet_node) =
    (Inr ping_reply, snd (append_operation_time ok_reply None (srv quiet_node)))"
proof -
  show "healthy ping_inbox" "framed (con_raw ping_connection) (con_new_doc ping_connection) ping_document" by code_simp+
  show "append_operation_time ok_reply None (srv quiet_node) =
    (Inr ping_reply, snd (append_operation_time ok_reply None (srv quiet_node)))" by code_simp
  have "write_all [] bytes (con_sends ping_connection k bytes) = Some (bytes, True)" for k bytes
    by (cases bytes) (simp_all add: ping_connection_def demo_connection_def)
  then show "\<forall>k bytes. write_all [] bytes (con_sends ping_connection k bytes) = Some (bytes, True)" by blast
qed (simp_all add: ping_connection_def demo_connection_def ping_inbox_def ping_raw_def)

theorem probe_finds_served_plugin_witness:
  "check_reply ping_new_doc (\<lambda>_. True) ping_answer"
proof (rule probe_finds_served_plugin [OF ping_served])
  show "framed (con_raw ping_connection) ping_new_doc ping_reply" "healthy ping_answer"
    "length (con_raw ping_connection ping_reply) \<le> 65515" by code_simp+
  show "stream ping_answer = fst (fst (serve ping_connection 0 ping_inbox quiet_node))"
    using served_probe [OF ping_served] by (simp add: ping_answer_def ping_connection_def demo_connection_def)
qed simp

end
