(* ===== verification/Ownership.thy ===== *)
theory Ownership
  imports Bson
begin

text \<open>
  The classes \<open>Bson\<close> and \<open>Value\<close> (src/chimera/translator/src/bson.cpp, include/chimera/bson.h): what
  their constructors, assignments and destructors do to libbson's buffers. The other theories take a
  \<open>Bson\<close> for its document and a \<open>Value\<close> for its value; here is why they may.

  The store has a cell per allocated \<open>bson_t\<close>, or per value that owns memory. Of libbson it says what
  its manual does: \<open>bson_new\<close>, \<open>bson_copy\<close> and \<open>bson_value_copy\<close> allocate, at an address that is an
  argument here, \<open>bson_destroy\<close> and \<open>bson_value_destroy\<close> free. To free a cell twice is undefined, and
  so is to read an object after its life or the value of one that was moved from.
\<close>

section \<open>Objects and cells\<close>

type_synonym address = nat

datatype object = Bson_object string | Value_object string

text \<open>\<open>b_\<close> is a null pointer or a buffer, \<open>v_\<close> has no type (\<open>BSON_TYPE_EOD\<close>) or is a value, in place or with memory.\<close>

datatype member = Null | Eod | Scalar bson | Buffer address

record store =
  cells :: "address \<Rightarrow> bson option"
  members :: "object \<Rightarrow> member option"
  raw_pointers :: "address set"

fun has_memory :: "bson \<Rightarrow> bool" where
  "has_memory (BUtf8 _) = True"
| "has_memory (BDocument _) = True"
| "has_memory (BArray _) = True"
| "has_memory (BBinary _ _) = True"
| "has_memory (BRegex _ _) = True"
| "has_memory (BDbPointer _ _) = True"
| "has_memory (BCode _) = True"
| "has_memory (BSymbol _) = True"
| "has_memory (BCodeWScope _ _) = True"
| "has_memory _ = False"

definition set_member :: "object \<Rightarrow> member \<Rightarrow> store \<Rightarrow> store" where
  "set_member x m s = s\<lparr>members := (members s)(x \<mapsto> m)\<rparr>"

definition end_life :: "object \<Rightarrow> store \<Rightarrow> store" where
  "end_life x s = s\<lparr>members := (members s)(x := None)\<rparr>"

definition allocate :: "address \<Rightarrow> bson \<Rightarrow> store \<Rightarrow> store" where
  "allocate a v s = s\<lparr>cells := (cells s)(a \<mapsto> v)\<rparr>"

text \<open>\<open>if (b_) bson_destroy(b_)\<close>, \<open>bson_value_destroy(&v_)\<close>\<close>

definition free_member :: "member \<Rightarrow> store \<Rightarrow> store outcome" where
  "free_member m s = (case m of
       Buffer a \<Rightarrow> (case cells s a of None \<Rightarrow> Inl Undefined | Some _ \<Rightarrow> Inr (s\<lparr>cells := (cells s)(a := None)\<rparr>))
     | _ \<Rightarrow> Inr s)"

definition content :: "store \<Rightarrow> member \<Rightarrow> bson option" where
  "content s m = (case m of Null \<Rightarrow> None | Eod \<Rightarrow> None | Scalar v \<Rightarrow> Some v | Buffer a \<Rightarrow> cells s a)"

definition read_object :: "object \<Rightarrow> store \<Rightarrow> bson outcome" where
  "read_object x s = (case Option.bind (members s x) (content s) of None \<Rightarrow> Inl Undefined | Some v \<Rightarrow> Inr v)"

definition member_of :: "object \<Rightarrow> store \<Rightarrow> member outcome" where
  "member_of x s = (case members s x of None \<Rightarrow> Inl Undefined | Some m \<Rightarrow> Inr m)"

section \<open>The class Bson\<close>

definition bson_default :: "object \<Rightarrow> address \<Rightarrow> store \<Rightarrow> store outcome" where
  "bson_default x a s = Inr (set_member x (Buffer a) (allocate a (BDocument []) s))"

definition bson_owned :: "object \<Rightarrow> address option \<Rightarrow> store \<Rightarrow> store outcome" where
  "bson_owned x p s = (case p of
       None \<Rightarrow> Inr (set_member x Null s)
     | Some a \<Rightarrow> Inr (set_member x (Buffer a) (s\<lparr>raw_pointers := raw_pointers s - {a}\<rparr>)))"

definition bson_move :: "object \<Rightarrow> object \<Rightarrow> store \<Rightarrow> store outcome" where
  "bson_move x other s = and_then (member_of other s) (\<lambda>m. Inr (set_member other Null (set_member x m s)))"

definition bson_move_assign :: "object \<Rightarrow> object \<Rightarrow> store \<Rightarrow> store outcome" where
  "bson_move_assign x other s =
     (if x = other then Inr s
      else and_then (member_of x s) (\<lambda>old. and_then (free_member old s) (bson_move x other)))"

definition bson_end :: "object \<Rightarrow> store \<Rightarrow> store outcome" where
  "bson_end x s = and_then (member_of x s) (\<lambda>m. and_then (free_member m s) (\<lambda>s. Inr (end_life x s)))"

definition bson_copy_of :: "object \<Rightarrow> object \<Rightarrow> address \<Rightarrow> store \<Rightarrow> store outcome" where
  "bson_copy_of x src a s = and_then (read_object src s) (\<lambda>v. Inr (set_member x (Buffer a) (allocate a v s)))"

definition bson_release :: "object \<Rightarrow> store \<Rightarrow> store outcome" where
  "bson_release x s = and_then (member_of x s) (\<lambda>m.
     let s = set_member x Null s in
     case m of Buffer a \<Rightarrow> Inr (s\<lparr>raw_pointers := insert a (raw_pointers s)\<rparr>) | _ \<Rightarrow> Inr s)"

section \<open>The class Value\<close>

text \<open>\<open>bson_value_copy\<close> into \<open>v_\<close>\<close>

definition copy_in :: "object \<Rightarrow> bson \<Rightarrow> address \<Rightarrow> store \<Rightarrow> store" where
  "copy_in x v a s = (if has_memory v then set_member x (Buffer a) (allocate a v s) else set_member x (Scalar v) s)"

definition value_default :: "object \<Rightarrow> store \<Rightarrow> store outcome" where
  "value_default x s = Inr (set_member x (Scalar BNull) s)"

definition value_of :: "object \<Rightarrow> bson \<Rightarrow> address \<Rightarrow> store \<Rightarrow> store outcome" where
  "value_of x v a s = Inr (copy_in x v a s)"

definition value_copy :: "object \<Rightarrow> object \<Rightarrow> address \<Rightarrow> store \<Rightarrow> store outcome" where
  "value_copy x other a s = and_then (read_object other s) (\<lambda>v. Inr (copy_in x v a s))"

definition value_assign :: "object \<Rightarrow> object \<Rightarrow> address \<Rightarrow> store \<Rightarrow> store outcome" where
  "value_assign x other a s =
     (if x = other then Inr s
      else and_then (member_of x s) (\<lambda>old. and_then (free_member old s) (value_copy x other a)))"

definition value_move :: "object \<Rightarrow> object \<Rightarrow> store \<Rightarrow> store outcome" where
  "value_move x other s = and_then (member_of other s) (\<lambda>m. Inr (set_member other Eod (set_member x m s)))"

definition value_move_assign :: "object \<Rightarrow> object \<Rightarrow> store \<Rightarrow> store outcome" where
  "value_move_assign x other s =
     (if x = other then Inr s
      else and_then (member_of x s) (\<lambda>old. and_then (free_member old s) (value_move x other)))"

definition value_end :: "object \<Rightarrow> store \<Rightarrow> store outcome" where
  "value_end x s = and_then (member_of x s) (\<lambda>m. and_then (free_member m s) (\<lambda>s. Inr (end_life x s)))"

definition from_int64 :: "object \<Rightarrow> int64 \<Rightarrow> address \<Rightarrow> store \<Rightarrow> store outcome" where
  "from_int64 x n = value_of x (BInt64 n)"

definition from_double :: "object \<Rightarrow> double \<Rightarrow> address \<Rightarrow> store \<Rightarrow> store outcome" where
  "from_double x d = value_of x (BDouble d)"

definition from_utf8 :: "object \<Rightarrow> string \<Rightarrow> address \<Rightarrow> store \<Rightarrow> store outcome" where
  "from_utf8 x str = value_of x (BUtf8 str)"

definition value_from_buffer ::
  "(document \<Rightarrow> bson) \<Rightarrow> object \<Rightarrow> object \<Rightarrow> address \<Rightarrow> store \<Rightarrow> store outcome" where
  "value_from_buffer type x doc a s = and_then (read_object doc s) (\<lambda>v. case v of
       BDocument d \<Rightarrow> value_of x (type d) a s | BArray d \<Rightarrow> value_of x (type d) a s | _ \<Rightarrow> Inl Undefined)"

section \<open>Programs\<close>

text \<open>
  What a function body does with its objects. \<open>Allocated\<close> is a call of libbson that hands the caller
  a \<open>bson_t\<close> of its own, as \<open>bson_new_from_json\<close> does; \<open>Bson_release\<close> names the pointer it returns.
\<close>

datatype statement =
    Allocated address document
  | Bson_default string address
  | Bson_owned string "address option"
  | Bson_move string string
  | Bson_move_assign string string
  | Bson_end string
  | Bson_copy_of string string address
  | Bson_release string "address option"
  | Value_default string
  | Value_of string bson address
  | Value_copy string string address
  | Value_assign string string address
  | Value_move string string
  | Value_move_assign string string
  | Value_end string
  | From_document string string address
  | From_array string string address

fun execute :: "statement \<Rightarrow> store \<Rightarrow> store outcome" where
  "execute (Allocated a d) s = Inr ((allocate a (BDocument d) s)\<lparr>raw_pointers := insert a (raw_pointers s)\<rparr>)"
| "execute (Bson_default x a) s = bson_default (Bson_object x) a s"
| "execute (Bson_owned x p) s = bson_owned (Bson_object x) p s"
| "execute (Bson_move x y) s = bson_move (Bson_object x) (Bson_object y) s"
| "execute (Bson_move_assign x y) s = bson_move_assign (Bson_object x) (Bson_object y) s"
| "execute (Bson_end x) s = bson_end (Bson_object x) s"
| "execute (Bson_copy_of x y a) s = bson_copy_of (Bson_object x) (Bson_object y) a s"
| "execute (Bson_release x p) s = bson_release (Bson_object x) s"
| "execute (Value_default x) s = value_default (Value_object x) s"
| "execute (Value_of x v a) s = value_of (Value_object x) v a s"
| "execute (Value_copy x y a) s = value_copy (Value_object x) (Value_object y) a s"
| "execute (Value_assign x y a) s = value_assign (Value_object x) (Value_object y) a s"
| "execute (Value_move x y) s = value_move (Value_object x) (Value_object y) s"
| "execute (Value_move_assign x y) s = value_move_assign (Value_object x) (Value_object y) s"
| "execute (Value_end x) s = value_end (Value_object x) s"
| "execute (From_document x y a) s = value_from_buffer BDocument (Value_object x) (Bson_object y) a s"
| "execute (From_array x y a) s = value_from_buffer BArray (Value_object x) (Bson_object y) a s"

definition empty_store :: store where
  "empty_store = \<lparr>cells = (\<lambda>_. None), members = (\<lambda>_. None), raw_pointers = {}\<rparr>"

section \<open>What the objects mean\<close>

text \<open>
  A program without memory: an object is its document or value, or empty when it was moved from. A
  copy copies the value, a move takes it.
\<close>

record meaning =
  val_of :: "object \<Rightarrow> bson option option"
  raw_of :: "address \<Rightarrow> bson option"

definition assign :: "object \<Rightarrow> bson option \<Rightarrow> meaning \<Rightarrow> meaning" where
  "assign x v m = m\<lparr>val_of := (val_of m)(x \<mapsto> v)\<rparr>"

definition mean_of :: "object \<Rightarrow> meaning \<Rightarrow> bson option" where
  "mean_of x m = (case val_of m x of Some (Some v) \<Rightarrow> Some v | _ \<Rightarrow> None)"

definition take_value :: "object \<Rightarrow> object \<Rightarrow> meaning \<Rightarrow> meaning" where
  "take_value x y m = (if x = y then m else assign y None (assign x (mean_of y m) m))"

fun fields_of :: "bson option \<Rightarrow> document option" where
  "fields_of (Some (BDocument d)) = Some d"
| "fields_of (Some (BArray d)) = Some d"
| "fields_of _ = None"

fun pure_step :: "statement \<Rightarrow> meaning \<Rightarrow> meaning" where
  "pure_step (Allocated a d) m = m\<lparr>raw_of := (raw_of m)(a \<mapsto> BDocument d)\<rparr>"
| "pure_step (Bson_default x a) m = assign (Bson_object x) (Some (BDocument [])) m"
| "pure_step (Bson_owned x p) m = (case p of
       None \<Rightarrow> assign (Bson_object x) None m
     | Some a \<Rightarrow> assign (Bson_object x) (raw_of m a) (m\<lparr>raw_of := (raw_of m)(a := None)\<rparr>))"
| "pure_step (Bson_move x y) m = take_value (Bson_object x) (Bson_object y) m"
| "pure_step (Bson_move_assign x y) m = take_value (Bson_object x) (Bson_object y) m"
| "pure_step (Bson_end x) m = m\<lparr>val_of := (val_of m)(Bson_object x := None)\<rparr>"
| "pure_step (Bson_copy_of x y a) m = assign (Bson_object x) (mean_of (Bson_object y) m) m"
| "pure_step (Bson_release x p) m = (let m' = assign (Bson_object x) None m in case p of
       None \<Rightarrow> m'
     | Some a \<Rightarrow> m'\<lparr>raw_of := (raw_of m')(a := mean_of (Bson_object x) m)\<rparr>)"
| "pure_step (Value_default x) m = assign (Value_object x) (Some BNull) m"
| "pure_step (Value_of x v a) m = assign (Value_object x) (Some v) m"
| "pure_step (Value_copy x y a) m = assign (Value_object x) (mean_of (Value_object y) m) m"
| "pure_step (Value_assign x y a) m = assign (Value_object x) (mean_of (Value_object y) m) m"
| "pure_step (Value_move x y) m = take_value (Value_object x) (Value_object y) m"
| "pure_step (Value_move_assign x y) m = take_value (Value_object x) (Value_object y) m"
| "pure_step (Value_end x) m = m\<lparr>val_of := (val_of m)(Value_object x := None)\<rparr>"
| "pure_step (From_document x y a) m = assign (Value_object x) (map_option BDocument (fields_of (mean_of (Bson_object y) m))) m"
| "pure_step (From_array x y a) m = assign (Value_object x) (map_option BArray (fields_of (mean_of (Bson_object y) m))) m"

text \<open>What a compiler and libbson see to: the lives of objects, and that an address is not given out twice.
  What is up to the program: it reads no object that was moved from, and adopts what it owns.\<close>

definition alive :: "object \<Rightarrow> store \<Rightarrow> bool" where
  "alive x s \<longleftrightarrow> members s x \<noteq> None"

definition has_value :: "object \<Rightarrow> store \<Rightarrow> bool" where
  "has_value x s \<longleftrightarrow> (case read_object x s of Inl _ \<Rightarrow> False | Inr _ \<Rightarrow> True)"

definition has_fields :: "object \<Rightarrow> store \<Rightarrow> bool" where
  "has_fields x s \<longleftrightarrow> (case read_object x s of
       Inl _ \<Rightarrow> False | Inr v \<Rightarrow> (case v of BDocument _ \<Rightarrow> True | BArray _ \<Rightarrow> True | _ \<Rightarrow> False))"

definition fresh :: "address \<Rightarrow> store \<Rightarrow> bool" where
  "fresh a s \<longleftrightarrow> cells s a = None"

fun allowed :: "statement \<Rightarrow> store \<Rightarrow> bool" where
  "allowed (Allocated a d) s = fresh a s"
| "allowed (Bson_default x a) s = (\<not> alive (Bson_object x) s \<and> fresh a s)"
| "allowed (Bson_owned x p) s = (\<not> alive (Bson_object x) s \<and> (case p of None \<Rightarrow> True | Some a \<Rightarrow> a \<in> raw_pointers s))"
| "allowed (Bson_move x y) s = (\<not> alive (Bson_object x) s \<and> alive (Bson_object y) s)"
| "allowed (Bson_move_assign x y) s = (alive (Bson_object x) s \<and> alive (Bson_object y) s)"
| "allowed (Bson_end x) s = alive (Bson_object x) s"
| "allowed (Bson_copy_of x y a) s = (\<not> alive (Bson_object x) s \<and> has_value (Bson_object y) s \<and> fresh a s)"
| "allowed (Bson_release x p) s = (members s (Bson_object x) = Some (case p of None \<Rightarrow> Null | Some a \<Rightarrow> Buffer a))"
| "allowed (Value_default x) s = (\<not> alive (Value_object x) s)"
| "allowed (Value_of x v a) s = (\<not> alive (Value_object x) s \<and> fresh a s)"
| "allowed (Value_copy x y a) s = (\<not> alive (Value_object x) s \<and> has_value (Value_object y) s \<and> fresh a s)"
| "allowed (Value_assign x y a) s = (alive (Value_object x) s \<and> has_value (Value_object y) s \<and> fresh a s)"
| "allowed (Value_move x y) s = (\<not> alive (Value_object x) s \<and> alive (Value_object y) s)"
| "allowed (Value_move_assign x y) s = (alive (Value_object x) s \<and> alive (Value_object y) s)"
| "allowed (Value_end x) s = alive (Value_object x) s"
| "allowed (From_document x y a) s = (\<not> alive (Value_object x) s \<and> has_fields (Bson_object y) s \<and> fresh a s)"
| "allowed (From_array x y a) s = (\<not> alive (Value_object x) s \<and> has_fields (Bson_object y) s \<and> fresh a s)"

fun allowed_program :: "statement list \<Rightarrow> store \<Rightarrow> bool" where
  "allowed_program [] s = True"
| "allowed_program (c # cs) s = (allowed c s \<and> (case execute c s of Inl _ \<Rightarrow> True | Inr s' \<Rightarrow> allowed_program cs s'))"

section \<open>Every buffer has one owner\<close>

text \<open>The owners of a buffer: an object, or (None) whoever has a raw pointer to it.\<close>

definition holds :: "store \<Rightarrow> address \<Rightarrow> object option \<Rightarrow> bool" where
  "holds s a w \<longleftrightarrow> (case w of None \<Rightarrow> a \<in> raw_pointers s | Some x \<Rightarrow> members s x = Some (Buffer a))"

definition owned :: "store \<Rightarrow> bool" where
  "owned s \<longleftrightarrow> (\<forall>a. case cells s a of None \<Rightarrow> \<forall>w. \<not> holds s a w | Some _ \<Rightarrow> \<exists>!w. holds s a w)"

definition meaning_of :: "store \<Rightarrow> meaning" where
  "meaning_of s = \<lparr>val_of = (\<lambda>x. map_option (content s) (members s x)),
     raw_of = (\<lambda>a. if a \<in> raw_pointers s then cells s a else None)\<rparr>"

text \<open>The member of an object that ends, or whose memory is freed, owns nothing.\<close>

definition idle :: "object \<Rightarrow> store \<Rightarrow> bool" where
  "idle x s \<longleftrightarrow> (\<forall>a. members s x \<noteq> Some (Buffer a))"

lemma content_members [simp]: "content (s\<lparr>members := f\<rparr>) = content s" "content (s\<lparr>raw_pointers := r\<rparr>) = content s"
  by (auto simp: content_def fun_eq_iff split: member.split)

lemma dead_idle: "\<not> alive x s \<Longrightarrow> idle x s"
  by (simp add: alive_def idle_def)

lemma no_holder: "owned s \<Longrightarrow> fresh a s \<Longrightarrow> \<not> holds s a w"
  unfolding owned_def fresh_def by (drule spec [of _ a]) simp

lemma held_cell: "owned s \<Longrightarrow> holds s a w \<Longrightarrow> \<exists>v. cells s a = Some v"
  using no_holder [of s a w] by (cases "cells s a") (auto simp: fresh_def)

lemma one_holder: "owned s \<Longrightarrow> holds s a w \<Longrightarrow> holds s a w' \<Longrightarrow> w = w'"
proof -
  assume o: "owned s" and h: "holds s a w" "holds s a w'"
  from held_cell [OF o h(1)] obtain v where "cells s a = Some v" by blast
  with spec [OF o [unfolded owned_def], of a] have "\<exists>!w. holds s a w" by simp
  with h show "w = w'" by blast
qed

lemma idle_holds: "idle x s \<longleftrightarrow> (\<forall>a. \<not> holds s a (Some x))"
  by (simp add: idle_def holds_def)

text \<open>It is enough to look at each address, where the owners stay, or there is one.\<close>

lemma ownedI:
  assumes "owned s" and "\<And>a. holds s' a = holds s a \<and> (cells s' a = None \<longleftrightarrow> cells s a = None)
    \<or> cells s' a = None \<and> (\<forall>w. \<not> holds s' a w) \<or> cells s' a \<noteq> None \<and> (\<exists>x. holds s' a = (\<lambda>w. w = x))"
  shows "owned s'"
  unfolding owned_def
proof
  fix a
  from assms(2) [of a] show "case cells s' a of None \<Rightarrow> \<forall>w. \<not> holds s' a w | Some _ \<Rightarrow> \<exists>!w. holds s' a w"
  proof (elim disjE conjE)
    assume "holds s' a = holds s a" "cells s' a = None \<longleftrightarrow> cells s a = None"
    then show ?thesis using spec [OF assms(1) [unfolded owned_def], of a] by (cases "cells s a"; cases "cells s' a") auto
  next
    assume "cells s' a \<noteq> None" "\<exists>x. holds s' a = (\<lambda>w. w = x)"
    then show ?thesis by auto
  qed auto
qed

lemma dropped:
  assumes "owned s" and "cells s' = (cells s)(a := None)"
    and "\<And>w. \<not> holds s' a w" and "\<And>b. b \<noteq> a \<Longrightarrow> holds s' b = holds s b"
  shows "owned s'"
proof (rule ownedI [OF assms(1)])
  show "holds s' b = holds s b \<and> (cells s' b = None \<longleftrightarrow> cells s b = None)
    \<or> cells s' b = None \<and> (\<forall>w. \<not> holds s' b w) \<or> cells s' b \<noteq> None \<and> (\<exists>x. holds s' b = (\<lambda>w. w = x))" for b
    using assms(2-4) by (cases "b = a") auto
qed

lemma handed:
  assumes "owned s" and "cells s' a \<noteq> None" and "holds s' a = (\<lambda>w. w = x)"
    and "\<And>b. b \<noteq> a \<Longrightarrow> holds s' b = holds s b" and "\<And>b. b \<noteq> a \<Longrightarrow> cells s' b = cells s b"
  shows "owned s'"
proof (rule ownedI [OF assms(1)])
  show "holds s' b = holds s b \<and> (cells s' b = None \<longleftrightarrow> cells s b = None)
    \<or> cells s' b = None \<and> (\<forall>w. \<not> holds s' b w) \<or> cells s' b \<noteq> None \<and> (\<exists>x. holds s' b = (\<lambda>w. w = x))" for b
    using assms(2-5) by (cases "b = a") auto
qed

lemma holds_set: "holds (set_member x m s) a w \<longleftrightarrow> w = Some x \<and> m = Buffer a \<or> w \<noteq> Some x \<and> holds s a w"
  by (auto simp: holds_def set_member_def split: option.split)

lemma holds_end: "holds (end_life x s) a w = (w \<noteq> Some x \<and> holds s a w)"
  by (auto simp: holds_def end_life_def split: option.split)

lemma holds_cells [simp]: "holds (s\<lparr>cells := f\<rparr>) = holds s"
  by (intro ext) (simp add: holds_def split: option.split)

lemma holds_raw: "holds (s\<lparr>raw_pointers := r\<rparr>) a w \<longleftrightarrow> w = None \<and> a \<in> r \<or> w \<noteq> None \<and> holds s a w"
  "holds s a None \<longleftrightarrow> a \<in> raw_pointers s"
  by (auto simp: holds_def split: option.split)

lemma cells_simps [simp]: "cells (set_member x m s) = cells s" "cells (end_life x s) = cells s"
  "members (set_member x m s) = (members s)(x \<mapsto> m)" "members (end_life x s) = (members s)(x := None)"
  "raw_pointers (set_member x m s) = raw_pointers s" "raw_pointers (end_life x s) = raw_pointers s"
  "content (set_member x m s) = content s" "content (end_life x s) = content s"
  by (simp_all add: set_member_def end_life_def)

text \<open>Four moves of ownership: into an idle object, nowhere, from one to another, and out.\<close>

lemma grow:
  assumes "owned s" and "idle x s" and "fresh a s"
  shows "owned (set_member x (Buffer a) (allocate a v s))"
    and "meaning_of (set_member x (Buffer a) (allocate a v s)) = assign x (Some v) (meaning_of s)"
proof -
  note none = no_holder [OF assms(1,3)]
  show "owned (set_member x (Buffer a) (allocate a v s))"
    using assms(2) none
    by (intro ownedI [OF assms(1)]) (auto simp: holds_set allocate_def idle_holds fun_eq_iff)
  have "members s y \<noteq> Some (Buffer a)" "a \<notin> raw_pointers s" for y
    using none [of "Some y"] none [of None] by (simp_all add: holds_def)
  then have "content (s\<lparr>cells := (cells s)(a \<mapsto> v)\<rparr>) m = content s m" if "members s y = Some m" for y m
    using that by (auto simp: content_def split: member.split)
  with \<open>a \<notin> raw_pointers s\<close>
  show "meaning_of (set_member x (Buffer a) (allocate a v s)) = assign x (Some v) (meaning_of s)"
    by (auto simp: meaning_of_def assign_def allocate_def fun_eq_iff content_def [of _ "Buffer a"]
      intro!: map_option_cong)
qed

lemma plain:
  assumes "owned s" and "idle x s" and "\<forall>a. m \<noteq> Buffer a"
  shows "owned (set_member x m s)" and "meaning_of (set_member x m s) = assign x (content s m) (meaning_of s)"
proof -
  show "owned (set_member x m s)"
    using assms(2,3) by (intro ownedI [OF assms(1)]) (auto simp: holds_set idle_holds fun_eq_iff)
  show "meaning_of (set_member x m s) = assign x (content s m) (meaning_of s)"
    by (auto simp: meaning_of_def assign_def fun_eq_iff)
qed

lemma pass:
  assumes "owned s" and "idle x s" and "x \<noteq> y" and "members s y = Some m" and "e \<in> {Null, Eod}"
  shows "owned (set_member y e (set_member x m s))"
    and "meaning_of (set_member y e (set_member x m s)) = assign y None (assign x (content s m) (meaning_of s))"
proof -
  have own: "holds s a w \<longleftrightarrow> w = Some y" if "m = Buffer a" for a w
    using one_holder [OF assms(1), of a "Some y" w] assms(4) that by (auto simp: holds_def)
  have off: "\<not> holds s a (Some y)" if "m \<noteq> Buffer a" for a
    using assms(4) that by (simp add: holds_def)
  let ?s = "set_member y e (set_member x m s)"
  show "owned ?s"
  proof (rule ownedI [OF assms(1)])
    fix a
    show "holds ?s a = holds s a \<and> (cells ?s a = None \<longleftrightarrow> cells s a = None)
      \<or> cells ?s a = None \<and> (\<forall>w. \<not> holds ?s a w) \<or> cells ?s a \<noteq> None \<and> (\<exists>x. holds ?s a = (\<lambda>w. w = x))"
    proof (cases "m = Buffer a")
      case True
      then have "holds ?s a = (\<lambda>w. w = Some x)"
        using assms(2,3,5) by (auto simp: holds_set idle_holds fun_eq_iff own)
      moreover have "cells s a \<noteq> None" using held_cell [OF assms(1), of a "Some y"] own [OF True] by auto
      ultimately show ?thesis by auto
    next
      case False
      then have "holds ?s a = holds s a"
        using assms(2,3,5) off [OF False] by (auto simp: holds_set idle_holds fun_eq_iff)
      then show ?thesis by simp
    qed
  qed
  show "meaning_of (set_member y e (set_member x m s)) = assign y None (assign x (content s m) (meaning_of s))"
    using assms(5) by (auto simp: meaning_of_def assign_def fun_eq_iff content_def [of s Null] content_def [of s Eod])
qed

text \<open>Freeing the member of an object leaves it idle; overwriting it or ending it makes the store sound again.\<close>

lemma freed:
  assumes "owned s" and "members s x = Some m" and "e \<in> {Null, Eod}"
  obtains s' where "free_member m s = Inr s'" and "members s' = members s" and "owned (set_member x e s')"
    and "meaning_of (set_member x e s') = assign x None (meaning_of s)" and "raw_pointers s' = raw_pointers s"
    and "owned (end_life x s')" and "meaning_of (end_life x s') = (meaning_of s)\<lparr>val_of := (val_of (meaning_of s))(x := None)\<rparr>"
    and "\<And>a. fresh a s \<Longrightarrow> fresh a s'"
    and "\<And>y. y \<noteq> x \<Longrightarrow> read_object y s' = read_object y s"
    and "\<And>y n. y \<noteq> x \<Longrightarrow> members s y = Some n \<Longrightarrow> content s' n = content s n"
proof (cases "\<exists>a. m = Buffer a")
  case True
  then obtain a where m: "m = Buffer a" by blast
  have h: "holds s a (Some x)" using assms(2) m by (simp add: holds_def)
  then obtain v where v: "cells s a = Some v" using held_cell [OF assms(1)] by blast
  have one: "holds s a w \<longleftrightarrow> w = Some x" for w using one_holder [OF assms(1) h] h by blast
  have own: "holds s b (Some x) \<longleftrightarrow> b = a" for b using assms(2) m by (auto simp: holds_def)
  have raw: "a \<notin> raw_pointers s" using one [of None] by (simp add: holds_def)
  let ?s = "s\<lparr>cells := (cells s)(a := None)\<rparr>"
  have keep: "content ?s n = content s n" if "y \<noteq> x" "members s y = Some n" for y n
  proof -
    have "n \<noteq> Buffer a" using one [of "Some y"] that by (auto simp: holds_def)
    then show ?thesis by (auto simp: content_def split: member.split)
  qed
  show thesis
  proof (rule that)
    show "free_member m s = Inr ?s" using v by (simp add: free_member_def m)
    show "owned (set_member x e ?s)" "owned (end_life x ?s)"
      using assms(3) one own by (auto intro!: dropped [OF assms(1), of _ a] simp: holds_set holds_end fun_eq_iff)
    show "meaning_of (set_member x e ?s) = assign x None (meaning_of s)"
      using assms(3) raw keep by (auto simp: meaning_of_def assign_def fun_eq_iff content_def [of _ Null] content_def [of _ Eod]
        intro!: map_option_cong)
    show "meaning_of (end_life x ?s) = (meaning_of s)\<lparr>val_of := (val_of (meaning_of s))(x := None)\<rparr>"
      using raw keep by (auto simp: meaning_of_def fun_eq_iff intro!: map_option_cong)
    show "read_object y ?s = read_object y s" if "y \<noteq> x" for y
      using keep [OF that] by (cases "members s y") (auto simp: read_object_def)
    show "content ?s n = content s n" if "y \<noteq> x" "members s y = Some n" for y n
      using keep that .
  qed (auto simp: fresh_def)
next
  case False
  then have free: "free_member m s = Inr s" by (cases m) (auto simp: free_member_def)
  have idle: "idle x s" using False assms(2) by (simp add: idle_def)
  show thesis
  proof (rule that [OF free])
    show "owned (set_member x e s)" "meaning_of (set_member x e s) = assign x None (meaning_of s)"
      using plain [OF assms(1) idle, of e] assms(3) by (auto simp: content_def)
    show "owned (end_life x s)"
      using idle by (intro ownedI [OF assms(1)]) (auto simp: holds_end idle_holds fun_eq_iff)
    show "meaning_of (end_life x s) = (meaning_of s)\<lparr>val_of := (val_of (meaning_of s))(x := None)\<rparr>"
      by (auto simp: meaning_of_def fun_eq_iff)
  qed auto
qed

section \<open>Every statement is what it means\<close>

definition implements :: "store outcome \<Rightarrow> meaning \<Rightarrow> bool" where
  "implements r m \<longleftrightarrow> (\<exists>s. r = Inr s \<and> owned s \<and> meaning_of s = m)"

lemma implementsI: "owned s \<Longrightarrow> meaning_of s = m \<Longrightarrow> implements (Inr s) m"
  by (auto simp: implements_def)

lemma mean_member: "members s x = Some n \<Longrightarrow> mean_of x (meaning_of s) = content s n"
  by (auto simp: mean_of_def meaning_of_def split: option.split)

lemma read_mean: "has_value x s \<Longrightarrow> \<exists>v. read_object x s = Inr v \<and> mean_of x (meaning_of s) = Some v"
  by (auto simp: has_value_def read_object_def mean_of_def meaning_of_def bind_eq_Some_conv split: option.splits sum.splits)

lemma overwrite [simp]: "set_member x n (set_member x m s) = set_member x n s" "assign x v (assign x w m') = assign x v m'"
  "set_member x n (allocate a b (set_member x m s)) = set_member x n (allocate a b s)"
  by (simp_all add: set_member_def assign_def allocate_def)

lemma idle_set: "\<forall>a. m \<noteq> Buffer a \<Longrightarrow> idle x (set_member x m s)"
  by (simp add: idle_def)

lemma copied_in:
  assumes "owned s" and "idle x s" and "fresh a s"
  shows "owned (copy_in x v a s)" and "meaning_of (copy_in x v a s) = assign x (Some v) (meaning_of s)"
  using grow [OF assms] plain [OF assms(1,2), of "Scalar v"] by (auto simp: copy_in_def content_def)

lemma moved:
  assumes "owned s" and "idle x s" and "x \<noteq> y" and "members s y = Some m" and "e \<in> {Null, Eod}"
  shows "implements (Inr (set_member y e (set_member x m s))) (take_value x y (meaning_of s))"
  using pass [OF assms] assms(3,4) by (auto intro!: implementsI simp: take_value_def mean_member)

text \<open>The assignments: free, then copy or move.\<close>

lemma move_assigned:
  assumes "owned s" and "alive x s" and "alive y s" and "e \<in> {Null, Eod}"
  shows "implements (if x = y then Inr s else and_then (member_of x s) (\<lambda>old. and_then (free_member old s) (\<lambda>s.
    and_then (member_of y s) (\<lambda>m. Inr (set_member y e (set_member x m s)))))) (take_value x y (meaning_of s))"
proof (cases "x = y")
  case True
  then show ?thesis using assms(1) by (auto intro: implementsI simp: take_value_def)
next
  case False
  obtain old m where o: "members s x = Some old" and m: "members s y = Some m"
    using assms(2,3) by (auto simp: alive_def)
  show ?thesis
  proof (rule freed [OF assms(1) o, of Null])
    fix s1 assume f: "free_member old s = Inr s1" "members s1 = members s" "owned (set_member x Null s1)"
      "meaning_of (set_member x Null s1) = assign x None (meaning_of s)"
      and c: "\<And>y n. y \<noteq> x \<Longrightarrow> members s y = Some n \<Longrightarrow> content s1 n = content s n"
    note p = pass [OF f(3) idle_set False _ assms(4), of m]
    show ?thesis
      using False o m f p c [of y m] by (auto intro!: implementsI simp: member_of_def take_value_def mean_member)
  qed simp
qed

lemma copy_assigned:
  assumes "owned s" and "alive x s" and "has_value y s" and "fresh a s"
  shows "implements (value_assign x y a s) (assign x (mean_of y (meaning_of s)) (meaning_of s))"
proof (cases "x = y")
  case True
  with read_mean [OF assms(3)] obtain v where "mean_of x (meaning_of s) = Some v" by blast
  then have "assign x (mean_of x (meaning_of s)) (meaning_of s) = meaning_of s"
    by (auto simp: assign_def mean_of_def fun_upd_idem split: option.splits)
  with True assms(1) show ?thesis by (auto intro: implementsI simp: value_assign_def)
next
  case False
  obtain old where o: "members s x = Some old" using assms(2) by (auto simp: alive_def)
  obtain v where v: "read_object y s = Inr v" "mean_of y (meaning_of s) = Some v" using read_mean [OF assms(3)] by blast
  show ?thesis
  proof (rule freed [OF assms(1) o, of Null])
    fix s1 assume f: "free_member old s = Inr s1" "members s1 = members s" "owned (set_member x Null s1)"
      "meaning_of (set_member x Null s1) = assign x None (meaning_of s)"
      and c: "\<And>a. fresh a s \<Longrightarrow> fresh a s1" "\<And>y. y \<noteq> x \<Longrightarrow> read_object y s1 = read_object y s"
    have ready: "idle x (set_member x Null s1)" "fresh a (set_member x Null s1)"
      using c(1) [OF assms(4)] by (simp_all add: fresh_def idle_def)
    have same: "copy_in x v a (set_member x Null s1) = copy_in x v a s1" by (simp add: copy_in_def)
    note p = copied_in [OF f(3) ready, of v, unfolded same]
    from False o f p v c(2) [of y] show ?thesis
      by (auto intro!: implementsI simp: value_assign_def value_copy_def member_of_def)
  qed simp
qed

lemma ended:
  assumes "owned s" and "alive x s"
  shows "implements (and_then (member_of x s) (\<lambda>m. and_then (free_member m s) (\<lambda>s. Inr (end_life x s))))
    ((meaning_of s)\<lparr>val_of := (val_of (meaning_of s))(x := None)\<rparr>)"
proof -
  obtain m where m: "members s x = Some m" using assms(2) by (auto simp: alive_def)
  show ?thesis by (rule freed [OF assms(1) m, of Null]) (auto intro!: implementsI simp: m member_of_def)
qed

text \<open>Raw pointers: given by libbson, adopted, released.\<close>

lemma raw_given:
  assumes "owned s" and "fresh a s"
  shows "implements (execute (Allocated a d) s) (pure_step (Allocated a d) (meaning_of s))"
proof -
  note none = no_holder [OF assms]
  let ?s = "(allocate a (BDocument d) s)\<lparr>raw_pointers := insert a (raw_pointers s)\<rparr>"
  have "holds ?s a = (\<lambda>w. w = None)" "b \<noteq> a \<Longrightarrow> holds ?s b = holds s b" for b
    using none by (auto simp: fun_eq_iff holds_raw allocate_def)
  then have "owned ?s" by (intro handed [OF assms(1), of _ a None]) (auto simp: allocate_def)
  have "members s y \<noteq> Some (Buffer a)" for y using none [of "Some y"] by (simp add: holds_def)
  then have "content (s\<lparr>cells := (cells s)(a \<mapsto> v)\<rparr>) m = content s m" if "members s y = Some m" for y m v
    using that by (auto simp: content_def split: member.split)
  then have "meaning_of ?s = pure_step (Allocated a d) (meaning_of s)"
    by (auto simp: meaning_of_def allocate_def fun_eq_iff intro!: map_option_cong)
  with \<open>owned ?s\<close> show ?thesis by (auto intro: implementsI)
qed

lemma adopted:
  assumes "owned s" and "idle x s" and "a \<in> raw_pointers s"
  shows "implements (bson_owned x (Some a) s)
    (assign x (raw_of (meaning_of s) a) ((meaning_of s)\<lparr>raw_of := (raw_of (meaning_of s))(a := None)\<rparr>))"
proof -
  let ?s = "set_member x (Buffer a) (s\<lparr>raw_pointers := raw_pointers s - {a}\<rparr>)"
  have h: "holds s a None" using assms(3) by (simp add: holds_def)
  have "holds s a w \<longleftrightarrow> w = None" for w using one_holder [OF assms(1) h] h by blast
  then have "holds ?s a = (\<lambda>w. w = Some x)" "b \<noteq> a \<Longrightarrow> holds ?s b = holds s b" for b
    using assms(2) by (auto simp: fun_eq_iff holds_set holds_raw idle_holds)
  moreover have "cells s a \<noteq> None" using held_cell [OF assms(1) h] by auto
  ultimately have "owned ?s" by (intro handed [OF assms(1), of _ a "Some x"]) auto
  moreover have "meaning_of ?s = assign x (raw_of (meaning_of s) a) ((meaning_of s)\<lparr>raw_of := (raw_of (meaning_of s))(a := None)\<rparr>)"
    using assms(3) by (auto simp: meaning_of_def assign_def fun_eq_iff content_def)
  ultimately show ?thesis by (auto intro: implementsI simp: bson_owned_def)
qed

lemma released:
  assumes "owned s" and "members s x = Some (case p of None \<Rightarrow> Null | Some a \<Rightarrow> Buffer a)"
  shows "implements (bson_release x s) (let m' = assign x None (meaning_of s) in case p of
       None \<Rightarrow> m' | Some a \<Rightarrow> m'\<lparr>raw_of := (raw_of m')(a := mean_of x (meaning_of s))\<rparr>)"
proof (cases p)
  case None
  with assms(2) have "idle x s" by (simp add: idle_def)
  from plain [OF assms(1) this, of Null] None assms(2) show ?thesis
    by (auto intro!: implementsI simp: bson_release_def member_of_def content_def)
next
  case (Some a)
  let ?s = "(set_member x Null s)\<lparr>raw_pointers := insert a (raw_pointers s)\<rparr>"
  have h: "holds s a (Some x)" using assms(2) Some by (simp add: holds_def)
  have own: "holds s a w \<longleftrightarrow> w = Some x" for w using one_holder [OF assms(1) h] h by blast
  have off: "\<not> holds s b (Some x)" if "b \<noteq> a" for b using assms(2) Some that by (simp add: holds_def)
  have "holds ?s a = (\<lambda>w. w = None)" "b \<noteq> a \<Longrightarrow> holds ?s b = holds s b" for b
    using own off by (auto simp: fun_eq_iff holds_set holds_raw)
  moreover have "cells s a \<noteq> None" using held_cell [OF assms(1) h] by auto
  ultimately have "owned ?s" by (intro handed [OF assms(1), of _ a None]) auto
  moreover have "meaning_of ?s = (assign x None (meaning_of s))\<lparr>raw_of := (raw_of (meaning_of s))(a := mean_of x (meaning_of s))\<rparr>"
    using assms(2) Some by (auto simp: meaning_of_def assign_def fun_eq_iff content_def mean_of_def split: option.split)
  ultimately show ?thesis
    using assms(2) Some by (auto intro!: implementsI simp: bson_release_def member_of_def Let_def assign_def)
qed

lemma viewed:
  assumes "owned s" and "\<not> alive x s" and "has_fields y s" and "fresh a s"
  shows "implements (value_from_buffer type x y a s) (assign x (map_option type (fields_of (mean_of y (meaning_of s)))) (meaning_of s))"
proof -
  have "has_value y s" using assms(3) by (auto simp: has_fields_def has_value_def split: sum.splits)
  then obtain v where v: "read_object y s = Inr v" "mean_of y (meaning_of s) = Some v" using read_mean by blast
  note copied = copied_in [OF assms(1) dead_idle [OF assms(2)] assms(4)]
  show ?thesis
    using assms(3) v copied
    by (auto intro!: implementsI simp: value_from_buffer_def has_fields_def value_of_def split: bson.splits)
qed

lemma statement_implements:
  assumes "owned s" and "allowed c s"
  shows "implements (execute c s) (pure_step c (meaning_of s))"
proof (cases c)
  case (Bson_owned x p)
  with assms adopted [OF assms(1) dead_idle] plain [OF assms(1) dead_idle, of "Bson_object x" Null] show ?thesis
    by (cases p) (auto intro!: implementsI simp: bson_owned_def content_def)
next
  case (Bson_move x y)
  with assms obtain m where m: "members s (Bson_object y) = Some m" "x \<noteq> y" "\<not> alive (Bson_object x) s"
    by (cases "x = y") (auto simp: alive_def)
  with moved [OF assms(1) dead_idle, of "Bson_object x" "Bson_object y" m Null] Bson_move show ?thesis
    by (simp add: bson_move_def member_of_def)
next
  case (Value_move x y)
  with assms obtain m where m: "members s (Value_object y) = Some m" "x \<noteq> y" "\<not> alive (Value_object x) s"
    by (cases "x = y") (auto simp: alive_def)
  with moved [OF assms(1) dead_idle, of "Value_object x" "Value_object y" m Eod] Value_move show ?thesis
    by (simp add: value_move_def member_of_def)
next
  case (Bson_move_assign x y)
  with assms move_assigned [OF assms(1), of "Bson_object x" "Bson_object y" Null] show ?thesis
    by (simp add: bson_move_assign_def bson_move_def [abs_def] split: if_splits)
next
  case (Value_move_assign x y)
  with assms move_assigned [OF assms(1), of "Value_object x" "Value_object y" Eod] show ?thesis
    by (simp add: value_move_assign_def value_move_def [abs_def] split: if_splits)
next
  case (Bson_copy_of x y a)
  with assms read_mean obtain v where "read_object (Bson_object y) s = Inr v" "mean_of (Bson_object y) (meaning_of s) = Some v"
    by fastforce
  with assms Bson_copy_of grow [OF assms(1) dead_idle, of "Bson_object x" a v] show ?thesis
    by (auto intro!: implementsI simp: bson_copy_of_def)
next
  case (Value_copy x y a)
  with assms read_mean obtain v where "read_object (Value_object y) s = Inr v" "mean_of (Value_object y) (meaning_of s) = Some v"
    by fastforce
  with assms Value_copy copied_in [OF assms(1) dead_idle, of "Value_object x" a v] show ?thesis
    by (auto intro!: implementsI simp: value_copy_def)
next
  case (Bson_default x a)
  with assms grow [OF assms(1) dead_idle, of "Bson_object x" a] show ?thesis
    by (auto intro!: implementsI simp: bson_default_def)
next
  case (Value_default x)
  with assms plain [OF assms(1) dead_idle, of "Value_object x" "Scalar BNull"] show ?thesis
    by (auto intro!: implementsI simp: value_default_def content_def)
next
  case (Value_of x v a)
  with assms copied_in [OF assms(1) dead_idle, of "Value_object x" a v] show ?thesis
    by (auto intro!: implementsI simp: value_of_def)
qed (use assms raw_given ended released copy_assigned viewed in
  \<open>simp_all del: execute.simps(1) pure_step.simps(1) add: bson_end_def value_end_def\<close>)

section \<open>A Value is a value\<close>

fun run_program :: "statement list \<Rightarrow> store \<Rightarrow> store outcome" where
  "run_program [] s = Inr s"
| "run_program (c # cs) s = and_then (execute c s) (run_program cs)"

lemma program_implements:
  "owned s \<Longrightarrow> allowed_program cs s \<Longrightarrow> implements (run_program cs s) (fold pure_step cs (meaning_of s))"
proof (induction cs arbitrary: s)
  case Nil
  then show ?case by (auto intro: implementsI)
next
  case (Cons c cs)
  from Cons.prems have "allowed c s" by simp
  with statement_implements [OF Cons.prems(1)] obtain s1 where s1: "execute c s = Inr s1" "owned s1"
    "meaning_of s1 = pure_step c (meaning_of s)" by (auto simp: implements_def)
  with Cons.prems(2) Cons.IH [OF s1(2)] show ?case by simp
qed

lemma owned_empty: "owned empty_store"
  by (simp add: owned_def empty_store_def holds_def split: option.split)

lemma meaning_empty: "meaning_of empty_store = \<lparr>val_of = (\<lambda>_. None), raw_of = (\<lambda>_. None)\<rparr>"
  by (simp add: meaning_of_def empty_store_def)

lemma nothing_left:
  assumes "owned s" and "\<forall>x. \<not> alive x s" and "raw_pointers s = {}"
  shows "cells s a = None"
proof (rule ccontr)
  assume "cells s a \<noteq> None"
  then have "\<exists>!w. holds s a w" using spec [OF assms(1) [unfolded owned_def], of a] by auto
  then obtain w where "holds s a w" by blast
  with assms(2,3) show False by (cases w) (auto simp: holds_def alive_def)
qed

text \<open>
  C16. Memory is managed right. Whatever a function does with objects of the two classes, as long as it
  reads none that was moved from and adopts only pointers it owns: no buffer is freed twice or used
  after it was freed, each object is worth what the program without memory says (copies are
  independent of their source, from the copy on), every buffer has exactly one owner, and once the
  objects have ended and no raw pointer is kept, none is left.
\<close>

theorem objects_are_values:
  assumes "allowed_program cs empty_store"
  shows "\<exists>s. run_program cs empty_store = Inr s \<and> owned s
    \<and> meaning_of s = fold pure_step cs \<lparr>val_of = (\<lambda>_. None), raw_of = (\<lambda>_. None)\<rparr>
    \<and> ((\<forall>x. \<not> alive x s) \<and> raw_pointers s = {} \<longrightarrow> (\<forall>a. cells s a = None))"
proof -
  from program_implements [OF owned_empty assms] obtain s where "run_program cs empty_store = Inr s" "owned s"
    "meaning_of s = fold pure_step cs \<lparr>val_of = (\<lambda>_. None), raw_of = (\<lambda>_. None)\<rparr>"
    by (auto simp: implements_def meaning_empty)
  with nothing_left [of s] show ?thesis by blast
qed

definition sample_program :: "statement list" where
  "sample_program =
     [Allocated 0 [(''a'', BInt32 1)], Bson_owned ''b'' (Some 0), From_document ''v'' ''b'' 1, Value_copy ''w'' ''v'' 2,
      Value_assign ''v'' ''v'' 3, Value_of ''n'' (BInt64 5) 3, Value_assign ''w'' ''n'' 4, Bson_default ''c'' 3,
      Bson_move_assign ''c'' ''b'', Bson_release ''c'' (Some 0), Bson_end ''b'', Bson_end ''c'', Value_move ''u'' ''v'']"

theorem objects_are_values_witness:
  "\<exists>s. run_program sample_program empty_store = Inr s \<and> owned s
    \<and> meaning_of s = fold pure_step sample_program \<lparr>val_of = (\<lambda>_. None), raw_of = (\<lambda>_. None)\<rparr>
    \<and> ((\<forall>x. \<not> alive x s) \<and> raw_pointers s = {} \<longrightarrow> (\<forall>a. cells s a = None))"
proof (rule objects_are_values)
  show "allowed_program sample_program empty_store"
    by (simp add: sample_program_def empty_store_def alive_def has_value_def has_fields_def fresh_def read_object_def
      member_of_def content_def set_member_def allocate_def end_life_def free_member_def bson_owned_def value_from_buffer_def
      value_of_def copy_in_def value_copy_def value_assign_def bson_default_def bson_move_assign_def bson_move_def
      bson_release_def bson_end_def value_move_def Let_def)
qed

end
