(* ===== verification/EndToEnd.thy ===== *)
theory EndToEnd
  imports MongoGateway
begin

text \<open>
  Both heads of the server at once: what a Mongo client inserts over the wire (\<open>dispatch_command\<close> and
  the handlers below it) is what an SQL client reads with \<open>mongo()\<close>, and the other way round nothing
  else is there.
\<close>

section \<open>What an insert leaves in the table\<close>

text \<open>
  What is read for an element of \<open>documents\<close>: what libbson reads from the Extended JSON it prints for the
  element, with an ObjectId in front where there is no \<open>_id\<close>.
\<close>

definition reads_as :: "env \<Rightarrow> string \<times> string \<Rightarrow> document \<Rightarrow> bool" where
  "reads_as env r held \<longleftrightarrow> from_extjson (sql_db env) (snd r) = Inr held"

definition stored_text :: "env \<Rightarrow> bson \<Rightarrow> string \<times> string \<Rightarrow> bool" where
  "stored_text env v r \<longleftrightarrow> (\<exists>d oid. sub_fields v = Some d
     \<and> to_extjson (bson_lib env) (if map_of d ''_id'' = None then (''_id'', BOid oid) # d else d) = Inr (snd r))"

definition stored_as :: "env \<Rightarrow> bson \<Rightarrow> document \<Rightarrow> bool" where
  "stored_as env v held \<longleftrightarrow> (\<exists>d oid json. sub_fields v = Some d
     \<and> to_extjson (bson_lib env) (if map_of d ''_id'' = None then (''_id'', BOid oid) # d else d) = Inr json
     \<and> from_extjson (sql_db env) json = Inr held)"

lemma insert_leaves:
  assumes "insert_document env ns d s = (Inr i, s')" and "sub_fields v = Some d"
  obtains r where "mset (docs_of ns s') = add_mset r (mset (docs_of ns s))" and "stored_text env v r"
proof -
  from stored_document [OF assms(1)] obtain key json where
    "to_extjson (bson_lib env) (if map_of d ''_id'' = None then (''_id'', BOid (oids env (position s))) # d else d) = Inr json"
    "docs_of ns s' = insert_row key json (docs_of ns s)" by (auto simp: with_id_def split: option.splits)
  then show thesis
    using that [of "(key, json)"] assms(2) by (auto simp: stored_text_def insert_row_mset)
qed

lemma batch_leaves:
  "batch in_order what (\<lambda>d. run_atomically (insert_document env ns d)) i vs s = (Inr (oks, []), s') \<Longrightarrow>
    \<exists>new. mset (docs_of ns s') = mset (docs_of ns s) + mset new \<and> list_all2 (stored_text env) vs new"
proof (induction vs arbitrary: i s oks)
  case (Cons v vs)
  from Cons.prems show ?case
  proof (cases rule: batch_step)
    case (Done x s1 oks')
    then obtain d where d: "sub_fields v = Some d" "run_atomically (insert_document env ns d) s = (Inr x, s1)" by blast
    from d(2) obtain i' where "insert_document env ns d s = (Inr i', s1)" by (cases rule: atomically) auto
    from insert_leaves [OF this d(1)] obtain r where
      r: "mset (docs_of ns s1) = add_mset r (mset (docs_of ns s))" "stored_text env v r" by blast
    from Cons.IH [OF Done(1)] obtain new where
      "mset (docs_of ns s') = mset (docs_of ns s1) + mset new" "list_all2 (stored_text env) vs new" by blast
    with r show ?thesis by (intro exI [of _ "r # new"]) simp
  qed auto
qed simp

text \<open>From the reply: nothing was refused.\<close>

lemma insert_command_leaves:
  assumes "cmd_insert ctx s = (Inr reply, s')" and "ctx_ns ctx = Inr ns"
    and "find_field (ctx_body ctx) ''documents'' = Some (BArray elements)"
    and "find_field reply ''writeErrors'' = None"
  shows "\<exists>new. mset (docs_of ns s') = mset (docs_of ns s) + mset new
    \<and> list_all2 (stored_text (ctx_env ctx)) (map snd elements) new"
proof -
  from assms(1-3) obtain s1 s2 oks errors where c: "create (ctx_env ctx) False ns s = (Inr (), s1)"
    and b: "batch (flag (ctx_body ctx) ''ordered'' True) ''documents''
        (\<lambda>d. run_atomically (insert_document (ctx_env ctx) ns d)) 0 (map snd elements) s1
      = (Inr (oks, errors), s2)"
    and r: "append_operation_time (append_write_errors [] errors
        @ [(''n'', BInt32 (word_of_nat (length oks))), (''ok'', bone)]) (last_stamp oks) s2 = (Inr reply, s')"
    by (auto simp: cmd_insert_def Let_def array_field_def elim!: bind_actionE)
  from appended_time [OF r] assms(4) have "errors = []"
    by (auto simp: append_write_errors_def find_field_def c_str_def nul_def split: if_splits)
  moreover have "docs_of ns s' = docs_of ns s2"
    using append_operation_time_docs [of ns _ "last_stamp oks" s2] r by (metis snd_conv)
  ultimately show ?thesis using batch_leaves b create_docs [OF c] by metis
qed

section \<open>What a find without a filter returns\<close>

lemma no_filter: "where_clause env [] = Inr ''1''"
  by (simp add: where_clause_def compile_filter_def compile_document.simps render_sql.simps)

lemma loads_everything:
  assumes "load env ns [] s = Inr docs" and "\<forall>json. holds (sql_db env) ''1'' json"
  shows "list_all2 (reads_as env) (docs_of ns s) docs \<and> coll_exists ns s"
proof -
  from assms(1) have e: "coll_exists ns s"
    and "map_res (\<lambda>r. from_extjson (sql_db env) (snd r)) (selected env ns ''1'' s) = Inr docs"
    by (auto simp: load_def no_filter require_exists_def and_then_Inr_iff split: if_splits)
  moreover have "selected env ns ''1'' s = docs_of ns s"
    using assms(2) by (simp add: selected_def docs_of_def split: option.split)
  ultimately show ?thesis by (simp add: map_res_Inr_iff reads_as_def [abs_def])
qed

section \<open>From one head to the other\<close>

lemma insert_handler: "map_of handlers ''insert'' = Some (\<lambda>c. on_server (cmd_insert c))"
  by (simp add: handlers_def)

text \<open>Documents read from rows that are the same but for their order.\<close>

lemma reads_split:
  assumes "list_all2 (reads_as env) rs docs" and "mset rs = mset a + mset b"
  obtains old new where "list_all2 (reads_as env) a old" and "list_all2 (reads_as env) b new"
    and "mset docs = mset old + mset new"
proof -
  let ?h = "\<lambda>r. projr (from_extjson (sql_db env) (snd r))"
  have h: "docs = map ?h rs \<and> (\<forall>r \<in> set rs. reads_as env r (?h r))"
    using assms(1) by (induction rs docs rule: list_all2_induct) (simp_all add: reads_as_def)
  then have "mset docs = mset (map ?h a) + mset (map ?h b)" using assms(2) by simp
  moreover have "set a \<union> set b = set rs" using assms(2) by (metis mset_append set_append set_mset_mset)
  ultimately show thesis
    using h by (intro that [of "map ?h a" "map ?h b"]) (auto simp: list_all2_map2 list_all2_same)
qed

lemma stored_reads:
  "list_all2 (stored_text env) vs rs \<Longrightarrow> list_all2 (reads_as env) rs docs \<Longrightarrow> list_all2 (stored_as env) vs docs"
  by (rule list_all2_trans [of "stored_text env" "reads_as env" "stored_as env"]) (unfold stored_text_def reads_as_def stored_as_def, blast, assumption+)

text \<open>
  C7. What a Mongo client inserts, an SQL client reads. When a request to insert was answered with
  \<open>ok\<close> 1 and no \<open>writeErrors\<close>, and the rows of the collection can be read, a \<open>mongo()\<close> that finds without a
  filter, in a database whose name has no dot, returns the array of these documents and no others, in
  the order of the table: one for each row there was before, and one for each document of the request.
  The latter is what libbson reads from the Extended JSON it prints for the document as it was sent, or
  with an ObjectId in front where it had no \<open>_id\<close>.
\<close>

theorem sql_reads_what_mongo_inserted:
  assumes "\<forall>json. holds (sql_db (ses_env ses)) ''1'' json"
    and "req_body req = (''insert'', BUtf8 coll) # rest" and "find_field (req_body req) ''documents'' = Some (BArray elements)"
    and "parse_namespace (database req) coll = Inr ns" and "CHR ''.'' \<notin> set (database req)" and "\<not> is_oplog_namespace ns"
    and "dispatch_command ses req n = (Inr reply, n1)"
    and "find_field reply ''ok'' = Some bone" and "find_field reply ''writeErrors'' = None"
    and "load (ses_env ses) ns [] (srv n1) = Inr docs" and "ses_env other = ses_env ses"
    and "and_then (parse_shell_call lib sql) build_shell_command
      = Inr \<lparr>command = find_command coll [], result = Documents\<rparr>"
    and "safe_int (next_id (reg n))" and "1 \<le> next_id (reg n)"
  shows "\<exists>n2 old new. run_mongo_gateway other lib (database req) sql n1
      = Some (render_array (bson_lib (ses_env ses)) docs, n2)
    \<and> mset docs = mset old + mset new
    \<and> list_all2 (reads_as (ses_env ses)) (docs_of ns (srv n)) old
    \<and> list_all2 (stored_as (ses_env ses)) (map snd elements) new"
proof -
  let ?ctx = "\<lparr>ctx_env = ses_env ses, ctx_gateway = ses_gateway ses, ctx_body = req_body req, ctx_db = database req,
    ctx_argument = coll, ctx_seconds = ses_seconds ses, ctx_passes = ses_passes ses\<rparr>"
  obtain r s where c: "cmd_insert ?ctx (srv n) = (r, s)" by (cases "cmd_insert ?ctx (srv n)")
  have run: "run_command_named ses req ''insert'' (BUtf8 coll) n = (r, n\<lparr>srv := s\<rparr>)"
    by (simp add: run_command_named_def insert_handler on_server_def c)
  have "r = Inr reply \<and> n1 = n\<lparr>srv := s\<rparr>"
  proof (cases r)
    case (Inl e)
    with run assms(2,7) have "failure_reply (ses_what ses) e = Inr reply"
      by (simp add: dispatch_command_def document_fields_def)
    then obtain code name m where "reply = error_reply code name m" by (cases e) auto
    moreover have "BDouble (d_of_int 0) \<noteq> bone" by code_simp
    ultimately show ?thesis using assms(8) by (simp add: error_reply_def find_field_def nul_def)
  next
    case (Inr x)
    with run assms(2,7) show ?thesis by (simp add: dispatch_command_def document_fields_def)
  qed
  with c have ins: "cmd_insert ?ctx (srv n) = (Inr reply, srv n1)" and reg: "reg n1 = reg n" by simp_all
  from insert_command_leaves [OF ins, of ns elements] assms(3,4,9) obtain rows where
    rows: "mset (docs_of ns (srv n1)) = mset (docs_of ns (srv n)) + mset rows"
    and new: "list_all2 (stored_text (ses_env ses)) (map snd elements) rows" by (auto simp: ctx_ns_def)
  from loads_everything [OF assms(10,1)] have all: "list_all2 (reads_as (ses_env ses)) (docs_of ns (srv n1)) docs"
    and e: "coll_exists ns (srv n1)" by simp_all
  from reads_split [OF all rows] obtain old held where
    docs: "list_all2 (reads_as (ses_env ses)) (docs_of ns (srv n)) old"
      "list_all2 (reads_as (ses_env ses)) rows held" "mset docs = mset old + mset held" .
  moreover have "\<exists>n2. run_mongo_gateway other lib (database req) sql n1
      = Some (render_array (bson_lib (ses_env other)) docs, n2) \<and> srv n2 = srv n1"
    using assms(4-6,10-14) e reg
    by (intro found_documents [where ps = "[]" and docs = docs])
      (simp_all add: find_projected_def shown_as_def first_document_def)
  ultimately show ?thesis using stored_reads [OF new docs(2)] assms(11) by auto
qed

definition insert_request :: request where
  "insert_request = \<lparr>req_header = \<lparr>message_length = 0, request_id = 7, response_to = 0, op_code = kOpMsg\<rparr>,
     req_body = [(''insert'', BUtf8 ''a''), (''documents'', BArray [(''0'', BDocument doc_c)]), (''$db'', BUtf8 ''app'')],
     database = ''app'', legacy_query = False\<rparr>"

lemma demo_insert:
  "\<not> isl (fst (cmd_insert (demo_ctx (req_body insert_request)) demo_server))"
  "find_field (projr (fst (cmd_insert (demo_ctx (req_body insert_request)) demo_server))) ''ok'' = Some bone"
  "find_field (projr (fst (cmd_insert (demo_ctx (req_body insert_request)) demo_server))) ''writeErrors'' = None"
  "load demo_env demo_ns [] (snd (cmd_insert (demo_ctx (req_body insert_request)) demo_server)) = Inr [doc_a, doc_c]"
  by code_simp+

lemma demo_insert_request:
  "dispatch_command demo_session insert_request demo_node
    = (fst (cmd_insert (demo_ctx (req_body insert_request)) demo_server),
       demo_node\<lparr>srv := snd (cmd_insert (demo_ctx (req_body insert_request)) demo_server)\<rparr>)"
proof -
  let ?ctx = "demo_ctx (req_body insert_request)"
  obtain r s where c: "cmd_insert ?ctx demo_server = (r, s)" by (cases "cmd_insert ?ctx demo_server")
  moreover from c demo_insert(1) obtain x where "r = Inr x" by (cases r) auto
  moreover have "?ctx = \<lparr>ctx_env = ses_env demo_session, ctx_gateway = ses_gateway demo_session,
    ctx_body = req_body insert_request, ctx_db = database insert_request, ctx_argument = ''a'',
    ctx_seconds = ses_seconds demo_session, ctx_passes = ses_passes demo_session\<rparr>"
    by (simp add: demo_ctx_def demo_session_def insert_request_def)
  ultimately show ?thesis
    by (simp add: dispatch_command_def run_command_named_def insert_handler on_server_def document_fields_def
      insert_request_def demo_node_def)
qed

theorem sql_reads_what_mongo_inserted_witness:
  "\<exists>n2 old new. run_mongo_gateway demo_session plain_oids (database insert_request) ''db.a.find({})''
      (snd (dispatch_command demo_session insert_request demo_node))
      = Some (render_array (bson_lib (ses_env demo_session)) [doc_a, doc_c], n2)
    \<and> mset [doc_a, doc_c] = mset old + mset new
    \<and> list_all2 (reads_as (ses_env demo_session)) (docs_of demo_ns (srv demo_node)) old
    \<and> list_all2 (stored_as (ses_env demo_session)) (map snd [(''0'', BDocument doc_c)]) new"
proof (rule sql_reads_what_mongo_inserted)
  let ?r = "cmd_insert (demo_ctx (req_body insert_request)) demo_server"
  show "dispatch_command demo_session insert_request demo_node
      = (Inr (projr (fst ?r)), snd (dispatch_command demo_session insert_request demo_node))"
    using demo_insert(1) unfolding demo_insert_request by (cases "fst ?r") auto
  show "find_field (projr (fst ?r)) ''ok'' = Some bone" "find_field (projr (fst ?r)) ''writeErrors'' = None"
    by (rule demo_insert)+
  have env: "ses_env demo_session = demo_env" by (simp add: demo_session_def)
  show "\<forall>json. holds (sql_db (ses_env demo_session)) ''1'' json" unfolding env by (simp add: demo_env_def demo_db_def)
  show "load (ses_env demo_session) demo_ns [] (srv (snd (dispatch_command demo_session insert_request demo_node)))
      = Inr [doc_a, doc_c]"
    unfolding env demo_insert_request using demo_insert(4) by simp
  show "parse_namespace (database insert_request) ''a'' = Inr demo_ns" "\<not> is_oplog_namespace demo_ns" by code_simp+
  show "and_then (parse_shell_call plain_oids ''db.a.find({})'') build_shell_command
      = Inr \<lparr>command = find_command ''a'' [], result = Documents\<rparr>" by (rule demo_find)
qed (simp_all add: insert_request_def demo_node_def fresh_registry_def safe_int_def find_field_def nul_def)

end
