(* ===== verification/Spec2Isabelle.thy ===== *)
theory Spec2Isabelle
  imports Plugin SqlProjection Session Health Ownership EndToEnd
begin

text \<open>
  ChimeraDB lets a MongoDB client talk to MariaDB. The translator (src/chimera/translator) turns
  BSON documents, filters, updates and pipelines into SQL and back. The plugin
  (src/chimera/plugin/chimera_mongo) speaks the wire protocol inside the server: a request is framed
  by wire.cc and dispatched by commands.cc, whose handlers read and write collections (tables of
  MariaDB, collection.cc) through SQL text (sql.cc). Triggers mirror every write into an oplog
  (oplog.cc) that tailing cursors and change streams read (cursor.cc, changestream.cc). Two gateways
  cross over: SQL for Mongo clients (sqlgateway.cc) and Mongo for SQL clients (mongogateway.cc).

  Conventions. A C++ function is a HOL function of the same name; an exception is the left side
  of an \<open>outcome\<close> (\<open>Prelude\<close>: \<open>Raise\<close> a \<open>TranslatorError\<close> with its code, \<open>Std_exception\<close> another
  exception, \<open>Undefined\<close> what C++ leaves undefined). \<open>int32_t\<close>, \<open>int64_t\<close>, \<open>uint64_t\<close> are words, a
  \<open>double\<close> is its 64 bits (\<open>Double\<close>), a string is a list of bytes as characters, a BSON document a
  list of named values (\<open>Bson\<close>). What is not under src/ is an argument (the record \<open>env\<close> of
  \<open>Collections\<close>, \<open>libbson\<close>, \<open>sql_lib\<close>, \<open>session\<close>): libbson's text forms and parser, \<open>inet_pton\<close>, the
  sockets (as lists of events), the clock, fresh ObjectIds, escaping, and MariaDB's evaluation of SQL
  text. A fixed statement of the code (the INSERT, UPDATE and DELETE of a collection, the triggers,
  the oplog's) is a function on tables; a compiled WHERE is text that the parameter \<open>holds\<close> (record
  \<open>mariadb\<close>) evaluates on a row. The rows of a collection are kept in the order of their keys, by which
  InnoDB clusters them, and a SELECT without ORDER BY is read as a scan in that order; what is stated
  of the outcome of such a SELECT as a whole is stated of the rows as a multiset. Names in \<open>chimera_meta\<close>
  and in the oplog compare as bytes, that is, under a binary collation; its tables name none, and under
  a collation that folds case, two collections or indexes that differ in case only would be confused.

  Theories, in the order of the code.

  \<^item> \<open>Prelude\<close>, \<open>Machines\<close>, \<open>Double\<close>, \<open>Bytes\<close>: outcomes and error.cpp, the locales \<open>codec\<close>,
    \<open>canonical_codec\<close> and \<open>machine\<close>, IEEE doubles, big-endian bytes.
  \<^item> \<open>Bson\<close> and \<open>Paths\<close> (bson.cpp): values, equality, dotted paths; the laws of reading, setting and
    unsetting paths (locale \<open>field_store\<close>), and the JSON path text of a path.
  \<^item> \<open>Ownership\<close> (the classes of bson.cpp): constructors, assignments and destructors on a store of
    buffers. It refines a store of plain values, so the other theories may take a \<open>Value\<close> for its value.
  \<^item> \<open>Ids\<close> (id.cpp): the key of an \<open>_id\<close>; it round-trips, numbers of different types share a key
    exactly when they are equal, and keys sort like numbers.
  \<^item> \<open>Filters\<close> (filter.cpp, codec.cpp): the compiler from filters to SQL; values are always bound,
    one parameter per placeholder; a field name, however, reaches the text unescaped.
  \<^item> \<open>Ordering\<close> (sort.cpp), \<open>Projection\<close> (project.cpp), \<open>Pipeline\<close> (pipeline.cpp), \<open>Update\<close>
    (update.cpp): the BSON semantics that SQL does not have. Comparison is a lexicographic order
    on keys (locale \<open>comparator\<close>) where no NaN occurs, sorting is stable, projections and updates
    change what they name and nothing else, grouping is a partition by key, stages compose.
  \<^item> \<open>Sqlguard\<close> (sqlguard.cpp), \<open>Mongosh\<close> (mongosh.cpp), \<open>ResumeTokens\<close> (changestream.cpp of the
    translator): the readers of text, with the exact set of texts they accept, and what each verb of
    the shell means as a command.
  \<^item> \<open>Wire\<close> (wire.cc): framing over any chunking of the byte stream, memory safety of the parser,
    round trips of OP_MSG and replies.
  \<^item> \<open>Cursors\<close> (cursor.cc): the registry as a machine; exactly-once delivery.
  \<^item> \<open>Oplog\<close> (oplog.cc): tables, writers, the pruner and its durable history as an interleaving step
    relation with its invariant: every committed event is stored or covered by the history.
  \<^item> \<open>Statements\<close> (sql.cc, and the names of collection.cc): putting bound values into SQL text, as seen
    by a lexer of string literals: whatever the values are, the text outside literals is the same;
    and names: what may be a namespace, and that its quoted form reads as two identifiers.
  \<^item> \<open>ChangeStreams\<close> (changestream.cc, and the tails of commands.cc): readers and tailing cursors
    over that relation (locale \<open>tail_source\<close>): exactly-once delivery for a watching client, the
    meaning of an operation time, and the places where a tail repeats or skips an entry.
  \<^item> \<open>Collections\<close> (collection.cc): the state \<open>server\<close> (tables with their rows by key, the catalog of
    collections and of indexes, the oplog), the triggers that fire on a row, and every operation on
    documents. An \<open>action\<close> takes a server to an outcome and a server.
  \<^item> \<open>Mirror\<close> (the same operations inside \<open>run_atomically\<close> of commands.cc): the locale \<open>write_law\<close>
    states what an invariant and a relation must satisfy for every write, failed or not, to keep
    them; its interpretations are the mirror (replaying the events of a write over the old documents
    gives the new ones: a collection refines its oplog), the stamp a write reports, the typing of the
    server, collections without triggers, and tables that stay. \<open>server_machine\<close> interprets
    \<open>machine\<close> on sequences of creates, drops and writes. Of libbson it is asked, for the documents that are
    written and no others, that the printed text reads back with the same \<open>_id\<close> (\<open>survives\<close>); the effects of
    an insert, an update and a delete on the rows are stated with the printed texts themselves.
  \<^item> \<open>Indexes\<close> (collection.cc): creating, listing and dropping indexes, databases and collections.
  \<^item> \<open>SqlGateway\<close> (sqlgateway.cc, and the result sets of sql.cc): which statements reach the server and
    what becomes of a result.
  \<^item> \<open>Session\<close> (sql.cc, and \<open>run_atomically\<close> of commands.cc as statements): the connection to the
    server, and that its transactions implement the atomic step of \<open>Mirror\<close>.
  \<^item> \<open>SqlProjection\<close> (projection.cc): the statements of \<open>chimera_add_projection\<close> as text, equal to the
    filter compiler's where both read a field; its triggers on a row, which keep column and document
    in agreement, and the cases where they fail their users.
  \<^item> \<open>Replies\<close>, \<open>Reads\<close>, \<open>Writes\<close>, \<open>Dispatch\<close> (commands.cc): arguments and replies; the handlers of each
    command; dispatch. A \<open>node\<close> is a server with the cursor registry, a \<open>session\<close> what a connection
    and its surroundings supply. Lemmas: which reply each outcome of a handler becomes, reading
    commands leave the data as it is, a batch accounts for each of its elements, and the counts of a
    reply are those of the rows. A handler that runs into undefined behaviour of C++ (the value
    \<open>Undefined\<close>; a client gets there with a number outside int64, for one) is claimed nothing of.
  \<^item> \<open>MongoGateway\<close> (mongogateway.cc): shell statements through \<open>dispatch_command\<close>, and the loop that
    drains the cursor of a reply. \<open>EndToEnd\<close>: what is inserted over the wire is what \<open>mongo()\<close> reads, as far
    as libbson reads back what it prints.
  \<^item> \<open>Listener\<close> (listener.cc): accepting connections, and the loop of one: whatever the chunking of
    its bytes, it sends the replies to its messages, one each and in order.
  \<^item> \<open>Plugin\<close> (chimera_mongo.cc, mongogateway_udf.cc, and the pruner's thread of oplog.cc): what the
    plugin starts with, the SQL function, and the pruner's turns as runs of the relation of \<open>Oplog\<close>.
  \<^item> \<open>Health\<close> (cli/health/main.c): the probe, and that it succeeds on what \<open>Listener\<close> answers it.

  Termination and fuel. No definition uses fuel. Every function is total, with structural recursion
  or a measure, but one: the loop \<open>collect_cursor\<close> of \<open>MongoGateway\<close> is a \<open>partial_function (option)\<close>
  where None is not returning. It is proved to return every document of a find (in a database without
  a dot in its name, or when one batch holds them), to fail where the name has a dot, and never to
  return on a change stream. The shell reader, which is mutually recursive over the rest of the text, has its
  termination proved from the progress of each call.

  Bounds. Sequence numbers and operation times of the oplog tables are naturals (BIGINT and INT
  UNSIGNED columns that MariaDB keeps in range); where they meet the 64-bit tokens of the wire the
  bound is a hypothesis.

  What a client does while another writes is in \<open>Oplog\<close> and \<open>ChangeStreams\<close>; the handlers of
  \<open>Reads\<close> and \<open>Writes\<close> run one at a time, apart from the passes of a tailing getMore. A failed statement
  of a transaction rolls the server back to what it was when the transaction began.

  Not modelled: the declaration of the plugin to the server and its shutdown, the alarm of the probe;
  threads and their joining (a connection runs alone); of the oplog, its users and grants and the
  names of its triggers; the DDL of chimera_meta (its tables exist, and names in them are compared
  as bytes); buffers that libbson and the client library of MariaDB manage for themselves. What is left
  of the sources is includes, comments, and glue between the functions modelled.
\<close>

end
